(* ===== verification/Prelude.thy ===== *)
theory Prelude
  imports Main "HOL-Library.Word" "HOL-Library.Char_ord" "HOL-Library.List_Lexorder" "HOL-Library.Sublist"
begin

text \<open>
  Shared vocabulary of the development: byte strings, the signed reading of a C++
  \<^verbatim>\<open>char\<close>, the searching members of \<^verbatim>\<open>std::basic_string\<close> that the sources use, the
  exceptions the sources throw, and generic lemmas about them. A \<^verbatim>\<open>std::string\<close> is a
  \<^typ>\<open>string\<close>, that is, a list of bytes; \<^verbatim>\<open>size_t\<close> is 64 bits wide and \<^verbatim>\<open>char\<close> is
  signed, as on the x86-64 targets the library is built for.
\<close>

unbundle bit_operations_syntax

named_theorems find_facts \<open>what a successful or failed search of a string says\<close>

named_theorems bounds \<open>length and range facts of the component models\<close>

type_synonym u8 = "8 word"
type_synonym u16 = "16 word"
type_synonym u32 = "32 word"
type_synonym u64 = "64 word"
type_synonym size_t = "64 word"

abbreviation size_t_max :: nat where
  "size_t_max \<equiv> 2 ^ 64 - 1"

section \<open>Characters\<close>

definition uchar :: "char \<Rightarrow> nat" where
  "uchar c = of_char c"

text \<open>The value of a signed \<^verbatim>\<open>char\<close> after the usual promotion to \<^verbatim>\<open>int\<close>.\<close>

definition schar :: "char \<Rightarrow> int" where
  "schar c = (if uchar c < 128 then int (uchar c) else int (uchar c) - 256)"

text \<open>The conversion \<^verbatim>\<open>static_cast<char>(int)\<close>: the low eight bits.\<close>

definition to_char :: "int \<Rightarrow> char" where
  "to_char n = char_of (nat (n mod 256))"

lemma uchar_less [simp, bounds]: "uchar c < 256"
  by (simp add: uchar_def)

lemma uchar_char_of [simp]: "uchar (char_of n) = n mod 256"
  by (simp add: uchar_def)

lemma uchar_inject [simp]: "uchar c = uchar d \<longleftrightarrow> c = d"
  by (simp add: uchar_def of_char_eq_iff)

lemma char_of_uchar [simp]: "char_of (uchar c) = c"
  by (simp add: uchar_def)

lemma schar_range [bounds]: "- 128 \<le> schar c" "schar c < 128"
  using uchar_less [of c] by (simp_all add: schar_def del: uchar_less)

lemma schar_inject [simp]: "schar c = schar d \<longleftrightarrow> c = d"
proof -
  have "schar c = schar d \<longleftrightarrow> uchar c = uchar d"
    using uchar_less [of c] uchar_less [of d]
    by (simp add: schar_def del: uchar_less uchar_inject)
  then show ?thesis by simp
qed

lemma to_char_schar [simp]: "to_char (schar c) = c"
proof -
  have "schar c mod 256 = int (uchar c)"
    using uchar_less [of c] by (simp add: schar_def del: uchar_less)
  then show ?thesis by (simp add: to_char_def)
qed

section \<open>Searching strings\<close>

text \<open>\<^verbatim>\<open>s.find(c)\<close>: the first position of a character; \<^const>\<open>None\<close> is \<^verbatim>\<open>npos\<close>.\<close>

fun find_char :: "char \<Rightarrow> string \<Rightarrow> nat option" where
  "find_char c [] = None"
| "find_char c (x # xs) = (if x = c then Some 0 else map_option Suc (find_char c xs))"

text \<open>\<^verbatim>\<open>s.find(p)\<close>: the first position where \<open>p\<close> occurs as a whole.\<close>

fun find_sub :: "string \<Rightarrow> string \<Rightarrow> nat option" where
  "find_sub p [] = (if p = [] then Some 0 else None)"
| "find_sub p (x # xs) = (if prefix p (x # xs) then Some 0 else map_option Suc (find_sub p xs))"

text \<open>\<^verbatim>\<open>s.rfind(c)\<close>: the last position of a character.\<close>

definition rfind_char :: "char \<Rightarrow> string \<Rightarrow> nat option" where
  "rfind_char c s = map_option (\<lambda>k. length s - 1 - k) (find_char c (rev s))"

text \<open>\<^verbatim>\<open>s.substr(pos, n)\<close> for a position inside the string.\<close>

definition substr :: "nat \<Rightarrow> nat \<Rightarrow> string \<Rightarrow> string" where
  "substr pos n s = take n (drop pos s)"

definition starts_with :: "string \<Rightarrow> string \<Rightarrow> bool" where
  "starts_with p s \<longleftrightarrow> take (length p) s = p"

definition ends_with :: "string \<Rightarrow> string \<Rightarrow> bool" where
  "ends_with p s \<longleftrightarrow> length p \<le> length s \<and> drop (length s - length p) s = p"

text \<open>Subtraction and addition of \<^verbatim>\<open>size_t\<close> values.\<close>

definition size_sub :: "nat \<Rightarrow> nat \<Rightarrow> nat" where
  "size_sub a b = (a + 2 ^ 64 - b) mod 2 ^ 64"

definition size_add :: "nat \<Rightarrow> nat \<Rightarrow> nat" where
  "size_add a b = (a + b) mod 2 ^ 64"

lemma size_sub_le [simp]: "b \<le> a \<Longrightarrow> a < 2 ^ 64 \<Longrightarrow> size_sub a b = a - b"
proof -
  assume ab: "b \<le> a" "a < 2 ^ 64"
  then have "size_sub a b = ((a - b) + 2 ^ 64) mod 2 ^ 64" by (simp add: size_sub_def)
  also have "\<dots> = (a - b) mod 2 ^ 64" by (rule mod_add_self2)
  finally show "size_sub a b = a - b" using ab by simp
qed

lemma size_sub_wrap: "a < b \<Longrightarrow> b \<le> 2 ^ 64 \<Longrightarrow> size_sub a b = a + 2 ^ 64 - b"
  by (simp add: size_sub_def)

lemma size_add_small [simp]: "a + b < 2 ^ 64 \<Longrightarrow> size_add a b = a + b"
  by (simp add: size_add_def)

lemma find_char_None [find_facts]: "find_char c s = None \<longleftrightarrow> c \<notin> set s"
  by (induction s) auto

lemma find_char_Some [find_facts]:
  "find_char c s = Some n \<Longrightarrow> n < length s \<and> s ! n = c \<and> c \<notin> set (take n s)"
  by (induction s arbitrary: n) (auto split: if_splits)

lemma find_char_split:
  "find_char c s = Some n \<Longrightarrow> s = take n s @ c # drop (Suc n) s"
  using find_char_Some [of c s n] by (metis id_take_nth_drop)

lemma find_char_append [simp]:
  "c \<notin> set p \<Longrightarrow> find_char c (p @ s) = map_option (\<lambda>n. length p + n) (find_char c s)"
  by (cases "find_char c s"; induction p) auto

lemma find_char_length [bounds]: "find_char c s = Some n \<Longrightarrow> n < length s"
  using find_char_Some by blast

lemma find_sub_length [bounds]: "find_sub p s = Some n \<Longrightarrow> n + length p \<le> length s"
  by (induction s arbitrary: n) (auto split: if_splits dest: prefix_length_le)

lemma find_sub_take_drop [find_facts]:
  "find_sub p s = Some n \<Longrightarrow> s = take n s @ p @ drop (n + length p) s"
  by (induction s arbitrary: n) (auto split: if_splits simp: prefix_def)

text \<open>A separator that occurs first at the end of \<open>a\<close>: no earlier occurrence starts inside \<open>a\<close>.\<close>

definition free_of :: "string \<Rightarrow> string \<Rightarrow> bool" where
  "free_of p a \<longleftrightarrow> (\<forall>n < length a. \<not> prefix p (drop n a @ p))"

lemma free_of_Nil [simp]: "free_of p []"
  by (simp add: free_of_def)

lemma free_of_Cons:
  "free_of p (x # xs) \<longleftrightarrow> \<not> prefix p (x # xs @ p) \<and> free_of p xs"
  by (auto simp: free_of_def less_Suc_eq_0_disj)

lemma prefix_append_lenI:
  "length p \<le> length a \<Longrightarrow> prefix p (a @ b) \<longleftrightarrow> prefix p a"
  by (metis prefix_append prefix_def prefix_length_prefix)

lemma find_sub_free:
  assumes "free_of p a" and "p \<noteq> []"
  shows "find_sub p (a @ p @ b) = Some (length a)"
  using assms
proof (induction a)
  case Nil
  then show ?case by (cases p) auto
next
  case (Cons x xs)
  from Cons.prems have "\<not> prefix p (x # xs @ p)" and free: "free_of p xs"
    by (simp_all add: free_of_Cons)
  then have "\<not> prefix p ((x # xs @ p) @ b)"
    by (subst prefix_append_lenI) auto
  then show ?case using Cons.IH [OF free] Cons.prems(2) by simp
qed

lemma free_of_single: "free_of [c] a \<longleftrightarrow> c \<notin> set a"
  by (induction a) (auto simp: free_of_Cons)

lemma find_sub_single: "find_sub [c] s = find_char c s"
  by (induction s) auto

section \<open>Results and exceptions\<close>

text \<open>The exceptions the modelled sources throw, each with the class that is thrown.\<close>

datatype exn =
    Out_of_range
  | Invalid_argument
  | Runtime_error
  | System_error nat

type_synonym 'a res = "exn + 'a"

definition res_bind :: "'e + 'a \<Rightarrow> ('a \<Rightarrow> 'e + 'b) \<Rightarrow> 'e + 'b" where
  "res_bind r f = (case r of Inl e \<Rightarrow> Inl e | Inr x \<Rightarrow> f x)"

lemma res_bind_simps [simp]:
  "res_bind (Inl e) f = Inl e"
  "res_bind (Inr x) f = f x"
  by (simp_all add: res_bind_def)

text \<open>\<^verbatim>\<open>s.erase(pos, n)\<close>, which throws for a position behind the end.\<close>

definition erase :: "nat \<Rightarrow> nat \<Rightarrow> string \<Rightarrow> string res" where
  "erase pos n s = (if length s < pos then Inl Out_of_range else Inr (take pos s @ drop (pos + n) s))"

lemma res_bind_Inr: "res_bind r f = Inr y \<longleftrightarrow> (\<exists>x. r = Inr x \<and> f x = Inr y)"
  by (cases r) auto

end
