(* ===== verification/Sha1.thy ===== *)
theory Sha1
  imports Prelude
begin

text \<open>
  The SHA-1 hash (\<^verbatim>\<open>libgs/core/algorithm/sha1.cpp\<close>). The object keeps the five state
  words, a 64-byte block buffer with its fill, and a bit counter. The block function works
  on sixteen schedule words in a circular buffer and on five registers whose roles rotate
  from round to round; it is compared with the compression function of FIPS 180.
\<close>

section \<open>The object\<close>

record sha1_impl =
  m_state :: "u32 list"
  m_buf :: "u8 list"
  m_i :: nat
  m_n_bits :: u64

definition sha1_h0 :: "u32 list" where
  "sha1_h0 = [0x67452301, 0xEFCDAB89, 0x98BADCFE, 0x10325476, 0xC3D2E1F0]"

definition sha1_init :: sha1_impl where
  "sha1_init = \<lparr>m_state = sha1_h0, m_buf = replicate 64 0, m_i = 0, m_n_bits = 0\<rparr>"

definition make_word :: "u8 list \<Rightarrow> nat \<Rightarrow> u32" where
  "make_word p k =
     push_bit 24 (ucast (p ! k)) OR push_bit 16 (ucast (p ! (k + 1))) OR
     push_bit 8 (ucast (p ! (k + 2))) OR ucast (p ! (k + 3))"

definition rol32 :: "u32 \<Rightarrow> nat \<Rightarrow> u32" where
  "rol32 x n = push_bit n x OR drop_bit (32 - n) x"

section \<open>The block function\<close>

definition sha1_load :: "nat \<Rightarrow> u32 list \<Rightarrow> u32 list" where
  "sha1_load i w =
     w[i mod 16 := rol32 (w ! ((i + 13) mod 16) XOR w ! ((i + 8) mod 16) XOR
                          w ! ((i + 2) mod 16) XOR w ! (i mod 16)) 1]"

text \<open>The logical function and the constant of the macros \<^verbatim>\<open>SHA1_ROUND_0\<close> to \<^verbatim>\<open>SHA1_ROUND_4\<close>.\<close>

definition sha1_f :: "nat \<Rightarrow> u32 \<Rightarrow> u32 \<Rightarrow> u32 \<Rightarrow> u32" where
  "sha1_f i u x y =
     (if i < 20 then (u AND (x XOR y)) XOR y
      else if i < 40 then u XOR x XOR y
      else if i < 60 then ((u OR x) AND y) OR (u AND x)
      else u XOR x XOR y)"

definition sha1_c :: "nat \<Rightarrow> u32" where
  "sha1_c i =
     (if i < 20 then 0x5A827999 else if i < 40 then 0x6ED9EBA1
      else if i < 60 then 0x8F1BBCDC else 0xCA62C1D6)"

text \<open>
  Round \<open>i\<close> is called with the registers \<^verbatim>\<open>a\<close> to \<^verbatim>\<open>e\<close> (positions 0 to 4) rotated \<open>i\<close>
  times: its \<open>k\<close>-th argument is the register at this position.
\<close>

definition reg :: "nat \<Rightarrow> nat \<Rightarrow> nat" where
  "reg k i = (k + 4 * i) mod 5"

definition sha1_round :: "u32 list \<times> u32 list \<Rightarrow> nat \<Rightarrow> u32 list \<times> u32 list" where
  "sha1_round rw i =
     (let (r, w) = rw;
          w = (if i < 16 then w else sha1_load i w);
          z = r ! reg 4 i + (sha1_f i (r ! reg 1 i) (r ! reg 2 i) (r ! reg 3 i) + w ! (i mod 16) +
                sha1_c i + rol32 (r ! reg 0 i) 5);
          r = r[reg 4 i := z];
          r = r[reg 1 i := rol32 (r ! reg 1 i) 30]
      in (r, w))"

definition process_block :: "sha1_impl \<Rightarrow> u8 list \<Rightarrow> sha1_impl" where
  "process_block s ptr =
     (let w = map (\<lambda>i. make_word ptr (4 * i)) [0..<16];
          (r, _) = foldl sha1_round (m_state s, w) [0..<80]
      in s\<lparr>m_state := map2 (+) (m_state s) r\<rparr>)"

section \<open>Appending and finishing\<close>

definition add_byte :: "sha1_impl \<Rightarrow> u8 \<Rightarrow> sha1_impl" where
  "add_byte s x =
     (let s = s\<lparr>m_buf := (m_buf s)[m_i s := x], m_i := m_i s + 1\<rparr> in
      if 64 \<le> m_i s then process_block (s\<lparr>m_i := 0\<rparr>) (m_buf s) else s)"

definition append_byte :: "sha1_impl \<Rightarrow> u8 \<Rightarrow> sha1_impl" where
  "append_byte s x = (let s = add_byte s x in s\<lparr>m_n_bits := m_n_bits s + 8\<rparr>)"

text \<open>The three loops of \<^verbatim>\<open>append(data, size)\<close>: up to a block boundary, whole blocks, the rest.\<close>

fun append_head :: "sha1_impl \<Rightarrow> u8 list \<Rightarrow> sha1_impl \<times> u8 list" where
  "append_head s [] = (s, [])"
| "append_head s (x # xs) = (if m_i s mod 64 \<noteq> 0 then append_head (append_byte s x) xs else (s, x # xs))"

function append_blocks :: "sha1_impl \<Rightarrow> u8 list \<Rightarrow> sha1_impl \<times> u8 list" where
  "append_blocks s ptr =
     (if 64 \<le> length ptr then
        let s = process_block s (take 64 ptr)
        in append_blocks (s\<lparr>m_n_bits := m_n_bits s + push_bit 3 64\<rparr>) (drop 64 ptr)
      else (s, ptr))"
  by pat_completeness auto
termination
  by (relation "measure (\<lambda>(s, ptr). length ptr)") auto

declare append_blocks.simps [simp del]

definition append_data :: "sha1_impl \<Rightarrow> u8 list \<Rightarrow> sha1_impl" where
  "append_data s ptr =
     (let (s, ptr) = append_head s ptr;
          (s, ptr) = append_blocks s ptr
      in foldl append_byte s ptr)"

lemma process_block_simps [simp]:
  "m_i (process_block s p) = m_i s" "m_buf (process_block s p) = m_buf s"
  "m_n_bits (process_block s p) = m_n_bits s"
  by (simp_all add: process_block_def Let_def split_beta)

lemma m_i_add_byte: "m_i (add_byte s x) = (if 64 \<le> m_i s + 1 then 0 else m_i s + 1)"
  by (simp add: add_byte_def Let_def)

function pad_zeros :: "sha1_impl \<Rightarrow> sha1_impl" where
  "pad_zeros s = (if m_i s mod 64 \<noteq> 56 then pad_zeros (add_byte s 0) else s)"
  by pat_completeness auto
termination
proof (relation "measure (\<lambda>s. if 64 \<le> m_i s then 200 else if m_i s \<le> 56 then 56 - m_i s else 120 - m_i s)",
    goal_cases)
  case (2 s)
  then show ?case by (cases "m_i s = 56") (auto simp: m_i_add_byte)
qed simp

declare pad_zeros.simps [simp del]

definition finalize :: "sha1_impl \<Rightarrow> sha1_impl" where
  "finalize s =
     (let s = pad_zeros (add_byte s 0x80)
      in foldl (\<lambda>s j. add_byte s (ucast (drop_bit (8 * j) (m_n_bits s)))) s (rev [0..<8]))"

section \<open>Printing the digest\<close>

definition hex_upper :: string where "hex_upper = ''0123456789ABCDEF''"
definition hex_lower :: string where "hex_lower = ''0123456789abcdef''"

definition hex :: "sha1_impl \<Rightarrow> bool \<Rightarrow> string" where
  "hex s upper_case =
     (let alphabet = (if upper_case then hex_upper else hex_lower)
      in concat (map (\<lambda>i. map (\<lambda>j. alphabet ! unat (drop_bit (4 * j) (m_state s ! i) AND 0x0F)) (rev [0..<8]))
           [0..<5]))"

definition base64_table :: string where
  "base64_table = ''ABCDEFGHIJKLMNOPQRSTUVWXYZabcdefghijklmnopqrstuvwxyz0123456789+/''"

definition sha1_triples :: "u32 list \<Rightarrow> u32 list" where
  "sha1_triples st =
     [drop_bit 8 (st ! 0 AND 0xFFFFFF00),
      push_bit 16 (st ! 0 AND 0x000000FF) OR drop_bit 16 (st ! 1 AND 0xFFFF0000),
      push_bit 8 (st ! 1 AND 0x0000FFFF) OR drop_bit 24 (st ! 2 AND 0xFF000000),
      st ! 2 AND 0x00FFFFFF,
      drop_bit 8 (st ! 3 AND 0xFFFFFF00),
      push_bit 16 (st ! 3 AND 0x000000FF) OR drop_bit 16 (st ! 4 AND 0xFFFF0000),
      push_bit 8 (st ! 4 AND 0x0000FFFF)]"

definition base64_group :: "u32 \<Rightarrow> string" where
  "base64_group x = map (\<lambda>k. base64_table ! unat (drop_bit (k * 6) x mod 64)) [3, 2, 1, 0]"

definition base64 :: "sha1_impl \<Rightarrow> string" where
  "base64 s = (concat (map base64_group (sha1_triples (m_state s))))[27 := CHR ''='']"

section \<open>Copying\<close>

text \<open>\<^verbatim>\<open>memcpy(dst, src, 5)\<close> on the state words: the first word and the low byte of the second.\<close>

definition memcpy5 :: "u32 list \<Rightarrow> u32 list \<Rightarrow> u32 list" where
  "memcpy5 dst src = dst[0 := src ! 0, 1 := (dst ! 1 AND 0xFFFFFF00) OR (src ! 1 AND 0xFF)]"

definition copy_assign :: "sha1_impl \<Rightarrow> sha1_impl \<Rightarrow> sha1_impl" where
  "copy_assign s other =
     s\<lparr>m_state := memcpy5 (m_state s) (m_state other), m_buf := m_buf other,
       m_i := m_i other, m_n_bits := m_n_bits other\<rparr>"

definition copy_construct :: "sha1_impl \<Rightarrow> sha1_impl" where
  "copy_construct other = copy_assign sha1_init other"

section \<open>The compression function of FIPS 180\<close>

function fips_w :: "u32 list \<Rightarrow> nat \<Rightarrow> u32" where
  "fips_w block t =
     (if t < 16 then block ! t
      else rol32 (fips_w block (t - 3) XOR fips_w block (t - 8) XOR
                  fips_w block (t - 14) XOR fips_w block (t - 16)) 1)"
  by pat_completeness auto
termination
  by (relation "measure (\<lambda>(block, t). t)") auto

declare fips_w.simps [simp del]

definition fips_f :: "nat \<Rightarrow> u32 \<Rightarrow> u32 \<Rightarrow> u32 \<Rightarrow> u32" where
  "fips_f t x y z =
     (if t < 20 then (x AND y) XOR (NOT x AND z)
      else if 40 \<le> t \<and> t < 60 then (x AND y) XOR (x AND z) XOR (y AND z)
      else x XOR y XOR z)"

type_synonym regs = "u32 \<times> u32 \<times> u32 \<times> u32 \<times> u32"

definition fips_step :: "u32 list \<Rightarrow> regs \<Rightarrow> nat \<Rightarrow> regs" where
  "fips_step block s t =
     (let (a, b, c, d, e) = s
      in (rol32 a 5 + fips_f t b c d + e + sha1_c t + fips_w block t, a, rol32 b 30, c, d))"

definition block_words :: "u8 list \<Rightarrow> u32 list" where
  "block_words p = map (\<lambda>i. make_word p (4 * i)) [0..<16]"

definition fips_compress :: "u32 list \<Rightarrow> u8 list \<Rightarrow> u32 list" where
  "fips_compress h p =
     (let (a, b, c, d, e) = foldl (fips_step (block_words p)) (h ! 0, h ! 1, h ! 2, h ! 3, h ! 4) [0..<80]
      in [h ! 0 + a, h ! 1 + b, h ! 2 + c, h ! 3 + d, h ! 4 + e])"

function absorb :: "u32 list \<Rightarrow> u8 list \<Rightarrow> u32 list" where
  "absorb h m = (if length m < 64 then h else absorb (fips_compress h (take 64 m)) (drop 64 m))"
  by pat_completeness auto
termination
  by (relation "measure (\<lambda>(h, m). length m)") auto

declare absorb.simps [simp del]

text \<open>The padding: a one bit, zeros up to 56 bytes modulo 64, and the length in bits.\<close>

definition fips_pad :: "u8 list \<Rightarrow> u8 list" where
  "fips_pad m =
     m @ [0x80] @ replicate ((119 - length m mod 64) mod 64) 0 @
     map (\<lambda>j. of_nat (8 * length m div 2 ^ (8 * j))) (rev [0..<8])"

definition fips_sha1 :: "u8 list \<Rightarrow> u32 list" where
  "fips_sha1 m = absorb sha1_h0 (fips_pad m)"

section \<open>The block function is the compression function\<close>

lemma sha1_f_fips: "sha1_f t x y z = fips_f t x y z"
  unfolding sha1_f_def fips_f_def
  by (auto intro!: bit_word_eqI simp: bit_simps)

definition roles :: "u32 list \<Rightarrow> nat \<Rightarrow> regs" where
  "roles r i = (r ! reg 0 i, r ! reg 1 i, r ! reg 2 i, r ! reg 3 i, r ! reg 4 i)"

lemma reg_less [simp]: "reg k i < 5"
  by (simp add: reg_def)

lemma reg_Suc_Suc: "reg (Suc k) (Suc i) = reg k i"
proof -
  have "Suc k + 4 * Suc i = (k + 4 * i) + 5" by simp
  then show ?thesis unfolding reg_def by (simp only: mod_add_self2)
qed

lemma reg_Suc: "reg 0 (Suc i) = reg 4 i" "reg 1 (Suc i) = reg 0 i" "reg 2 (Suc i) = reg 1 i"
  "reg 3 (Suc i) = reg 2 i" "reg 4 (Suc i) = reg 3 i"
  using reg_Suc_Suc [of 0 i] reg_Suc_Suc [of 1 i] reg_Suc_Suc [of 2 i] reg_Suc_Suc [of 3 i]
  by (simp_all add: eval_nat_numeral) (simp add: reg_def add.commute)

lemma add_mod_inj: "(k :: nat) \<le> l \<Longrightarrow> l < m \<Longrightarrow> (l + n) mod m = (k + n) mod m \<Longrightarrow> k = l"
proof -
  assume "k \<le> l" "l < m" "(l + n) mod m = (k + n) mod m"
  then have "m dvd l - k" using mod_eq_dvd_iff_nat [of "k + n" "l + n" m] by simp
  then show "k = l" using \<open>k \<le> l\<close> \<open>l < m\<close> dvd_imp_le [of m "l - k"] by linarith
qed

lemma reg_eq: "k < 5 \<Longrightarrow> l < 5 \<Longrightarrow> reg k i = reg l i \<longleftrightarrow> k = l"
  using add_mod_inj [of k l 5 "4 * i"] add_mod_inj [of l k 5 "4 * i"] unfolding reg_def by (metis nat_le_linear)

text \<open>The circular buffer holds the sixteen most recent schedule words.\<close>

definition schedule :: "u32 list \<Rightarrow> nat \<Rightarrow> u32 list \<Rightarrow> bool" where
  "schedule block i w \<longleftrightarrow>
     length w = 16 \<and> (\<forall>t. t < max i 16 \<longrightarrow> max i 16 \<le> t + 16 \<longrightarrow> w ! (t mod 16) = fips_w block t)"

lemma schedule_init: "length block = 16 \<Longrightarrow> schedule block 0 block"
  by (auto simp: schedule_def fips_w.simps [of block])

lemma add_16_mod: "((n :: nat) + 16) mod 16 = n mod 16"
  by simp

lemma mod_16_neq: "(t :: nat) < i \<Longrightarrow> i < t + 16 \<Longrightarrow> i mod 16 \<noteq> t mod 16"
proof
  assume t: "t < i" "i < t + 16" "i mod 16 = t mod 16"
  then have "16 dvd i - t" using mod_eq_dvd_iff_nat [of t i 16] by simp
  with t show False using dvd_imp_le [of 16 "i - t"] by simp
qed

lemma schedule_load:
  assumes "schedule block i w" "16 \<le> i"
  shows "schedule block (Suc i) (sha1_load i w) \<and> sha1_load i w ! (i mod 16) = fips_w block i"
proof -
  have get: "w ! (t mod 16) = fips_w block t" if "t < i" "i \<le> t + 16" for t
    using assms that by (simp add: schedule_def max_def split: if_splits)
  have idx: "(i + 13) mod 16 = (i - 3) mod 16" "(i + 8) mod 16 = (i - 8) mod 16"
    "(i + 2) mod 16 = (i - 14) mod 16" "i mod 16 = (i - 16) mod 16"
    using assms(2) add_16_mod [of "i - 3"] add_16_mod [of "i - 8"] add_16_mod [of "i - 14"]
      add_16_mod [of "i - 16"] by (simp_all add: add.commute)
  have len: "length w = 16" using assms(1) by (simp add: schedule_def)
  have new: "rol32 (w ! ((i + 13) mod 16) XOR w ! ((i + 8) mod 16) XOR
      w ! ((i + 2) mod 16) XOR w ! (i mod 16)) 1 = fips_w block i"
    using get [of "i - 3"] get [of "i - 8"] get [of "i - 14"] get [of "i - 16"] assms(2)
    unfolding idx by (simp add: fips_w.simps [of block i])
  have "sha1_load i w ! (t mod 16) = fips_w block t" if "t < Suc i" "Suc i \<le> t + 16" for t
  proof (cases "t = i")
    case True
    then show ?thesis using len new by (simp add: sha1_load_def)
  next
    case False
    then have "i mod 16 \<noteq> t mod 16" using that by (intro mod_16_neq) auto
    then show ?thesis using False that get [of t] by (simp add: sha1_load_def)
  qed
  then show ?thesis using assms(2) len new by (simp add: schedule_def sha1_load_def)
qed

lemma schedule_early:
  assumes "schedule block i w" "i < 16"
  shows "schedule block (Suc i) w \<and> w ! (i mod 16) = fips_w block i"
proof -
  have "max (Suc i) 16 = 16" "max i 16 = 16" using assms(2) by simp_all
  with assms show ?thesis by (auto simp: schedule_def)
qed

lemma sha1_round_step:
  assumes "length r = 5" "schedule block i w" "sha1_round (r, w) i = (r', w')"
  shows "length r' = 5 \<and> schedule block (Suc i) w' \<and> roles r' (Suc i) = fips_step block (roles r i) i"
proof -
  define v where "v = (if i < 16 then w else sha1_load i w)"
  have v: "schedule block (Suc i) v" "v ! (i mod 16) = fips_w block i"
    using schedule_load [OF assms(2)] schedule_early [OF assms(2)] by (auto simp: v_def)
  have "w' = v" using assms(3) by (simp add: sha1_round_def Let_def v_def)
  moreover have "length r' = 5" using assms(1,3) by (auto simp: sha1_round_def Let_def)
  moreover have "roles r' (Suc i) = fips_step block (roles r i) i"
    using assms(1,3) v(2)
    by (auto simp: sha1_round_def Let_def roles_def fips_step_def reg_Suc reg_eq nth_list_update
        sha1_f_fips v_def [symmetric] ac_simps simp del: One_nat_def)
  ultimately show ?thesis using v(1) by simp
qed

lemma sha1_rounds:
  assumes "length r = 5" "length block = 16"
  shows "\<exists>r' w'. foldl sha1_round (r, block) [0..<n] = (r', w') \<and> length r' = 5 \<and>
    schedule block n w' \<and> roles r' n = foldl (fips_step block) (roles r 0) [0..<n]"
proof (induction n)
  case 0
  then show ?case using assms by (simp add: schedule_init)
next
  case (Suc n)
  then obtain r' w' where *: "foldl sha1_round (r, block) [0..<n] = (r', w')" "length r' = 5"
      "schedule block n w'" "roles r' n = foldl (fips_step block) (roles r 0) [0..<n]" by blast
  obtain r'' w'' where "sha1_round (r', w') n = (r'', w'')" by fastforce
  with sha1_round_step [OF *(2,3) this] * show ?case by auto
qed

lemma list5: "length r = 5 \<Longrightarrow> r = [r ! 0, r ! 1, r ! 2, r ! 3, r ! 4]"
  by (auto simp: length_Suc_conv eval_nat_numeral)

lemma process_block_fips:
  assumes "length (m_state s) = 5"
  shows "m_state (process_block s p) = fips_compress (m_state s) p"
proof -
  let ?h = "m_state s"
  have "length (block_words p) = 16" by (simp add: block_words_def)
  from sha1_rounds [OF assms this, of 80] obtain r w where
    r: "foldl sha1_round (?h, block_words p) [0..<80] = (r, w)" "length r = 5"
      "roles r 80 = foldl (fips_step (block_words p)) (roles ?h 0) [0..<80]" by blast
  have roles: "roles r 80 = (r ! 0, r ! 1, r ! 2, r ! 3, r ! 4)"
    "roles ?h 0 = (?h ! 0, ?h ! 1, ?h ! 2, ?h ! 3, ?h ! 4)"
    by (simp_all add: roles_def reg_def)
  have e: "foldl (fips_step (block_words p)) (?h ! 0, ?h ! 1, ?h ! 2, ?h ! 3, ?h ! 4) [0..<80] =
      (r ! 0, r ! 1, r ! 2, r ! 3, r ! 4)" using r(3) by (simp only: roles)
  have "m_state (process_block s p) = map2 (+) ?h r"
    using r(1) by (simp add: process_block_def block_words_def)
  also have "\<dots> = map2 (+) [?h ! 0, ?h ! 1, ?h ! 2, ?h ! 3, ?h ! 4] [r ! 0, r ! 1, r ! 2, r ! 3, r ! 4]"
    using list5 [OF assms] list5 [OF r(2)] by metis
  also have "\<dots> = fips_compress ?h p"
    unfolding fips_compress_def e by simp
  finally show ?thesis .
qed

section \<open>What the object holds after a part of the message\<close>

definition absorbed :: "sha1_impl \<Rightarrow> u8 list \<Rightarrow> bool" where
  "absorbed s m \<longleftrightarrow>
     (\<exists>blocks rest. m = concat blocks @ rest \<and> list_all (\<lambda>b. length b = 64) blocks \<and>
        length rest = m_i s \<and> m_i s < 64 \<and> length (m_buf s) = 64 \<and> take (m_i s) (m_buf s) = rest \<and>
        m_state s = foldl fips_compress sha1_h0 blocks)"

definition counted :: "sha1_impl \<Rightarrow> u8 list \<Rightarrow> bool" where
  "counted s m \<longleftrightarrow> absorbed s m \<and> m_n_bits s = of_nat (8 * length m)"

lemma fips_compress_length [simp]: "length (fips_compress h p) = 5"
  by (simp add: fips_compress_def split_beta)

lemma foldl_compress_length: "length h = 5 \<Longrightarrow> length (foldl fips_compress h blocks) = 5"
  by (induction blocks arbitrary: h) auto

lemma absorbed_state_length: "absorbed s m \<Longrightarrow> length (m_state s) = 5"
  by (auto simp: absorbed_def sha1_h0_def intro!: foldl_compress_length)

lemma absorb_blocks:
  "list_all (\<lambda>b. length b = 64) blocks \<Longrightarrow> length rest < 64 \<Longrightarrow>
   absorb h (concat blocks @ rest) = foldl fips_compress h blocks"
  by (induction blocks arbitrary: h) (simp_all add: absorb.simps)

lemma absorbed_absorb: "absorbed s m \<Longrightarrow> m_state s = absorb sha1_h0 m"
  by (auto simp: absorbed_def absorb_blocks)

lemma absorbed_mod: "absorbed s m \<Longrightarrow> m_i s = length m mod 64"
proof -
  have "length (concat blocks) mod 64 = 0" if "list_all (\<lambda>b. length b = 64) blocks"
    for blocks :: "u8 list list" using that by (induction blocks) auto
  then show "absorbed s m \<Longrightarrow> m_i s = length m mod 64"
    by (auto simp: absorbed_def mod_add_left_eq [symmetric])
qed

lemma absorbed_init: "absorbed sha1_init []"
  by (auto simp: absorbed_def sha1_init_def intro!: exI [of _ "[]"])

lemma absorbed_add_byte:
  assumes "absorbed s m"
  shows "absorbed (add_byte s x) (m @ [x])"
proof -
  obtain blocks rest where b: "m = concat blocks @ rest" "list_all (\<lambda>b. length b = 64) blocks"
    "length rest = m_i s" "m_i s < 64" "length (m_buf s) = 64" "take (m_i s) (m_buf s) = rest"
    "m_state s = foldl fips_compress sha1_h0 blocks"
    using assms unfolding absorbed_def by blast
  have buf: "take (m_i s + 1) ((m_buf s)[m_i s := x]) = rest @ [x]"
    using b(4-6) by (simp add: take_Suc_conv_app_nth)
  show ?thesis
  proof (cases "m_i s = 63")
    case False
    then show ?thesis
      using b buf by (auto simp: absorbed_def add_byte_def Let_def intro!: exI [of _ blocks])
  next
    case True
    then have full: "(m_buf s)[63 := x] = rest @ [x]" using buf b(5) by simp
    have "m_state (add_byte s x) = foldl fips_compress sha1_h0 (blocks @ [rest @ [x]])"
      using True full b(7) by (simp add: add_byte_def Let_def process_block_fips foldl_compress_length sha1_h0_def)
    then show ?thesis
      using b True by (auto simp: absorbed_def m_i_add_byte intro!: exI [of _ "blocks @ [rest @ [x]]"])
        (simp add: add_byte_def Let_def)
  qed
qed

lemma n_bits_add_byte [simp]: "m_n_bits (add_byte s x) = m_n_bits s"
  by (simp add: add_byte_def Let_def)

lemma absorbed_n_bits: "absorbed (s\<lparr>m_n_bits := n\<rparr>) m = absorbed s m"
  by (simp add: absorbed_def)

lemma counted_append_byte: "counted s m \<Longrightarrow> counted (append_byte s x) (m @ [x])"
  by (simp add: counted_def append_byte_def absorbed_n_bits absorbed_add_byte)

lemma counted_foldl: "counted s m \<Longrightarrow> counted (foldl append_byte s xs) (m @ xs)"
proof (induction xs arbitrary: s m)
  case (Cons x xs)
  from Cons.IH [OF counted_append_byte [OF Cons.prems]] show ?case by simp
qed simp

lemma counted_append_head:
  "counted s m \<Longrightarrow> append_head s xs = (s', ys) \<Longrightarrow>
   \<exists>zs. xs = zs @ ys \<and> counted s' (m @ zs) \<and> (ys \<noteq> [] \<longrightarrow> m_i s' = 0)"
proof (induction s xs arbitrary: m rule: append_head.induct)
  case (1 s)
  then show ?case by auto
next
  case (2 s x xs)
  have less: "m_i s < 64" using 2(2) by (auto simp: counted_def absorbed_def)
  show ?case
  proof (cases "m_i s mod 64 \<noteq> 0")
    case True
    with 2(1) [OF True counted_append_byte [OF 2(2)]] 2(3)
    obtain zs where "xs = zs @ ys" "counted s' ((m @ [x]) @ zs)" "ys \<noteq> [] \<longrightarrow> m_i s' = 0" by auto
    then show ?thesis by (intro exI [of _ "x # zs"]) simp
  next
    case False
    with 2(2,3) less show ?thesis by (intro exI [of _ "[]"]) auto
  qed
qed

lemma counted_block:
  assumes "counted s m" "m_i s = 0" "length p = 64"
  shows "counted ((process_block s p)\<lparr>m_n_bits := m_n_bits s + push_bit 3 64\<rparr>) (m @ p)"
proof -
  obtain blocks where b: "m = concat blocks" "list_all (\<lambda>b. length b = 64) blocks"
    "length (m_buf s) = 64" "m_state s = foldl fips_compress sha1_h0 blocks"
    using assms(1,2) by (auto simp: counted_def absorbed_def)
  have "m_state (process_block s p) = foldl fips_compress sha1_h0 (blocks @ [p])"
    using process_block_fips [of s p] absorbed_state_length [of s m] assms(1) b(4)
    by (simp add: counted_def)
  then have "absorbed (process_block s p) (m @ p)"
    using b assms(2,3) by (auto simp: absorbed_def intro!: exI [of _ "blocks @ [p]"])
  then show ?thesis
    using assms(1,3) by (simp add: counted_def absorbed_n_bits)
qed

lemma counted_append_blocks:
  "counted s m \<Longrightarrow> m_i s = 0 \<Longrightarrow> append_blocks s xs = (s', ys) \<Longrightarrow>
   \<exists>zs. xs = zs @ ys \<and> counted s' (m @ zs)"
proof (induction s xs arbitrary: m rule: append_blocks.induct)
  case (1 s xs)
  show ?case
  proof (cases "64 \<le> length xs")
    case False
    with 1(2,4) show ?thesis by (intro exI [of _ "[]"]) (simp add: append_blocks.simps [of s xs])
  next
    case True
    let ?s = "(process_block s (take 64 xs))\<lparr>m_n_bits := m_n_bits s + push_bit 3 64\<rparr>"
    have "counted ?s (m @ take 64 xs)" using counted_block [OF 1(2,3)] True by simp
    from 1(1) [OF True refl, of "m @ take 64 xs"] this 1(3,4) True
    obtain zs where "drop 64 xs = zs @ ys" "counted s' ((m @ take 64 xs) @ zs)"
      by (auto simp: append_blocks.simps [of s xs] Let_def)
    then show ?thesis
      by (intro exI [of _ "take 64 xs @ zs"]) (metis append.assoc append_take_drop_id)
  qed
qed

lemma counted_append_data:
  assumes "counted s m"
  shows "counted (append_data s xs) (m @ xs)"
proof -
  obtain s1 ys where h: "append_head s xs = (s1, ys)" by fastforce
  from counted_append_head [OF assms h] obtain zs where
    z: "xs = zs @ ys" "counted s1 (m @ zs)" "ys \<noteq> [] \<longrightarrow> m_i s1 = 0" by blast
  obtain s2 us where a: "append_blocks s1 ys = (s2, us)" by fastforce
  have "\<exists>vs. ys = vs @ us \<and> counted s2 ((m @ zs) @ vs)"
  proof (cases "ys = []")
    case True
    then show ?thesis using a z(2) by (simp add: append_blocks.simps [of s1 "[]"])
  next
    case False
    then show ?thesis using counted_append_blocks [OF z(2) _ a] z(3) by simp
  qed
  then obtain vs where "ys = vs @ us" "counted s2 ((m @ zs) @ vs)" by blast
  with counted_foldl [OF this(2), of us] show ?thesis
    unfolding append_data_def h Let_def prod.case a by (simp add: z(1))
qed

lemma counted_append_all: "counted s m \<Longrightarrow> counted (foldl append_data s chunks) (m @ concat chunks)"
proof (induction chunks arbitrary: s m)
  case (Cons x xs)
  from Cons.IH [OF counted_append_data [OF Cons.prems]] show ?case by simp
qed simp

lemma pad_length:
  "k \<le> 56 \<Longrightarrow> (120 - k) mod 64 = 56 - (k :: nat)" "56 < k \<Longrightarrow> (120 - k) mod 64 = 120 - (k :: nat)"
proof -
  assume "k \<le> 56"
  then have "120 - k = (56 - k) + 64" by simp
  then have "(120 - k) mod 64 = (56 - k) mod 64" by (simp only: mod_add_self2)
  then show "(120 - k) mod 64 = 56 - k" by simp
qed simp

lemma pad_length_Suc:
  assumes "k = n mod 64" "k \<noteq> 56"
  shows "(120 - k) mod 64 = Suc ((120 - Suc n mod 64) mod 64)"
proof -
  have "k < 64" using assms(1) by simp
  then consider "k < 56" | "56 < k" "k < 63" | "k = 63" using assms(2) by linarith
  then show ?thesis
    using pad_length [of k] pad_length [of "Suc k"]
    by cases (simp_all add: mod_Suc assms(1) [symmetric] Suc_diff_Suc)
qed

lemma absorbed_pad_zeros:
  "absorbed s m \<Longrightarrow> absorbed (pad_zeros s) (m @ replicate ((120 - length m mod 64) mod 64) 0) \<and>
     m_n_bits (pad_zeros s) = m_n_bits s"
proof (induction s arbitrary: m rule: pad_zeros.induct)
  case (1 s)
  have mi: "m_i s = length m mod 64" by (rule absorbed_mod [OF 1(2)])
  show ?case
  proof (cases "m_i s mod 64 \<noteq> 56")
    case False
    then show ?thesis using 1(2) mi by (simp add: pad_zeros.simps [of s])
  next
    case True
    have "(120 - length m mod 64) mod 64 = Suc ((120 - length (m @ [0 :: u8]) mod 64) mod 64)"
      using pad_length_Suc [of "length m mod 64" "length m"] True mi by simp
    with 1(1) [OF True absorbed_add_byte [OF 1(2)]] True show ?thesis
      by (simp add: pad_zeros.simps [of s])
  qed
qed

lemma ucast_drop_bit: "(ucast (drop_bit n (of_nat k :: u64)) :: u8) = of_nat (take_bit 64 k div 2 ^ n)"
  by (rule bit_word_eqI) (auto simp: drop_bit_eq_div [symmetric] bit_simps)

lemma finalize_state:
  assumes "counted s m" "8 * length m < 2 ^ 64"
  shows "m_state (finalize s) = fips_sha1 m"
proof -
  let ?s = "pad_zeros (add_byte s 0x80)" and ?m = "m @ [0x80]"
  have "absorbed (add_byte s 0x80) ?m"
    using assms(1) by (simp add: counted_def absorbed_add_byte)
  from absorbed_pad_zeros [OF this]
  have p: "absorbed ?s (?m @ replicate ((120 - length ?m mod 64) mod 64) 0)" "m_n_bits ?s = of_nat (8 * length m)"
    using assms(1) by (simp_all add: counted_def)
  have loop: "absorbed (foldl (\<lambda>s j. add_byte s (ucast (drop_bit (8 * j) (m_n_bits s)))) t js)
      (n @ map (\<lambda>j. ucast (drop_bit (8 * j) b)) js)"
    if "absorbed t n" "m_n_bits t = b" for t n b js
    using that
  proof (induction js arbitrary: t n)
    case (Cons j js)
    from Cons.IH [OF absorbed_add_byte [OF Cons.prems(1)]] Cons.prems(2) show ?case by simp
  qed simp
  have zeros: "(120 - length ?m mod 64) mod 64 = (119 - length m mod 64) mod 64"
  proof (cases "length m mod 64 = 63")
    case True
    then show ?thesis using mod_Suc [of "length m" 64] by simp
  next
    case False
    then show ?thesis using mod_Suc [of "length m" 64] by simp
  qed
  have bytes: "map (\<lambda>j. ucast (drop_bit (8 * j) (of_nat (8 * length m) :: u64)) :: u8) (rev [0..<8]) =
      map (\<lambda>j. of_nat (8 * length m div 2 ^ (8 * j))) (rev [0..<8])"
    using assms(2) by (simp only: ucast_drop_bit take_bit_nat_eq_self)
  have "absorbed (finalize s) (fips_pad m)"
    using loop [OF p, of "rev [0..<8]"]
    unfolding finalize_def Let_def fips_pad_def zeros bytes by (simp only: append_assoc)
  then show ?thesis by (simp add: fips_sha1_def absorbed_absorb)
qed

section \<open>Base64\<close>

text \<open>The encoding of RFC 4648 for a list of bytes.\<close>

definition b64 :: "u8 \<Rightarrow> char" where
  "b64 x = base64_table ! unat x"

fun base64_bytes :: "u8 list \<Rightarrow> string" where
  "base64_bytes [] = []"
| "base64_bytes [a] = [b64 (drop_bit 2 a), b64 (push_bit 4 (a AND 3)), CHR ''='', CHR ''='']"
| "base64_bytes [a, b] =
     [b64 (drop_bit 2 a), b64 (push_bit 4 (a AND 3) OR drop_bit 4 b),
      b64 (push_bit 2 (b AND 15)), CHR ''='']"
| "base64_bytes (a # b # c # bs) =
     b64 (drop_bit 2 a) # b64 (push_bit 4 (a AND 3) OR drop_bit 4 b) #
     b64 (push_bit 2 (b AND 15) OR drop_bit 6 c) # b64 (c AND 63) # base64_bytes bs"

definition word_bytes :: "u32 \<Rightarrow> u8 list" where
  "word_bytes w = [ucast (drop_bit 24 w), ucast (drop_bit 16 w), ucast (drop_bit 8 w), ucast w]"

definition digest_bytes :: "u32 list \<Rightarrow> u8 list" where
  "digest_bytes st = concat (map word_bytes st)"

definition triple :: "u8 \<Rightarrow> u8 \<Rightarrow> u8 \<Rightarrow> u32" where
  "triple a b c = push_bit 16 (ucast a) OR push_bit 8 (ucast b) OR ucast c"

lemma masks:
  "(3 :: u8) = mask 2" "(15 :: u8) = mask 4" "(63 :: u8) = mask 6" "(64 :: u32) = 2 ^ 6"
  "(0xFF :: u32) = mask 8" "(0xFFFF :: u32) = mask 16" "(0xFFFFFF :: u32) = mask 24"
  "(0xFFFFFF00 :: u32) = push_bit 8 (mask 24)" "(0xFFFF0000 :: u32) = push_bit 16 (mask 16)"
  "(0xFF000000 :: u32) = push_bit 24 (mask 8)"
  by (simp_all add: mask_eq_exp_minus_1 push_bit_eq_mult)

lemma u32_eqI: "list_all (\<lambda>n. bit x n = bit y n) [0..<32] \<Longrightarrow> x = (y :: u32)"
  by (rule bit_word_eqI) (simp add: list_all_iff)

lemma bit_u8: "8 \<le> n \<Longrightarrow> \<not> bit (x :: u8) n"
  using bit_imp_le_length [of x n] by auto

lemma triple_sextets:
  "drop_bit 18 (triple a b c) mod 64 = ucast (drop_bit 2 a)"
  "drop_bit 12 (triple a b c) mod 64 = ucast (push_bit 4 (a AND 3) OR drop_bit 4 b)"
  "drop_bit 6 (triple a b c) mod 64 = ucast (push_bit 2 (b AND 15) OR drop_bit 6 c)"
  "triple a b c mod 64 = ucast (c AND 63)"
  unfolding triple_def masks take_bit_eq_mod [symmetric]
  by (rule u32_eqI; simp add: upt_rec bit_simps bit_u8; (simp add: numeral_eq_Suc)?)+

lemma unat_ucast_u8: "unat (ucast (x :: u8) :: u32) = unat x"
proof -
  have "unat x < 2 ^ 8" using unsigned_less [of x] by simp
  then have "unat x < 2 ^ 32" by simp
  then show ?thesis unfolding unsigned_ucast_eq by (simp add: take_bit_nat_eq_self)
qed

lemma base64_group_triple:
  "base64_group (triple a b c) =
     [b64 (drop_bit 2 a), b64 (push_bit 4 (a AND 3) OR drop_bit 4 b),
      b64 (push_bit 2 (b AND 15) OR drop_bit 6 c), b64 (c AND 63)]"
  by (simp add: base64_group_def b64_def triple_sextets unat_ucast_u8 del: word_mod_def)

lemma triples_of_words:
  "drop_bit 8 (w AND 0xFFFFFF00) =
     triple (ucast (drop_bit 24 w)) (ucast (drop_bit 16 w)) (ucast (drop_bit 8 w))"
  "push_bit 16 (w AND 0x000000FF) OR drop_bit 16 (v AND 0xFFFF0000) =
     triple (ucast w) (ucast (drop_bit 24 v)) (ucast (drop_bit 16 v))"
  "push_bit 8 (w AND 0x0000FFFF) OR drop_bit 24 (v AND 0xFF000000) =
     triple (ucast (drop_bit 8 w)) (ucast w) (ucast (drop_bit 24 v))"
  "v AND 0x00FFFFFF = triple (ucast (drop_bit 16 v)) (ucast (drop_bit 8 v)) (ucast v)"
  "push_bit 8 (w AND 0x0000FFFF) = triple (ucast (drop_bit 8 w)) (ucast w) 0"
  unfolding triple_def masks
  by (rule u32_eqI; simp add: upt_rec bit_simps bit_u8; (simp add: numeral_eq_Suc)?)+

lemma base64_digest:
  assumes "length (m_state s) = 5"
  shows "base64 s = base64_bytes (digest_bytes (m_state s))"
proof -
  obtain a b c d e where st: "m_state s = [a, b, c, d, e]"
    using list5 [OF assms] by metis
  have last: "(base64_group (triple x y 0))[3 := CHR ''=''] = base64_bytes [x, y]" for x y
    by (simp add: base64_group_triple)
  have len: "length (base64_group x) = 4" for x by (simp add: base64_group_def)
  have nth: "[a, b, c, d, e] ! 0 = a" "[a, b, c, d, e] ! 1 = b" "[a, b, c, d, e] ! 2 = c"
    "[a, b, c, d, e] ! 3 = d" "[a, b, c, d, e] ! 4 = e" by simp_all
  have "base64 s = concat (map base64_group (butlast (sha1_triples [a, b, c, d, e]))) @
      (base64_group (triple (ucast (drop_bit 8 e)) (ucast e) 0))[3 := CHR ''='']"
    unfolding base64_def st sha1_triples_def nth triples_of_words(1-4) unfolding triples_of_words(5)
    by (simp add: list_update_append len)
  also have "\<dots> = base64_bytes (digest_bytes [a, b, c, d, e])"
    unfolding last sha1_triples_def nth triples_of_words(1-4) unfolding triples_of_words(5)
    by (simp add: base64_group_triple digest_bytes_def word_bytes_def)
  finally show ?thesis by (simp add: st)
qed

section \<open>Hexadecimal digits\<close>

definition hex_byte :: "string \<Rightarrow> u8 \<Rightarrow> string" where
  "hex_byte alphabet b = [alphabet ! unat (drop_bit 4 b), alphabet ! unat (b AND 15)]"

lemma word_nibbles:
  "drop_bit 28 w AND 15 = (ucast (drop_bit 4 (ucast (drop_bit 24 w) :: u8)) :: u32)"
  "drop_bit 24 w AND 15 = (ucast ((ucast (drop_bit 24 w) :: u8) AND 15) :: u32)"
  "drop_bit 20 w AND 15 = (ucast (drop_bit 4 (ucast (drop_bit 16 w) :: u8)) :: u32)"
  "drop_bit 16 w AND 15 = (ucast ((ucast (drop_bit 16 w) :: u8) AND 15) :: u32)"
  "drop_bit 12 w AND 15 = (ucast (drop_bit 4 (ucast (drop_bit 8 w) :: u8)) :: u32)"
  "drop_bit 8 w AND 15 = (ucast ((ucast (drop_bit 8 w) :: u8) AND 15) :: u32)"
  "drop_bit 4 w AND 15 = (ucast (drop_bit 4 (ucast w :: u8)) :: u32)"
  "w AND 15 = (ucast ((ucast w :: u8) AND 15) :: u32)"
proof -
  have m: "(15 :: u32) = mask 4" "(15 :: u8) = mask 4" by (simp_all add: mask_eq_exp_minus_1)
  show "drop_bit 28 w AND 15 = (ucast (drop_bit 4 (ucast (drop_bit 24 w) :: u8)) :: u32)"
  "drop_bit 24 w AND 15 = (ucast ((ucast (drop_bit 24 w) :: u8) AND 15) :: u32)"
  "drop_bit 20 w AND 15 = (ucast (drop_bit 4 (ucast (drop_bit 16 w) :: u8)) :: u32)"
  "drop_bit 16 w AND 15 = (ucast ((ucast (drop_bit 16 w) :: u8) AND 15) :: u32)"
  "drop_bit 12 w AND 15 = (ucast (drop_bit 4 (ucast (drop_bit 8 w) :: u8)) :: u32)"
  "drop_bit 8 w AND 15 = (ucast ((ucast (drop_bit 8 w) :: u8) AND 15) :: u32)"
  "drop_bit 4 w AND 15 = (ucast (drop_bit 4 (ucast w :: u8)) :: u32)"
  "w AND 15 = (ucast ((ucast w :: u8) AND 15) :: u32)"
    unfolding m
    by (rule u32_eqI; simp add: upt_rec bit_simps bit_u8; (simp add: numeral_eq_Suc)?)+
qed

lemma hex_digest:
  assumes "length (m_state s) = 5"
  shows "hex s upper_case =
    concat (map (hex_byte (if upper_case then hex_upper else hex_lower)) (digest_bytes (m_state s)))"
proof -
  obtain a b c d e where st: "m_state s = [a, b, c, d, e]"
    using list5 [OF assms] by metis
  have word: "map (\<lambda>j. al ! unat (drop_bit (4 * j) w AND 15)) (rev [0..<8]) =
      concat (map (hex_byte al) (word_bytes w))" for al w
    by (simp add: upt_rec word_bytes_def hex_byte_def word_nibbles(1-7) word_nibbles(8) [of w] unat_ucast_u8)
  show ?thesis
    unfolding hex_def Let_def st word digest_bytes_def by (simp add: upt_rec)
qed

section \<open>Properties\<close>

text \<open>C34.
  Whatever the pieces a message is appended in, finishing leaves the SHA-1 digest of the
  whole message, as FIPS 180 defines it, in the state words.
\<close>

theorem sha1_is_fips:
  assumes "8 * length (concat chunks) < 2 ^ 64"
  shows "m_state (finalize (foldl append_data sha1_init chunks)) = fips_sha1 (concat chunks)"
proof -
  have "counted sha1_init []" by (simp add: counted_def absorbed_init) (simp add: sha1_init_def)
  from counted_append_all [OF this, of chunks] assms show ?thesis by (simp add: finalize_state)
qed

theorem sha1_is_fips_witness:
  "m_state (finalize (foldl append_data sha1_init [[0x61], [0x62, 0x63]])) = fips_sha1 [0x61, 0x62, 0x63]"
  using sha1_is_fips [of "[[0x61], [0x62, 0x63]]"] by simp

text \<open>
  The seven words of three bytes that \<^verbatim>\<open>base64\<close> cuts the state into yield the base64
  encoding of the twenty digest bytes.
\<close>

theorem sha1_base64:
  assumes "length (m_state s) = 5"
  shows "base64 s = base64_bytes (digest_bytes (m_state s)) \<and>
    hex s up = concat (map (hex_byte (if up then hex_upper else hex_lower)) (digest_bytes (m_state s)))"
  using assms by (simp add: base64_digest hex_digest)

theorem sha1_base64_witness:
  "base64 sha1_init = base64_bytes (digest_bytes sha1_h0)"
  using sha1_base64 [of sha1_init] by (simp add: sha1_init_def sha1_h0_def)

text \<open>
  Copying copies five bytes of the state, not five words: a copy keeps the initial values
  of the last three words, whatever was hashed.
\<close>

theorem sha1_copy_loses_state:
  "drop 2 (m_state (copy_construct other)) = drop 2 sha1_h0 \<and>
   m_buf (copy_construct other) = m_buf other \<and> m_n_bits (copy_construct other) = m_n_bits other"
  by (simp add: copy_construct_def copy_assign_def memcpy5_def sha1_init_def drop_update_swap)

end
