(* ===== verification/Http_Types.thy ===== *)
theory Http_Types
  imports Prelude
begin

text \<open>
  Status codes, methods, redirections and versions (\<^verbatim>\<open>libgs/http/types.h\<close> and
  \<^verbatim>\<open>version.h\<close>). The X-macro tables of the source are tables here; an invalid number or
  name throws.
\<close>

section \<open>Status codes\<close>

type_synonym status = nat

definition status_table :: "(status \<times> string) list" where
  "status_table =
     [(100, ''Continue''), (101, ''Switching Protocols''), (102, ''Processing''), (200, ''OK''),
      (201, ''Created''), (202, ''Accepted''), (203, ''Non-Authoritative Information''),
      (204, ''No Content''), (205, ''Reset Content''), (206, ''Partial Content''),
      (207, ''Multi-Status''), (208, ''Already Reported''), (226, ''IM Used''),
      (300, ''Multiple Choices''), (301, ''Moved Permanently''), (302, ''Found''), (303, ''See Other''),
      (304, ''Not Modified''), (305, ''Use Proxy''), (307, ''Temporary Redirect''),
      (308, ''Permanent Redirect''), (400, ''Bad Request''), (401, ''Unauthorized''),
      (402, ''Payment Required''), (403, ''Forbidden''), (404, ''Not Found''),
      (405, ''Method Not Allowed''), (406, ''Not Acceptable''),
      (407, ''Proxy Authentication Required''), (408, ''Request Timeout''), (409, ''Conflict''),
      (410, ''Gone''), (411, ''Length Required''), (412, ''Precondition Failed''),
      (413, ''Payload Too Large''), (414, ''URI Too Long''), (415, ''Unsupported Media Type''),
      (416, ''Range Not Satisfiable''), (417, ''Expectation Failed''), (421, ''Misdirected Request''),
      (422, ''Unprocessable Entity''), (423, ''Locked''), (424, ''Failed Dependency''),
      (426, ''Upgrade Required''), (428, ''Precondition Required''), (429, ''Too Many Requests''),
      (431, ''Request Header Fields Too Large''), (451, ''Unavailable For Legal Reasons''),
      (500, ''Internal Server Error''), (501, ''Not Implemented''), (502, ''Bad Gateway''),
      (503, ''Service Unavailable''), (504, ''Gateway Timeout''), (505, ''HTTP Version Not Supported''),
      (506, ''Variant Also Negotiates''), (507, ''Insufficient Storage''), (508, ''Loop Detected''),
      (510, ''Not Extended''), (511, ''Network Authentication Required'')]"

definition status_check :: "status \<Rightarrow> bool \<Rightarrow> bool res" where
  "status_check s throw =
     (if s \<in> fst ` set status_table then Inr True
      else if throw then Inl Runtime_error else Inr False)"

definition status_description :: "status \<Rightarrow> string res" where
  "status_description s =
     (case map_of status_table s of None \<Rightarrow> Inl Runtime_error | Some d \<Rightarrow> Inr d)"

section \<open>Methods\<close>

datatype http_method = GET | PUT | POST | HEAD | PATCH | DELETE | OPTIONS | TRACE | CONNECT

definition method_table :: "(http_method \<times> nat \<times> string) list" where
  "method_table =
     [(GET, 0x0001, ''GET''), (PUT, 0x0002, ''PUT''), (POST, 0x0004, ''POST''),
      (HEAD, 0x0008, ''HEAD''), (PATCH, 0x0010, ''PATCH''), (DELETE, 0x0020, ''DELETE''),
      (OPTIONS, 0x0040, ''OPTIONS''), (TRACE, 0x0080, ''TRACE''), (CONNECT, 0x0100, ''CONNECT'')]"

definition method_value :: "http_method \<Rightarrow> nat" where
  "method_value m = fst (the (map_of method_table m))"

definition all_methods :: nat where
  "all_methods = fold (OR) (map method_value [GET, PUT, POST, HEAD, PATCH, DELETE, OPTIONS, TRACE, CONNECT]) 0"

text \<open>The enumeration is open: any \<^verbatim>\<open>uint32_t\<close> can be cast to it, and is checked afterwards.\<close>

definition method_of :: "nat \<Rightarrow> http_method option" where
  "method_of v = map_option fst (find (\<lambda>(m, w, d). w = v) method_table)"

definition method_check :: "nat \<Rightarrow> bool \<Rightarrow> bool res" where
  "method_check v throw =
     (if method_of v \<noteq> None then Inr True else if throw then Inl Runtime_error else Inr False)"

definition method_string :: "nat \<Rightarrow> string res" where
  "method_string v =
     (case find (\<lambda>(m, w, d). w = v) method_table of
        None \<Rightarrow> Inl Runtime_error | Some (m, w, d) \<Rightarrow> Inr d)"

definition from_method_string :: "string \<Rightarrow> http_method res" where
  "from_method_string str =
     (case find (\<lambda>(m, w, d). d = str) method_table of
        None \<Rightarrow> Inl Runtime_error | Some (m, w, d) \<Rightarrow> Inr m)"

section \<open>Redirections\<close>

datatype redirect =
    Moved_Permanently
  | Permanent_Redirect
  | Found
  | See_Other
  | Temporary_Redirect
  | Multiple_Choices
  | Not_Modified

fun redirect_status :: "redirect \<Rightarrow> status" where
  "redirect_status Moved_Permanently = 301"
| "redirect_status Permanent_Redirect = 308"
| "redirect_status Found = 302"
| "redirect_status See_Other = 303"
| "redirect_status Temporary_Redirect = 307"
| "redirect_status Multiple_Choices = 300"
| "redirect_status Not_Modified = 304"

section \<open>Versions\<close>

type_synonym version = u16

definition v_nan :: version where "v_nan = 0x0000"
definition v10 :: version where "v10 = 0x0100"
definition v11 :: version where "v11 = 0x0101"

definition version_table :: "(version \<times> string) list" where
  "version_table = [(v_nan, ''NAN''), (v10, ''1.0''), (v11, ''1.1'')]"

definition version_check :: "version \<Rightarrow> bool \<Rightarrow> bool res" where
  "version_check v throw =
     (if v \<in> fst ` set version_table then Inr True
      else if throw then Inl Runtime_error else Inr False)"

definition version_check_string :: "string \<Rightarrow> bool \<Rightarrow> bool res" where
  "version_check_string vs throw =
     (if vs \<in> snd ` set version_table then Inr True
      else if throw then Inl Runtime_error else Inr False)"

definition version_string :: "version \<Rightarrow> string res" where
  "version_string v =
     (case map_of version_table v of None \<Rightarrow> Inl Runtime_error | Some s \<Rightarrow> Inr s)"

definition version_number :: "string \<Rightarrow> bool \<Rightarrow> version res" where
  "version_number vs throw =
     (case find (\<lambda>(v, s). s = vs) version_table of
        Some (v, s) \<Rightarrow> Inr v | None \<Rightarrow> if throw then Inl Runtime_error else Inr 0)"

lemma from_method_string_of: "method_of v = Some m \<Longrightarrow> \<exists>d. method_string v = Inr d \<and> from_method_string d = Inr m"
  by (auto simp: method_of_def method_string_def from_method_string_def method_table_def split: if_splits)

lemma version_number_string: "version_string v = Inr s \<Longrightarrow> version_number s throw = Inr v"
  by (auto simp: version_string_def version_number_def version_table_def split: if_splits)

section \<open>Properties\<close>

text \<open>
  Names identify what they name: a method is read back from its string, a version from its
  own, every redirection has a described status, and distinct methods have disjoint bits.
\<close>

theorem http_names_roundtrip:
  "(case method_of v of None \<Rightarrow> method_string v = Inl Runtime_error
    | Some m \<Rightarrow> \<exists>d. method_string v = Inr d \<and> from_method_string d = Inr m) \<and>
   (case version_string w of Inl e \<Rightarrow> version_check w True = Inl Runtime_error
    | Inr s \<Rightarrow> version_number s throw = Inr w) \<and>
   (\<exists>d. status_description (redirect_status r) = Inr d) \<and>
   (if m1 = m2 then method_value m1 \<noteq> 0 else method_value m1 AND method_value m2 = 0)"
proof (intro conjI)
  show "case method_of v of None \<Rightarrow> method_string v = Inl Runtime_error
    | Some m \<Rightarrow> \<exists>d. method_string v = Inr d \<and> from_method_string d = Inr m"
    using from_method_string_of [of v]
    by (auto simp: method_string_def method_of_def split: option.splits)
  show "case version_string w of Inl e \<Rightarrow> version_check w True = Inl Runtime_error
    | Inr s \<Rightarrow> version_number s throw = Inr w"
    using version_number_string [of w]
    by (auto simp: version_check_def version_string_def map_of_eq_None_iff split: option.splits sum.splits)
  show "\<exists>d. status_description (redirect_status r) = Inr d"
    by (cases r) (simp_all add: status_description_def status_table_def)
  show "if m1 = m2 then method_value m1 \<noteq> 0 else method_value m1 AND method_value m2 = 0"
    by (cases m1; cases m2) (simp_all add: method_value_def method_table_def)
qed

end
