(* ===== verification/Cxx_Strings.thy ===== *)
theory Cxx_Strings
  imports Prelude
begin

text \<open>
  String helpers: the character tests of \<^verbatim>\<open>libgs/core/cxx/detail/string_tools.h\<close> and the
  case, replace, trim and file name functions of \<^verbatim>\<open>libgs/core/algorithm/detail/base.h\<close>, in
  their \<^verbatim>\<open>char\<close> instances and in the C locale.
\<close>

section \<open>Character classes\<close>

text \<open>The \<^verbatim>\<open><cctype>\<close> functions, which answer no for every byte above 127.\<close>

definition isdigit :: "char \<Rightarrow> bool" where
  "isdigit c \<longleftrightarrow> 0x30 \<le> schar c \<and> schar c \<le> 0x39"

definition isupper :: "char \<Rightarrow> bool" where
  "isupper c \<longleftrightarrow> 0x41 \<le> schar c \<and> schar c \<le> 0x5A"

definition islower :: "char \<Rightarrow> bool" where
  "islower c \<longleftrightarrow> 0x61 \<le> schar c \<and> schar c \<le> 0x7A"

definition isalpha :: "char \<Rightarrow> bool" where
  "isalpha c \<longleftrightarrow> isupper c \<or> islower c"

definition isalnum :: "char \<Rightarrow> bool" where
  "isalnum c \<longleftrightarrow> isalpha c \<or> isdigit c"

definition tolower :: "char \<Rightarrow> char" where
  "tolower c = (if isupper c then to_char (schar c + 32) else c)"

definition toupper :: "char \<Rightarrow> char" where
  "toupper c = (if islower c then to_char (schar c - 32) else c)"

section \<open>Tests of whole strings\<close>

definition is_alpha :: "string \<Rightarrow> bool" where
  "is_alpha str = list_all isalpha str"

definition is_digit :: "string \<Rightarrow> bool" where
  "is_digit str = list_all isdigit str"

definition is_alnum :: "string \<Rightarrow> bool" where
  "is_alnum str = list_all isalnum str"

definition is_ascii :: "string \<Rightarrow> bool" where
  "is_ascii str = list_all (\<lambda>c. schar c \<le> 0x7F) str"

fun is_rlnum_rest :: "bool \<Rightarrow> string \<Rightarrow> bool" where
  "is_rlnum_rest dot [] = True"
| "is_rlnum_rest dot (c # cs) =
     (if \<not> isdigit c then (if c = CHR ''.'' \<and> \<not> dot then is_rlnum_rest True cs else False)
      else is_rlnum_rest dot cs)"

text \<open>
  After a sign the source reads the next character without testing for the end; the
  callers pass null-terminated strings, so the read yields the terminator.
\<close>

definition is_rlnum :: "string \<Rightarrow> bool" where
  "is_rlnum str =
     (case str of
        [] \<Rightarrow> False
      | c # cs \<Rightarrow>
          (case (if c = CHR ''-'' \<or> c = CHR ''+'' then cs else str) of
             [] \<Rightarrow> isdigit (CHR 0x00)
           | d # ds \<Rightarrow> if \<not> isdigit d then False else is_rlnum_rest False ds))"

section \<open>Case\<close>

definition str_to_lower :: "string \<Rightarrow> string" where
  "str_to_lower str = map tolower str"

definition str_to_upper :: "string \<Rightarrow> string" where
  "str_to_upper str = map toupper str"

lemma schar_to_char: "- 128 \<le> n \<Longrightarrow> n < 128 \<Longrightarrow> schar (to_char n) = n"
proof -
  assume n: "- 128 \<le> n" "n < 128"
  show "schar (to_char n) = n"
  proof (cases "n < 0")
    case True
    have "n mod 256 = (n + 256) mod 256" by simp
    also have "\<dots> = n + 256" using n True by (intro mod_pos_pos_trivial) auto
    finally show ?thesis using n True by (simp add: schar_def to_char_def)
  next
    case False
    then have "n mod 256 = n" using n by (intro mod_pos_pos_trivial) auto
    then show ?thesis using n False by (simp add: schar_def to_char_def nat_less_iff)
  qed
qed

lemma tolower_tolower [simp]: "tolower (tolower c) = tolower c"
  by (auto simp: tolower_def isupper_def schar_to_char)

lemma tolower_idem: "\<not> isupper c \<Longrightarrow> tolower c = c"
  by (simp add: tolower_def)

lemma str_to_lower_idem [simp]: "str_to_lower (str_to_lower s) = str_to_lower s"
  by (simp add: str_to_lower_def)

lemma str_to_lower_length [simp]: "length (str_to_lower s) = length s"
  by (simp add: str_to_lower_def)

lemma str_to_lower_append [simp]: "str_to_lower (s @ t) = str_to_lower s @ str_to_lower t"
  by (simp add: str_to_lower_def)

lemma str_to_lower_Nil [simp]: "str_to_lower s = [] \<longleftrightarrow> s = []" "str_to_lower [] = []"
  by (simp_all add: str_to_lower_def)

section \<open>Replacing\<close>

text \<open>\<^verbatim>\<open>str.find(p, pos)\<close>.\<close>

definition find_from :: "string \<Rightarrow> string \<Rightarrow> nat \<Rightarrow> nat option" where
  "find_from p s pos = (if length s < pos then None else map_option ((+) pos) (find_sub p (drop pos s)))"

partial_function (option) str_replace_loop ::
    "string \<Rightarrow> string \<Rightarrow> bool \<Rightarrow> string \<Rightarrow> nat \<Rightarrow> nat \<Rightarrow> (string \<times> nat) option" where
  "str_replace_loop fnd repl step str find_pos cnt =
     (case find_from fnd str find_pos of
        None \<Rightarrow> Some (str, cnt)
      | Some start \<Rightarrow>
          str_replace_loop fnd repl step (take start str @ repl @ drop (start + length fnd) str)
            (if step then start + length repl else start) (cnt + 1))"

definition str_replace :: "string \<Rightarrow> string \<Rightarrow> string \<Rightarrow> bool \<Rightarrow> (string \<times> nat) option" where
  "str_replace str fnd repl step =
     (if fnd = repl then Some (str, 0) else str_replace_loop fnd repl step str 0 0)"

text \<open>The replacement of all occurrences from left to right, and their number.\<close>

function replace_all :: "string \<Rightarrow> string \<Rightarrow> string \<Rightarrow> string" where
  "replace_all fnd repl s =
     (if fnd = [] then s
      else case find_sub fnd s of
             None \<Rightarrow> s
           | Some n \<Rightarrow> take n s @ repl @ replace_all fnd repl (drop (n + length fnd) s))"
  by pat_completeness auto
termination
proof (relation "measure (\<lambda>(f, r, s). length s)", goal_cases)
  case (2 fnd repl s n)
  then show ?case using find_sub_length [of fnd s n] by (cases fnd) auto
qed simp

declare replace_all.simps [simp del]

function count_all :: "string \<Rightarrow> string \<Rightarrow> nat" where
  "count_all fnd s =
     (if fnd = [] then 0
      else case find_sub fnd s of
             None \<Rightarrow> 0
           | Some n \<Rightarrow> Suc (count_all fnd (drop (n + length fnd) s)))"
  by pat_completeness auto
termination
proof (relation "measure (\<lambda>(f, s). length s)", goal_cases)
  case (2 fnd s n)
  then show ?case using find_sub_length [of fnd s n] by (cases fnd) auto
qed simp

declare count_all.simps [simp del]

lemma str_replace_loop_all:
  "fnd \<noteq> [] \<Longrightarrow> pos \<le> length s \<Longrightarrow>
   str_replace_loop fnd repl True s pos k =
     Some (take pos s @ replace_all fnd repl (drop pos s), k + count_all fnd (drop pos s))"
proof (induction "length s - pos" arbitrary: s pos k rule: less_induct)
  case less
  show ?case
  proof (cases "find_sub fnd (drop pos s)")
    case None
    with less.prems show ?thesis
      by (simp add: str_replace_loop.simps [of fnd repl True s pos] find_from_def
          replace_all.simps [of fnd repl] count_all.simps [of fnd])
  next
    case (Some n)
    let ?s = "take (pos + n) s @ repl @ drop (pos + n + length fnd) s"
    let ?p = "pos + n + length repl"
    have len: "n + length fnd \<le> length s - pos" using find_sub_length [OF Some] by simp
    moreover have "0 < length fnd" using less.prems by simp
    ultimately have "length ?s - ?p < length s - pos" "?p \<le> length ?s"
      using less.prems by (cases fnd; auto)+
    from less.hyps [OF this(1) less.prems(1) this(2), of "k + 1"]
    have "str_replace_loop fnd repl True ?s ?p (k + 1) =
        Some (take ?p ?s @ replace_all fnd repl (drop ?p ?s), k + 1 + count_all fnd (drop ?p ?s))" .
    moreover have "take ?p ?s = take pos s @ take n (drop pos s) @ repl"
      using len less.prems by (simp add: take_add)
    moreover have "drop ?p ?s = drop (n + length fnd) (drop pos s)"
      using len less.prems by (simp add: ac_simps)
    ultimately show ?thesis
      using less.prems Some
      by (simp add: str_replace_loop.simps [of fnd repl True s pos] find_from_def
          replace_all.simps [of fnd repl "drop pos s"] count_all.simps [of fnd "drop pos s"])
  qed
qed

section \<open>Trimming\<close>

definition is_blank :: "char \<Rightarrow> bool" where
  "is_blank c \<longleftrightarrow> 1 \<le> schar c \<and> schar c \<le> 32"

function trim_left :: "string \<Rightarrow> nat \<Rightarrow> nat" where
  "trim_left view left =
     (if left < length view then if is_blank (view ! left) then trim_left view (left + 1) else left
      else left)"
  by pat_completeness auto
termination
  by (relation "measure (\<lambda>(view, left). length view - left)") auto

declare trim_left.simps [simp del]

function trim_right :: "string \<Rightarrow> nat \<Rightarrow> int \<Rightarrow> int" where
  "trim_right view left right =
     (if int left \<le> right then if is_blank (view ! nat right) then trim_right view left (right - 1) else right
      else right)"
  by pat_completeness auto
termination
  by (relation "measure (\<lambda>(view, left, right). nat (right + 1 - int left))") auto

declare trim_right.simps [simp del]

definition str_trimmed :: "string \<Rightarrow> string" where
  "str_trimmed view =
     (let left = trim_left view 0 in
      if length view \<le> left then []
      else
        let right = trim_right view left (int (length view) - 1) in
        if right < int left then []
        else drop left (substr 0 (nat (right + 1)) view))"

lemma trim_left_dropWhile:
  "left \<le> length view \<Longrightarrow>
   trim_left view left \<le> length view \<and> left \<le> trim_left view left \<and>
   drop (trim_left view left) view = dropWhile is_blank (drop left view)"
proof (induction view left rule: trim_left.induct)
  case (1 view left)
  show ?case
  proof (cases "left < length view")
    case False
    with 1(2) show ?thesis by (simp add: trim_left.simps [of view "length view"])
  next
    case True
    then have "drop left view = view ! left # drop (left + 1) view"
      by (simp add: Cons_nth_drop_Suc)
    then show ?thesis
      using 1(1) True by (auto simp: trim_left.simps [of view left])
  qed
qed

lemma trim_right_take:
  "int left \<le> right + 1 \<Longrightarrow> nat (right + 1) \<le> length view \<Longrightarrow>
   (\<exists>x \<in> set (drop left (take (nat (right + 1)) view)). \<not> is_blank x) \<Longrightarrow>
   int left \<le> trim_right view left right \<and> trim_right view left right \<le> right \<and>
   drop left (take (nat (trim_right view left right + 1)) view) =
     rev (dropWhile is_blank (rev (drop left (take (nat (right + 1)) view))))"
proof (induction view left right rule: trim_right.induct)
  case (1 view left right)
  show ?case
  proof (cases "int left \<le> right")
    case False
    with 1(2,4) show ?thesis by simp
  next
    case True
    define r where "r = nat right"
    have r: "right = int r" "left \<le> r" "r < length view" using True 1(3) by (auto simp: r_def)
    then have snoc: "drop left (take (nat (right + 1)) view) = drop left (take r view) @ [view ! r]"
      by (simp add: nat_add_distrib take_Suc_conv_app_nth)
    have r1: "nat (right - 1 + 1) = r" using r by simp
    show ?thesis
    proof (cases "is_blank (view ! r)")
      case blank: True
      then have ex: "\<exists>x \<in> set (drop left (take r view)). \<not> is_blank x"
        using 1(4) unfolding snoc by auto
      then have "left < r" using r by (cases "left = r") auto
      have "is_blank (view ! nat right)" using blank r by simp
      from 1(1) [OF True this] ex \<open>left < r\<close> r
      have "int left \<le> trim_right view left (right - 1) \<and> trim_right view left (right - 1) \<le> right - 1 \<and>
        drop left (take (nat (trim_right view left (right - 1) + 1)) view) =
          rev (dropWhile is_blank (rev (drop left (take r view))))"
        unfolding r1 by simp
      then show ?thesis
        using blank True r unfolding snoc by (simp add: trim_right.simps [of view left "int r"])
    next
      case False
      then show ?thesis
        using True r unfolding snoc
        by (simp add: trim_right.simps [of view left "int r"] nat_add_distrib take_Suc_conv_app_nth)
    qed
  qed
qed

text \<open>Trimming as removal of the blanks at both ends.\<close>

definition trim :: "string \<Rightarrow> string" where
  "trim s = rev (dropWhile is_blank (rev (dropWhile is_blank s)))"

lemma str_trimmed_trim: "str_trimmed s = trim s"
proof -
  define l where "l = trim_left s 0"
  have l: "l \<le> length s" "drop l s = dropWhile is_blank s"
    using trim_left_dropWhile [of 0 s] by (simp_all add: l_def)
  show ?thesis
  proof (cases "l = length s")
    case True
    then show ?thesis
      using l by (simp add: str_trimmed_def trim_def l_def [symmetric])
  next
    case False
    then have "drop l s \<noteq> []" using l(1) by simp
    then have "hd (drop l s) \<in> set (drop l s)" "\<not> is_blank (hd (drop l s))"
      using l(2) hd_dropWhile [of is_blank s] by (auto simp del: drop_eq_Nil)
    then have ex: "\<exists>x \<in> set (drop l s). \<not> is_blank x" by blast
    have n: "nat (int (length s) - 1 + 1) = length s" by simp
    from trim_right_take [of l "int (length s) - 1" s] ex l(1)
    show ?thesis unfolding n
      using False l by (simp add: str_trimmed_def trim_def substr_def Let_def l_def [symmetric])
  qed
qed

lemma trim_Nil [simp]: "trim [] = []"
  by (simp add: trim_def)

section \<open>File names\<close>

definition file_name :: "string \<Rightarrow> string" where
  "file_name view =
     (case rfind_char (CHR ''/'') view of
        Some pos \<Rightarrow> drop (pos + 1) view
      | None \<Rightarrow>
          (case rfind_char (CHR 0x5C) view of
             None \<Rightarrow> view
           | Some pos \<Rightarrow> drop (pos + 1) view))"

section \<open>Properties\<close>

lemma dropWhile_split: "\<exists>a. s = a @ dropWhile P s \<and> list_all P a"
  by (metis list_all_iff set_takeWhileD takeWhile_dropWhile_id)

lemma trim_split: "\<exists>a b. s = a @ trim s @ b \<and> list_all is_blank (a @ b)"
proof -
  obtain a where a: "s = a @ dropWhile is_blank s" "list_all is_blank a"
    using dropWhile_split by metis
  obtain b where b: "rev (dropWhile is_blank s) = b @ dropWhile is_blank (rev (dropWhile is_blank s))"
      "list_all is_blank b" using dropWhile_split by metis
  have "dropWhile is_blank s = trim s @ rev b"
    using arg_cong [OF b(1), of rev] by (simp add: trim_def)
  then have "s = a @ trim s @ rev b" using a(1) by simp
  moreover have "list_all is_blank (a @ rev b)" using a(2) b(2) by (auto simp: list_all_iff)
  ultimately show ?thesis by blast
qed

lemma trim_ends:
  assumes "trim s \<noteq> []"
  shows "\<not> is_blank (hd (trim s)) \<and> \<not> is_blank (last (trim s))"
proof -
  let ?d = "dropWhile is_blank s"
  have ne: "dropWhile is_blank (rev ?d) \<noteq> []" using assms by (simp add: trim_def)
  then have last: "\<not> is_blank (last (trim s))"
    by (simp add: trim_def last_rev hd_dropWhile)
  obtain b where "rev ?d = b @ dropWhile is_blank (rev ?d)" using dropWhile_split by metis
  then have "?d = trim s @ rev b"
    by (metis rev_append rev_rev_ident trim_def)
  then have "hd (trim s) = hd ?d" "?d \<noteq> []" using assms by auto
  then show ?thesis using last hd_dropWhile by metis
qed

lemma trim_id: "trim s = s \<longleftrightarrow> s = [] \<or> (\<not> is_blank (hd s) \<and> \<not> is_blank (last s))"
proof (cases "s = []")
  case False
  show ?thesis
  proof
    assume "trim s = s"
    with trim_ends [of s] False show "s = [] \<or> (\<not> is_blank (hd s) \<and> \<not> is_blank (last s))" by simp
  next
    assume "s = [] \<or> (\<not> is_blank (hd s) \<and> \<not> is_blank (last s))"
    with False have nb: "\<not> is_blank (hd s)" "\<not> is_blank (last s)" by simp_all
    have "dropWhile is_blank s = s" using nb(1) False by (cases s) simp_all
    moreover have "dropWhile is_blank (rev s) = rev s" using nb(2) False by (cases s rule: rev_cases) simp_all
    ultimately show "trim s = s" by (simp add: trim_def)
  qed
qed simp

lemma trim_nonblank: "c \<in> set s \<Longrightarrow> \<not> is_blank c \<Longrightarrow> trim s \<noteq> []"
  using trim_split [of s] by (metis (no_types) append_Nil list_all_iff)

lemma trim_middle: "\<not> is_blank c \<Longrightarrow> trim (a @ c # b) \<noteq> []"
  by (rule trim_nonblank [of c]) simp_all

lemma not_blank [simp]:
  "\<not> is_blank (CHR ''='')" "\<not> is_blank (CHR ''/'')" "\<not> is_blank (CHR '';'')" "\<not> is_blank (CHR ''H'')"
  "\<not> is_blank (CHR '':'')"
  by (simp_all add: is_blank_def schar_def uchar_def)

text \<open>
  Trimming removes blanks (the bytes 1 to 32) at both ends and nothing else: what is left
  neither starts nor ends with one.
\<close>

theorem str_trimmed_spec:
  "(\<exists>a b. s = a @ str_trimmed s @ b \<and> list_all is_blank (a @ b)) \<and>
   (case str_trimmed s of [] \<Rightarrow> True | c # cs \<Rightarrow> \<not> is_blank c \<and> \<not> is_blank (last (c # cs)))"
  using trim_split [of s] trim_ends [of s]
  by (auto simp: str_trimmed_trim split: list.splits)

text \<open>C36.
  Stepping over each replacement, the loop ends for every non-empty search string: it
  replaces the occurrences from left to right and counts them.
\<close>

theorem str_replace_total:
  assumes "fnd \<noteq> []"
  shows "str_replace str fnd repl True =
    Some (if fnd = repl then (str, 0) else (replace_all fnd repl str, count_all fnd str))"
  using str_replace_loop_all [OF assms, of 0 str repl 0] by (simp add: str_replace_def)

theorem str_replace_total_witness:
  "str_replace ''a.b.c'' ''.'' ''::'' True = Some (''a::b::c'', 2)"
  using str_replace_total [of "''.''" "''a.b.c''" "''::''"]
  by (simp add: replace_all.simps count_all.simps)

lemma find_sub_occurs: "find_sub p s \<noteq> None \<Longrightarrow> find_sub p (s @ t) \<noteq> None"
proof (induction s)
  case Nil
  then have "p = []" by (auto split: if_splits)
  then show ?case by (cases t) auto
next
  case (Cons x xs)
  have "prefix p (x # xs) \<Longrightarrow> prefix p (x # xs @ t)"
    by (metis append_Cons prefix_append prefix_def)
  with Cons show ?case by (auto split: if_splits)
qed

text \<open>
  Without the step, the search resumes at the start of the replacement: if that contains
  the search string, a run that returns has found nothing to replace.
\<close>

lemma str_replace_loop_diverges:
  assumes "str_replace_loop fnd repl step str pos k = Some r"
  shows "\<not> step \<longrightarrow> find_sub fnd repl \<noteq> None \<longrightarrow> find_from fnd str pos = None"
proof (rule str_replace_loop.raw_induct [where P = "\<lambda>fnd repl step str pos k r.
    \<not> step \<longrightarrow> find_sub fnd repl \<noteq> None \<longrightarrow> find_from fnd str pos = None", OF _ assms])
  fix f fnd repl step str pos k r
  assume IH: "\<And>fnd repl step str pos k r. f fnd repl step str pos k = Some r \<Longrightarrow>
      \<not> step \<longrightarrow> find_sub fnd repl \<noteq> None \<longrightarrow> find_from fnd str pos = None"
    and body: "(case find_from fnd str pos of None \<Rightarrow> Some (str, k)
      | Some start \<Rightarrow> f fnd repl step (take start str @ repl @ drop (start + length fnd) str)
          (if step then start + length repl else start) (k + 1)) = Some r"
  show "\<not> step \<longrightarrow> find_sub fnd repl \<noteq> None \<longrightarrow> find_from fnd str pos = None"
  proof (rule impI, rule impI, rule ccontr)
    assume nostep: "\<not> step" and sub: "find_sub fnd repl \<noteq> None"
      and found: "find_from fnd str pos \<noteq> None"
    then obtain n where n: "find_from fnd str pos = Some n" by blast
    then have nl: "n \<le> length str"
      by (auto simp: find_from_def dest: find_sub_length split: if_splits)
    let ?s = "take n str @ repl @ drop (n + length fnd) str"
    have "f fnd repl step ?s n (k + 1) = Some r"
      using body n nostep by simp
    from IH [OF this] nostep sub have "find_from fnd ?s n = None" by simp
    moreover have "drop n ?s = repl @ drop (n + length fnd) str" "n \<le> length ?s" using nl by simp_all
    ultimately show False
      using find_sub_occurs [OF sub, of "drop (n + length fnd) str"] by (simp add: find_from_def)
  qed
qed

text \<open>
  Without the step, replacing an occurring string by one that contains it never ends.
\<close>

theorem str_replace_diverges:
  assumes "fnd \<noteq> repl" "find_sub fnd repl \<noteq> None" "find_sub fnd str \<noteq> None"
  shows "str_replace str fnd repl False = None"
proof (rule ccontr)
  assume "str_replace str fnd repl False \<noteq> None"
  then obtain r where "str_replace_loop fnd repl False str 0 0 = Some r"
    using assms(1) by (auto simp: str_replace_def)
  from str_replace_loop_diverges [OF this] assms(2,3)
  show False by (simp add: find_from_def)
qed

theorem str_replace_diverges_witness:
  "str_replace ''a/b'' ''/'' ''//'' False = None"
  by (rule str_replace_diverges) simp_all

end
