(* ===== verification/Http_Map.thy ===== *)
theory Http_Map
  imports Cxx_Strings
begin

text \<open>
  The containers of the HTTP module (\<^verbatim>\<open>libgs/http/cxx/container.h\<close>): a \<^verbatim>\<open>std::map\<close> and a
  \<^verbatim>\<open>std::set\<close> ordered by \<^verbatim>\<open>basic_less_case_insensitive\<close>, with the functions that fill and
  read them. A map is the list of its entries in key order, as iteration visits them; a
  \<^verbatim>\<open>basic_value\<close> is its string. What the clients rely on is stated once, as a locale.
\<close>

section \<open>The order of keys\<close>

definition ci_key :: "string \<Rightarrow> int list" where
  "ci_key s = map (\<lambda>c. schar (tolower c)) s"

definition less_case_insensitive :: "string \<Rightarrow> string \<Rightarrow> bool" where
  "less_case_insensitive v1 v2 \<longleftrightarrow> ci_key v1 < ci_key v2"

section \<open>Maps\<close>

type_synonym 'v http_map = "(string \<times> 'v) list"

fun map_find :: "'v http_map \<Rightarrow> string \<Rightarrow> 'v option" where
  "map_find [] key = None"
| "map_find ((k, v) # m) key =
     (if \<not> less_case_insensitive k key \<and> \<not> less_case_insensitive key k then Some v
      else map_find m key)"

text \<open>\<^verbatim>\<open>map[key] = value\<close>: an entry that is there keeps its spelling of the key.\<close>

fun map_assign :: "'v http_map \<Rightarrow> string \<Rightarrow> 'v \<Rightarrow> 'v http_map" where
  "map_assign [] key val = [(key, val)]"
| "map_assign ((k, v) # m) key val =
     (if less_case_insensitive key k then (key, val) # (k, v) # m
      else if less_case_insensitive k key then (k, v) # map_assign m key val
      else (k, val) # m)"

fun map_erase :: "'v http_map \<Rightarrow> string \<Rightarrow> 'v http_map" where
  "map_erase [] key = []"
| "map_erase ((k, v) # m) key =
     (if \<not> less_case_insensitive k key \<and> \<not> less_case_insensitive key k then m
      else (k, v) # map_erase m key)"

definition set_map :: "'v http_map \<Rightarrow> string \<Rightarrow> 'v \<Rightarrow> 'v http_map" where
  "set_map m key val = map_assign m (str_to_lower key) val"

definition set_map_list :: "'v http_map \<Rightarrow> (string \<times> 'v) list \<Rightarrow> 'v http_map" where
  "set_map_list m list = foldl (\<lambda>m (key, val). set_map m key val) m list"

definition unset_map :: "'v http_map \<Rightarrow> string \<Rightarrow> 'v http_map" where
  "unset_map m key = map_erase m key"

definition unset_map_list :: "'v http_map \<Rightarrow> string list \<Rightarrow> 'v http_map" where
  "unset_map_list m list = foldl unset_map m list"

definition get_map_value :: "'v http_map \<Rightarrow> string \<Rightarrow> 'v res" where
  "get_map_value m key = (case map_find m key of None \<Rightarrow> Inl Runtime_error | Some v \<Rightarrow> Inr v)"

definition get_map_value_or :: "'v http_map \<Rightarrow> string \<Rightarrow> 'v \<Rightarrow> 'v" where
  "get_map_value_or m key def = (case map_find m key of None \<Rightarrow> def | Some v \<Rightarrow> v)"

section \<open>Sets of values\<close>

type_synonym value_set = "unit http_map"

fun set_emplace :: "value_set \<Rightarrow> string \<Rightarrow> value_set" where
  "set_emplace [] key = [(key, ())]"
| "set_emplace ((k, u) # m) key =
     (if less_case_insensitive key k then (key, ()) # (k, u) # m
      else if less_case_insensitive k key then (k, u) # set_emplace m key
      else (k, u) # m)"

definition set_set :: "value_set \<Rightarrow> string list \<Rightarrow> value_set" where
  "set_set s list = foldl set_emplace s list"

definition unset_set :: "value_set \<Rightarrow> string list \<Rightarrow> value_set" where
  "unset_set s list = foldl map_erase s list"

section \<open>Order and equivalence\<close>

lemma tolower_inject: "schar (tolower c) = schar (tolower d) \<longleftrightarrow> tolower c = tolower d"
  by simp

lemma ci_key_eq: "ci_key a = ci_key b \<longleftrightarrow> str_to_lower a = str_to_lower b"
proof -
  have "ci_key a = map schar (str_to_lower a)" for a
    by (simp add: ci_key_def str_to_lower_def)
  moreover have "inj schar" by (simp add: inj_def)
  ultimately show ?thesis by (simp add: inj_map_eq_map)
qed

lemma ci_key_lower [simp]: "ci_key (str_to_lower k) = ci_key k"
  by (simp add: ci_key_eq)

lemma not_less_equiv:
  "\<not> less_case_insensitive a b \<and> \<not> less_case_insensitive b a \<longleftrightarrow> str_to_lower a = str_to_lower b"
  by (auto simp: less_case_insensitive_def ci_key_eq [symmetric])

definition map_inv :: "'v http_map \<Rightarrow> bool" where
  "map_inv m \<longleftrightarrow> sorted_wrt less_case_insensitive (map fst m)"

lemma map_inv_Nil [simp, intro]: "map_inv []"
  by (simp add: map_inv_def)

lemma map_inv_Cons:
  "map_inv ((k, v) # m) \<longleftrightarrow> (\<forall>x \<in> set m. ci_key k < ci_key (fst x)) \<and> map_inv m"
  by (auto simp: map_inv_def less_case_insensitive_def)

lemma map_assign_keys:
  "x \<in> set (map_assign m key val) \<Longrightarrow> x \<in> set m \<or> ci_key (fst x) = ci_key key"
  by (induction m key val rule: map_assign.induct)
    (auto simp: less_case_insensitive_def split: if_splits)

lemma map_inv_assign: "map_inv m \<Longrightarrow> map_inv (map_assign m key val)"
proof (induction m key val rule: map_assign.induct)
  case (2 k v m key val)
  then show ?case
    by (auto simp: map_inv_Cons less_case_insensitive_def dest!: map_assign_keys intro: less_trans)
qed (simp add: map_inv_Cons)

lemma map_erase_subset: "set (map_erase m key) \<subseteq> set m"
  by (induction m key rule: map_erase.induct) auto

lemma map_inv_erase: "map_inv m \<Longrightarrow> map_inv (map_erase m key)"
  by (induction m key rule: map_erase.induct) (use map_erase_subset in \<open>fastforce simp: map_inv_Cons\<close>)+

lemma map_find_assign:
  "map_find (map_assign m key val) k = (if str_to_lower k = str_to_lower key then Some val else map_find m k)"
proof (induction m key val rule: map_assign.induct)
  case (1 key val)
  then show ?case by (auto simp: not_less_equiv)
next
  case (2 k' v m key val)
  then show ?case
    by (auto simp: not_less_equiv simp flip: not_less_equiv [of k' key])
      (auto simp: less_case_insensitive_def ci_key_eq [symmetric])
qed

lemma map_find_above: "\<forall>x \<in> set m. ci_key k < ci_key (fst x) \<Longrightarrow> map_find m k = None"
  by (induction m) (auto simp: less_case_insensitive_def)

lemma map_find_equiv: "ci_key k = ci_key k' \<Longrightarrow> map_find m k = map_find m k'"
  by (induction m) (auto simp: less_case_insensitive_def)

lemma map_find_erase:
  "map_inv m \<Longrightarrow> map_find (map_erase m key) k = (if str_to_lower k = str_to_lower key then None else map_find m k)"
proof (induction m key rule: map_erase.induct)
  case (2 k' v m key)
  show ?case
  proof (cases "str_to_lower k' = str_to_lower key")
    case True
    moreover have "map_find m k' = None" using 2(2) by (simp add: map_inv_Cons map_find_above)
    then have "map_find m k = None" if "str_to_lower k = str_to_lower k'"
      using map_find_equiv [of k k' m] that by (simp add: ci_key_eq)
    ultimately show ?thesis by (auto simp: not_less_equiv)
  next
    case False
    with 2 show ?thesis by (auto simp: not_less_equiv map_inv_Cons)
  qed
qed simp

lemma map_inv_snoc:
  "map_inv (m @ [(k, v)]) \<longleftrightarrow> map_inv m \<and> (\<forall>x \<in> set m. ci_key (fst x) < ci_key k)"
  by (auto simp: map_inv_def sorted_wrt_append less_case_insensitive_def)

lemma map_assign_append: "\<forall>x \<in> set m. ci_key (fst x) < ci_key k \<Longrightarrow> map_assign m k v = m @ [(k, v)]"
  by (induction m) (auto simp: less_case_insensitive_def dest: less_asym)

lemma map_find_below: "\<forall>x \<in> set m. ci_key (fst x) < ci_key k \<Longrightarrow> map_find m k = None"
  by (induction m) (auto simp: less_case_insensitive_def)

lemma map_find_lower_keys: "map_find (map (\<lambda>(k, v). (str_to_lower k, v)) m) key = map_find m key"
  by (induction m) (auto simp: less_case_insensitive_def)

lemma foldl_assign_sorted:
  "map_inv m \<Longrightarrow> foldl (\<lambda>m (k, v). map_assign m k v) [] m = m"
proof (induction m rule: rev_induct)
  case (snoc x m)
  then show ?case by (cases x) (simp add: map_inv_snoc map_assign_append)
qed simp

section \<open>What clients rely on\<close>

locale ci_map =
  fixes inv :: "'m \<Rightarrow> bool"
    and find :: "'m \<Rightarrow> string \<Rightarrow> 'v option"
    and assign :: "'m \<Rightarrow> string \<Rightarrow> 'v \<Rightarrow> 'm"
    and remove :: "'m \<Rightarrow> string \<Rightarrow> 'm"
  assumes inv_assign: "inv m \<Longrightarrow> inv (assign m k v)"
    and inv_remove: "inv m \<Longrightarrow> inv (remove m k)"
    and find_assign: "inv m \<Longrightarrow>
      find (assign m k v) k' = (if str_to_lower k' = str_to_lower k then Some v else find m k')"
    and find_remove: "inv m \<Longrightarrow>
      find (remove m k) k' = (if str_to_lower k' = str_to_lower k then None else find m k')"
begin

lemma inv_assign_all: "inv m \<Longrightarrow> inv (foldl (\<lambda>m (k, v). assign m k v) m kvs)"
  by (induction kvs arbitrary: m) (auto intro: inv_assign)

lemma find_assign_all:
  "inv m \<Longrightarrow>
   find (foldl (\<lambda>m (k, v). assign m k v) m kvs) k =
     (case map_of (rev (map (\<lambda>(k, v). (str_to_lower k, v)) kvs)) (str_to_lower k) of
        Some v \<Rightarrow> Some v | None \<Rightarrow> find m k)"
proof (induction kvs arbitrary: m)
  case (Cons kv kvs)
  obtain k1 v1 where kv: "kv = (k1, v1)" by fastforce
  from Cons.IH [OF inv_assign [OF Cons.prems, of k1 v1]] show ?case
    by (auto simp: kv find_assign [OF Cons.prems] map_add_def split: option.splits)
qed simp

lemma inv_remove_all: "inv m \<Longrightarrow> inv (foldl remove m ks)"
  by (induction ks arbitrary: m) (auto intro: inv_remove)

lemma find_remove_all:
  "inv m \<Longrightarrow> find (foldl remove m ks) k = (if str_to_lower k \<in> str_to_lower ` set ks then None else find m k)"
  by (induction ks arbitrary: m) (auto simp: find_remove inv_remove)

lemma find_lower: "inv m \<Longrightarrow> find m' k = None \<Longrightarrow> m = assign m' k v \<Longrightarrow> inv m' \<Longrightarrow> find m (str_to_lower k) = Some v"
  by (simp add: find_assign)

end

interpretation hm: ci_map map_inv map_find set_map unset_map
proof
  fix m :: "'a http_map" and k k' :: string and v :: 'a
  assume m: "map_inv m"
  show "map_inv (set_map m k v)" using m by (simp add: set_map_def map_inv_assign)
  show "map_inv (unset_map m k)" using m by (simp add: unset_map_def map_inv_erase)
  show "map_find (set_map m k v) k' = (if str_to_lower k' = str_to_lower k then Some v else map_find m k')"
    by (simp add: set_map_def map_find_assign)
  show "map_find (unset_map m k) k' = (if str_to_lower k' = str_to_lower k then None else map_find m k')"
    using m by (simp add: unset_map_def map_find_erase)
qed

section \<open>Properties\<close>

text \<open>
  Header and parameter maps are case-insensitive and ordered: after a list of assignments
  and one of removals, a key that was not removed has its last value, whatever its case.
\<close>

theorem http_map_lookup:
  assumes "map_inv m"
  shows "map_inv (unset_map_list (set_map_list m kvs) ks) \<and>
    map_find (unset_map_list (set_map_list m kvs) ks) k =
      (if str_to_lower k \<in> str_to_lower ` set ks then None
       else case map_of (rev (map (\<lambda>(k, v). (str_to_lower k, v)) kvs)) (str_to_lower k) of
              Some v \<Rightarrow> Some v | None \<Rightarrow> map_find m k)"
  using hm.inv_assign_all [OF assms, of kvs] hm.find_assign_all [OF assms, of kvs k]
    hm.inv_remove_all [of "set_map_list m kvs" ks] hm.find_remove_all [of "set_map_list m kvs" ks k]
  by (simp add: set_map_list_def unset_map_list_def)

theorem http_map_lookup_witness:
  "map_find (unset_map_list (set_map_list [] [(''Host'', ''a''), (''HOST'', ''b''), (''Age'', ''1'')]) [''AGE'']) ''host''
     = Some ''b''"
proof -
  have l: "str_to_lower ''host'' = ''host''" "str_to_lower ''Host'' = ''host''"
    "str_to_lower ''HOST'' = ''host''" "str_to_lower ''Age'' = ''age''" "str_to_lower ''AGE'' = ''age''"
    by code_simp+
  show ?thesis
    using http_map_lookup [of "[] :: string http_map" "[(''Host'', ''a''), (''HOST'', ''b''), (''Age'', ''1'')]" "[''AGE'']" "''host''"]
    by (simp add: l)
qed

end
