(* ===== verification/Numbers.thy ===== *)
theory Numbers
  imports Cxx_Strings
begin

text \<open>
  Conversion of strings to numbers (\<^verbatim>\<open>detail::stoi8\<close> ... \<^verbatim>\<open>ston\<close> of
  \<^verbatim>\<open>libgs/core/algorithm/detail/base.h\<close>). They call \<^verbatim>\<open>std::stol\<close> or \<^verbatim>\<open>std::stoul\<close> (64 bits),
  fall back to \<^verbatim>\<open>std::stold\<close> when characters are left over, narrow the result, and read
  \<^verbatim>\<open>true\<close> and \<^verbatim>\<open>false\<close> as numbers when all else fails. Floating point is not modelled:
  \<open>stold\<close> is a parameter, which yields the value truncated to an integer and the number
  of characters it has read. Bases are 0 and 2 to 36.
\<close>

section \<open>The standard conversions\<close>

definition isspace :: "char \<Rightarrow> bool" where
  "isspace c \<longleftrightarrow> schar c = 32 \<or> 9 \<le> schar c \<and> schar c \<le> 13"

definition digit_value :: "char \<Rightarrow> nat" where
  "digit_value c =
     (if isdigit c then nat (schar c - 0x30)
      else if islower c then nat (schar c - 0x61) + 10
      else if isupper c then nat (schar c - 0x41) + 10
      else 36)"

definition is_base_digit :: "nat \<Rightarrow> char \<Rightarrow> bool" where
  "is_base_digit base c \<longleftrightarrow> digit_value c < base"

definition digits_value :: "nat \<Rightarrow> string \<Rightarrow> nat" where
  "digits_value base ds = foldl (\<lambda>v c. v * base + digit_value c) 0 ds"

definition has_hex_prefix :: "string \<Rightarrow> bool" where
  "has_hex_prefix s =
     (case s of z # x # d # _ \<Rightarrow> z = CHR ''0'' \<and> (x = CHR ''x'' \<or> x = CHR ''X'') \<and> is_base_digit 16 d
      | _ \<Rightarrow> False)"

text \<open>
  \<^verbatim>\<open>strtol\<close> up to the range check: the sign, the magnitude and the number of characters
  used; \<^const>\<open>None\<close> when there is no number.
\<close>

definition strto :: "nat \<Rightarrow> string \<Rightarrow> (bool \<times> nat \<times> nat) option" where
  "strto base s =
     (let ws = length (takeWhile isspace s);
          s1 = drop ws s;
          sg = (case s1 of c # _ \<Rightarrow> c = CHR ''-'' \<or> c = CHR ''+'' | [] \<Rightarrow> False);
          neg = (case s1 of c # _ \<Rightarrow> c = CHR ''-'' | [] \<Rightarrow> False);
          s2 = (if sg then drop 1 s1 else s1);
          pre = (base = 16 \<or> base = 0) \<and> has_hex_prefix s2;
          b = (if base \<noteq> 0 then base
               else if pre then 16
               else if take 1 s2 = ''0'' then 8 else 10);
          s3 = (if pre then drop 2 s2 else s2);
          ds = takeWhile (is_base_digit b) s3
      in if ds = [] then None
         else Some (neg, digits_value b ds,
                ws + (if sg then 1 else 0) + (if pre then 2 else 0) + length ds))"

definition stol :: "nat \<Rightarrow> string \<Rightarrow> (int \<times> nat) res" where
  "stol base s =
     (case strto base s of
        None \<Rightarrow> Inl Invalid_argument
      | Some (neg, v, n) \<Rightarrow>
          let r = (if neg then - int v else int v)
          in if - (2 ^ 63) \<le> r \<and> r < 2 ^ 63 then Inr (r, n) else Inl Out_of_range)"

definition stoul :: "nat \<Rightarrow> string \<Rightarrow> (int \<times> nat) res" where
  "stoul base s =
     (case strto base s of
        None \<Rightarrow> Inl Invalid_argument
      | Some (neg, v, n) \<Rightarrow>
          if 2 ^ 64 \<le> v then Inl Out_of_range
          else Inr ((if neg then (- int v) mod 2 ^ 64 else int v), n))"

section \<open>The conversions of the library\<close>

type_synonym stold_fn = "string \<Rightarrow> (int \<times> nat) res"

definition sto_float :: "stold_fn \<Rightarrow> string \<Rightarrow> int res" where
  "sto_float func str =
     (case func str of
        Inl e \<Rightarrow> Inl e
      | Inr (v, index) \<Rightarrow> if index < length str then Inl Runtime_error else Inr v)"

definition sto_int :: "stold_fn \<Rightarrow> (nat \<Rightarrow> string \<Rightarrow> (int \<times> nat) res) \<Rightarrow> (int \<Rightarrow> int) \<Rightarrow> string \<Rightarrow> nat \<Rightarrow> int res" where
  "sto_int stold func cast str base =
     (case func base str of
        Inl e \<Rightarrow> Inl e
      | Inr (v, index) \<Rightarrow>
          if index < length str then res_bind (sto_float stold str) (\<lambda>d. Inr (cast d)) else Inr v)"

definition strcasecmp_eq :: "string \<Rightarrow> string \<Rightarrow> bool" where
  "strcasecmp_eq a b \<longleftrightarrow> str_to_lower a = str_to_lower b"

definition stob_word :: "string \<Rightarrow> int" where
  "stob_word view =
     (if length view = 4 \<and> strcasecmp_eq view ''true'' then 1
      else if length view = 5 \<and> strcasecmp_eq view ''false'' then 0
      else - 1)"

definition try_stobtot :: "string \<Rightarrow> int option \<Rightarrow> int res" where
  "try_stobtot str odv =
     (let res = stob_word str in
      if res < 0 then (case odv of Some d \<Rightarrow> Inr d | None \<Rightarrow> Inl Runtime_error)
      else Inr (if res \<noteq> 0 then 1 else 0))"

text \<open>Narrowing casts to \<open>w\<close> bits, and the two 64-bit types.\<close>

definition cast_s :: "nat \<Rightarrow> int \<Rightarrow> int" where
  "cast_s w v = (v + 2 ^ (w - 1)) mod 2 ^ w - 2 ^ (w - 1)"

definition cast_u :: "nat \<Rightarrow> int \<Rightarrow> int" where
  "cast_u w v = v mod 2 ^ w"

definition sto_s :: "stold_fn \<Rightarrow> nat \<Rightarrow> string \<Rightarrow> nat \<Rightarrow> int option \<Rightarrow> int res" where
  "sto_s stold w str base odv =
     (case sto_int stold stol (cast_s 64) str base of
        Inr v \<Rightarrow> Inr (cast_s w v)
      | Inl _ \<Rightarrow> try_stobtot str odv)"

definition sto_u :: "stold_fn \<Rightarrow> nat \<Rightarrow> string \<Rightarrow> nat \<Rightarrow> int option \<Rightarrow> int res" where
  "sto_u stold w str base odv =
     (case sto_int stold stoul (cast_u 64) str base of
        Inr v \<Rightarrow> Inr (cast_u w v)
      | Inl _ \<Rightarrow> try_stobtot str odv)"

definition stoi8 :: "stold_fn \<Rightarrow> string \<Rightarrow> nat \<Rightarrow> int option \<Rightarrow> int res" where
  "stoi8 stold = sto_s stold 8"

definition stou8 :: "stold_fn \<Rightarrow> string \<Rightarrow> nat \<Rightarrow> int option \<Rightarrow> int res" where
  "stou8 stold = sto_u stold 8"

definition stoi16 :: "stold_fn \<Rightarrow> string \<Rightarrow> nat \<Rightarrow> int option \<Rightarrow> int res" where
  "stoi16 stold = sto_s stold 16"

definition stou16 :: "stold_fn \<Rightarrow> string \<Rightarrow> nat \<Rightarrow> int option \<Rightarrow> int res" where
  "stou16 stold = sto_u stold 16"

definition stoi32 :: "stold_fn \<Rightarrow> string \<Rightarrow> nat \<Rightarrow> int option \<Rightarrow> int res" where
  "stoi32 stold = sto_s stold 32"

definition stou32 :: "stold_fn \<Rightarrow> string \<Rightarrow> nat \<Rightarrow> int option \<Rightarrow> int res" where
  "stou32 stold = sto_u stold 32"

definition stoi64 :: "stold_fn \<Rightarrow> string \<Rightarrow> nat \<Rightarrow> int option \<Rightarrow> int res" where
  "stoi64 stold = sto_s stold 64"

definition stou64 :: "stold_fn \<Rightarrow> string \<Rightarrow> nat \<Rightarrow> int option \<Rightarrow> int res" where
  "stou64 stold = sto_u stold 64"

definition stob :: "stold_fn \<Rightarrow> string \<Rightarrow> nat \<Rightarrow> bool option \<Rightarrow> bool res" where
  "stob stold str base odv =
     (let res = stob_word str in
      if res < 0 then
        (case sto_int stold stol (cast_s 64) str base of
           Inr v \<Rightarrow> Inr (v \<noteq> 0)
         | Inl _ \<Rightarrow> (case odv of Some d \<Rightarrow> Inr d | None \<Rightarrow> Inl Runtime_error))
      else Inr (res > 0))"

text \<open>
  The variants with a default value. The default is converted to the type of the optional
  parameter, which is \<^verbatim>\<open>int8_t\<close> for \<^verbatim>\<open>stou8_or\<close> and \<^verbatim>\<open>uint8_t\<close> for \<^verbatim>\<open>stou16_or\<close>.
\<close>

definition stoi8_or :: "stold_fn \<Rightarrow> string \<Rightarrow> nat \<Rightarrow> int \<Rightarrow> int res" where
  "stoi8_or stold str base d = stoi8 stold str base (Some d)"

definition stou8_or :: "stold_fn \<Rightarrow> string \<Rightarrow> nat \<Rightarrow> int \<Rightarrow> int res" where
  "stou8_or stold str base d =
     res_bind (stoi8 stold str base (Some (cast_s 8 d))) (\<lambda>v. Inr (cast_u 8 v))"

definition stoi16_or :: "stold_fn \<Rightarrow> string \<Rightarrow> nat \<Rightarrow> int \<Rightarrow> int res" where
  "stoi16_or stold str base d = stoi16 stold str base (Some d)"

definition stou16_or :: "stold_fn \<Rightarrow> string \<Rightarrow> nat \<Rightarrow> int \<Rightarrow> int res" where
  "stou16_or stold str base d = stou16 stold str base (Some (cast_u 8 d))"

definition stoi32_or :: "stold_fn \<Rightarrow> string \<Rightarrow> nat \<Rightarrow> int \<Rightarrow> int res" where
  "stoi32_or stold str base d = stoi32 stold str base (Some d)"

definition stou32_or :: "stold_fn \<Rightarrow> string \<Rightarrow> nat \<Rightarrow> int \<Rightarrow> int res" where
  "stou32_or stold str base d = stou32 stold str base (Some d)"

definition stoi64_or :: "stold_fn \<Rightarrow> string \<Rightarrow> nat \<Rightarrow> int \<Rightarrow> int res" where
  "stoi64_or stold str base d = stoi64 stold str base (Some d)"

definition stou64_or :: "stold_fn \<Rightarrow> string \<Rightarrow> nat \<Rightarrow> int \<Rightarrow> int res" where
  "stou64_or stold str base d = stou64 stold str base (Some d)"

definition stob_or :: "stold_fn \<Rightarrow> string \<Rightarrow> nat \<Rightarrow> bool \<Rightarrow> bool res" where
  "stob_or stold str base d = stob stold str base (Some d)"

text \<open>\<^verbatim>\<open>ston<size_t>\<close>, which the HTTP parser and the attribute values use.\<close>

definition ston_size :: "stold_fn \<Rightarrow> string \<Rightarrow> nat \<Rightarrow> nat res" where
  "ston_size stold str base = res_bind (sto_u stold 64 str base None) (\<lambda>v. Inr (nat v))"

section \<open>Printing numbers\<close>

definition digit_char :: "nat \<Rightarrow> char" where
  "digit_char d = ''0123456789abcdefghijklmnopqrstuvwxyz'' ! d"

text \<open>\<^verbatim>\<open>std::format\<close> of an unsigned number in base 10 (\<^verbatim>\<open>{}\<close>) or 16 (\<^verbatim>\<open>{:x}\<close>).\<close>

function print_base :: "nat \<Rightarrow> nat \<Rightarrow> string" where
  "print_base base n =
     (if n < base \<or> base < 2 then [digit_char n]
      else print_base base (n div base) @ [digit_char (n mod base)])"
  by pat_completeness auto
termination
  by (relation "measure (\<lambda>(base, n). n)") auto

declare print_base.simps [simp del]

definition to_string :: "nat \<Rightarrow> string" where
  "to_string n = print_base 10 n"

lemma digit_value_char: "d < 36 \<Longrightarrow> digit_value (digit_char d) = d"
proof -
  have "list_all (\<lambda>d. digit_value (digit_char d) = d) [0..<36]"
    by code_simp
  then show "d < 36 \<Longrightarrow> digit_value (digit_char d) = d" by (simp add: list_all_iff)
qed

lemma print_base_digits:
  "2 \<le> base \<Longrightarrow> base \<le> 36 \<Longrightarrow>
   print_base base n \<noteq> [] \<and> list_all (is_base_digit base) (print_base base n) \<and>
   digits_value base (print_base base n) = n"
proof (induction base n rule: print_base.induct)
  case (1 base n)
  show ?case
  proof (cases "n < base")
    case True
    then show ?thesis
      using 1(2,3) digit_value_char [of n]
      by (simp add: print_base.simps [of base n] is_base_digit_def digits_value_def)
  next
    case False
    moreover have "n mod base < base" using 1(2) by simp
    then have "n mod base < 36" using 1(3) by linarith
    ultimately show ?thesis
      using 1 digit_value_char [of "n mod base"]
      by (simp add: print_base.simps [of base n] is_base_digit_def digits_value_def)
  qed
qed

lemma base_digit_not_space_sign:
  assumes "is_base_digit base c" "base \<le> 36"
  shows "\<not> isspace c \<and> c \<noteq> CHR ''-'' \<and> c \<noteq> CHR ''+''"
proof -
  have "isalnum c"
    using assms by (auto simp: is_base_digit_def digit_value_def isalnum_def isalpha_def split: if_splits)
  then show ?thesis
    by (auto simp: isalnum_def isalpha_def isdigit_def isupper_def islower_def isspace_def)
      (auto simp: schar_def uchar_def)
qed

text \<open>A string of digits of the base is read as its value, without the fallback.\<close>

lemma strto_digits:
  assumes "ds \<noteq> []" "list_all (is_base_digit base) ds" "base \<le> 36" "2 \<le> base"
    and "base = 16 \<longrightarrow> \<not> has_hex_prefix ds"
  shows "strto base ds = Some (False, digits_value base ds, length ds)"
proof -
  obtain c cs where ds: "ds = c # cs" using assms(1) by (cases ds) auto
  then have c: "\<not> isspace c \<and> c \<noteq> CHR ''-'' \<and> c \<noteq> CHR ''+''"
    using base_digit_not_space_sign [of base c] assms(2,3) by simp
  have "takeWhile (is_base_digit base) ds = ds"
    using assms(2) by (auto simp: list_all_iff)
  then show ?thesis
    using c assms(4,5) by (auto simp: strto_def ds Let_def)
qed

lemma hex_prefix_not_digits: "list_all (is_base_digit 16) ds \<Longrightarrow> \<not> has_hex_prefix ds"
proof
  assume "list_all (is_base_digit 16) ds" "has_hex_prefix ds"
  then obtain x where "is_base_digit 16 x" "x = CHR ''x'' \<or> x = CHR ''X''"
    by (auto simp: has_hex_prefix_def split: list.splits)
  moreover have "\<not> is_base_digit 16 (CHR ''x'')" "\<not> is_base_digit 16 (CHR ''X'')" by code_simp+
  ultimately show False by auto
qed

lemma stoul_digits:
  assumes "ds \<noteq> []" "list_all (is_base_digit base) ds" "base \<le> 36" "2 \<le> base"
    "digits_value base ds < 2 ^ 64"
  shows "stoul base ds = Inr (int (digits_value base ds), length ds)"
proof -
  have "base = 16 \<longrightarrow> \<not> has_hex_prefix ds" using hex_prefix_not_digits [of ds] assms(2) by blast
  from strto_digits [OF assms(1-4) this] assms(5) show ?thesis by (simp add: stoul_def)
qed

lemma ston_size_digits:
  assumes "ds \<noteq> []" "list_all (is_base_digit base) ds" "base \<le> 36" "2 \<le> base"
    "digits_value base ds < 2 ^ 64"
  shows "ston_size stold ds base = Inr (digits_value base ds)"
  using stoul_digits [OF assms] assms(5)
  by (simp add: ston_size_def sto_u_def sto_int_def cast_u_def mod_pos_pos_trivial)

lemma ston_size_print:
  "2 \<le> base \<Longrightarrow> base \<le> 36 \<Longrightarrow> n < 2 ^ 64 \<Longrightarrow> ston_size stold (print_base base n) base = Inr n"
  using ston_size_digits [of "print_base base n" base stold] print_base_digits [of base n] by simp

text \<open>Upper case hexadecimal (\<^verbatim>\<open>{:X}\<close>).\<close>

definition print_hex_upper :: "nat \<Rightarrow> string" where
  "print_hex_upper n = map toupper (print_base 16 n)"

lemma print_base_chars: "2 \<le> base \<Longrightarrow> set (print_base base n) \<subseteq> digit_char ` {..<base}"
proof (induction base n rule: print_base.induct)
  case (1 base n)
  then show ?case
    by (cases "n < base") (auto simp: print_base.simps [of base n])
qed

lemma print_base_length: "2 \<le> base \<Longrightarrow> 0 < k \<Longrightarrow> n < base ^ k \<Longrightarrow> length (print_base base n) \<le> k"
proof (induction base n arbitrary: k rule: print_base.induct)
  case (1 base n)
  show ?case
  proof (cases "n < base")
    case True
    then show ?thesis using 1(3) by (simp add: print_base.simps [of base n])
  next
    case False
    obtain j where k: "k = Suc j" using 1(3) by (cases k) auto
    then have "0 < j" using False 1(4) by (cases j) auto
    moreover have "n div base < base ^ j"
      using 1(2,4) by (simp add: k less_mult_imp_div_less mult.commute)
    ultimately have "length (print_base base (n div base)) \<le> j"
      using 1(1) [of j] False 1(2) by simp
    then show ?thesis using False 1(2) by (simp add: print_base.simps [of base n] k)
  qed
qed

lemma hex_chars:
  assumes "d < 16"
  shows "digit_value (toupper (digit_char d)) = digit_value (digit_char d)"
    "digit_value (digit_char d) < 16"
    "toupper (digit_char d) \<noteq> CHR 0x0D" "toupper (digit_char d) \<noteq> CHR '';''"
proof -
  have lower: "map digit_char [0..<16] = ''0123456789abcdef''"
    and upper: "map toupper ''0123456789abcdef'' = ''0123456789ABCDEF''"
    and lvalue: "map digit_value ''0123456789abcdef'' = [0..<16]"
    and uvalue: "map digit_value ''0123456789ABCDEF'' = [0..<16]"
    by code_simp+
  have l: "digit_char d = ''0123456789abcdef'' ! d"
    unfolding lower [symmetric] using assms by simp
  have "toupper (''0123456789abcdef'' ! d) = map toupper ''0123456789abcdef'' ! d"
    using assms by (intro nth_map [symmetric]) simp
  then have u: "toupper (digit_char d) = ''0123456789ABCDEF'' ! d" by (simp only: l upper)
  have "digit_value (''0123456789abcdef'' ! d) = map digit_value ''0123456789abcdef'' ! d"
    "digit_value (''0123456789ABCDEF'' ! d) = map digit_value ''0123456789ABCDEF'' ! d"
    using assms by (intro nth_map [symmetric]; simp)+
  then have lv: "digit_value (digit_char d) = d" and uv: "digit_value (toupper (digit_char d)) = d"
    using assms unfolding lvalue uvalue by (simp_all only: u) (simp_all add: l)
  show "digit_value (toupper (digit_char d)) = digit_value (digit_char d)"
    "digit_value (digit_char d) < 16"
    using lv uv assms by simp_all
  have "toupper (digit_char d) \<in> set ''0123456789ABCDEF''"
    unfolding u using assms by (intro nth_mem) simp
  then show "toupper (digit_char d) \<noteq> CHR 0x0D" "toupper (digit_char d) \<noteq> CHR '';''"
    by auto
qed

lemma digits_value_toupper:
  "set ds \<subseteq> digit_char ` {..<16} \<Longrightarrow> digits_value 16 (map toupper ds) = digits_value 16 ds"
proof (induction ds rule: rev_induct)
  case (snoc d ds)
  then show ?case using hex_chars by (auto simp: digits_value_def)
qed (simp add: digits_value_def)

lemma print_hex_upper_digits:
  "list_all (is_base_digit 16) (print_hex_upper n) \<and> print_hex_upper n \<noteq> [] \<and>
   digits_value 16 (print_hex_upper n) = n"
proof -
  have chars: "set (print_base 16 n) \<subseteq> digit_char ` {..<16}" by (rule print_base_chars) simp
  then have "list_all (is_base_digit 16) (print_hex_upper n)"
    using hex_chars by (auto simp: print_hex_upper_def list_all_iff is_base_digit_def)
  moreover have "digits_value 16 (print_hex_upper n) = n" "print_hex_upper n \<noteq> []"
    using print_base_digits [of 16 n] digits_value_toupper [OF chars] by (simp_all add: print_hex_upper_def)
  ultimately show ?thesis by blast
qed

section \<open>Properties\<close>

lemma sto_u_print:
  assumes "2 \<le> base" "base \<le> 36" "n < 2 ^ 64"
  shows "sto_u stold w (print_base base n) base odv = Inr (int n mod 2 ^ w)"
  using stoul_digits [of "print_base base n" base] print_base_digits [OF assms(1,2), of n] assms
  by (simp add: sto_u_def sto_int_def cast_u_def)

text \<open>
  A number printed in any base from 2 to 36 is read back; a type narrower than 64 bits
  keeps the low bits only, without an error and whatever the default value.
\<close>

theorem number_print_read:
  assumes "2 \<le> base" "base \<le> 36" "n < 2 ^ 64"
  shows "stou64 stold (print_base base n) base odv = Inr (int n) \<and>
    ston_size stold (print_base base n) base = Inr n \<and>
    stou32 stold (print_base base n) base odv = Inr (int n mod 2 ^ 32) \<and>
    stou16 stold (print_base base n) base odv = Inr (int n mod 2 ^ 16) \<and>
    stou8 stold (print_base base n) base odv = Inr (int n mod 2 ^ 8)"
  using assms sto_u_print [OF assms] ston_size_print [OF assms]
  by (simp add: stou64_def stou32_def stou16_def stou8_def)

theorem number_print_read_witness:
  "stou8 (\<lambda>s. Inl Invalid_argument) (print_base 10 300) 10 None = Inr 44"
  using number_print_read [of 10 300 "\<lambda>s. Inl Invalid_argument" None] by simp

lemma no_number:
  assumes "strto base str = None" "stob_word str < 0"
  shows "sto_u stold w str base (Some d) = Inr d"
  using assms by (simp add: sto_u_def sto_int_def stoul_def try_stobtot_def)

text \<open>
  A string that is no number and not \<^verbatim>\<open>true\<close> or \<^verbatim>\<open>false\<close> yields the default value, but
  \<^verbatim>\<open>stou16_or\<close> yields only its low eight bits.
\<close>

theorem default_values:
  assumes "strto base str = None" "stob_word str < 0"
  shows "stou64_or stold str base d = Inr d \<and> stou32_or stold str base d = Inr d \<and>
    stou16_or stold str base d = Inr (d mod 2 ^ 8)"
  using no_number [OF assms]
  by (simp add: stou64_or_def stou64_def stou32_or_def stou32_def stou16_or_def stou16_def cast_u_def)

theorem default_values_witness:
  "stou16_or (\<lambda>s. Inl Invalid_argument) ''none'' 10 1000 = Inr 232"
proof -
  have "strto 10 ''none'' = None" "stob_word ''none'' < 0" by code_simp+
  from default_values [OF this, of "\<lambda>s. Inl Invalid_argument" 1000] show ?thesis by simp
qed

end
