(* ===== verification/Percent_Encoding.thy ===== *)
theory Percent_Encoding
  imports Prelude
begin

text \<open>
  Percent encoding (\<^verbatim>\<open>libgs/core/algorithm/misc.cpp\<close>), in its \<^verbatim>\<open>char\<close> instances.
  The decoder of the source works in place: it reads and writes one buffer, through two
  positions \<open>i\<close> and \<open>outlen\<close>. It is modelled that way (\<open>from_percent_encoding\<close>), and
  refined against a decoder that consumes a list (\<open>percent_decode\<close>).
\<close>

section \<open>Decoding\<close>

text \<open>
  One hexadecimal digit as the decoder reads it. A character that is not a digit keeps
  its own (promoted) value: the source has no error branch.
\<close>

definition hex_val :: "char \<Rightarrow> int" where
  "hex_val c =
     (let a = schar c in
      if 0x30 \<le> a \<and> a \<le> 0x39 then a - 0x30
      else if 0x61 \<le> a \<and> a \<le> 0x66 then a - 0x61 + 10
      else if 0x41 \<le> a \<and> a \<le> 0x46 then a - 0x41 + 10
      else a)"

definition hex_pair :: "char \<Rightarrow> char \<Rightarrow> char" where
  "hex_pair x y = to_char (push_bit 4 (hex_val x) OR hex_val y)"

text \<open>The loop over the shared buffer: read position \<open>i\<close>, write position \<open>outlen\<close>.\<close>

function from_percent_loop :: "nat \<Rightarrow> nat \<Rightarrow> nat \<Rightarrow> string \<Rightarrow> string \<times> nat" where
  "from_percent_loop len i outlen buf =
     (if i < len then
        let c = buf ! i in
        if c = CHR ''%'' \<and> i + 2 < len
        then from_percent_loop len (i + 3) (outlen + 1)
               (buf[outlen := hex_pair (buf ! (i + 1)) (buf ! (i + 2))])
        else from_percent_loop len (i + 1) (outlen + 1) (buf[outlen := c])
      else (buf, outlen))"
  by pat_completeness auto
termination
  by (relation "measure (\<lambda>(len, i, outlen, buf). len - i)") auto

declare from_percent_loop.simps [simp del]

definition from_percent_encoding :: "string \<Rightarrow> string" where
  "from_percent_encoding str =
     (if str = [] then []
      else
        let (buf, outlen) = from_percent_loop (length str) 0 0 str in
        if outlen \<noteq> length str then substr 0 outlen buf else buf)"

text \<open>The abstract decoder: an escape needs two characters after the percent sign.\<close>

fun percent_decode :: "string \<Rightarrow> string" where
  "percent_decode (p # x # y # s) =
     (if p = CHR ''%'' then hex_pair x y # percent_decode s
      else p # percent_decode (x # y # s))"
| "percent_decode s = s"

lemma percent_decode_length [bounds]: "length (percent_decode s) \<le> length s"
  by (induction s rule: percent_decode.induct) auto

lemma percent_decode_plain:
  "CHR ''%'' \<notin> set s \<Longrightarrow> percent_decode s = s"
  by (induction s rule: percent_decode.induct) auto

text \<open>
  The loop writes only below its read position, so what is still to be read is unchanged;
  what has been written is the decoding of what has been read.
\<close>

lemma percent_decode_step:
  assumes "i < length s"
  shows "percent_decode (drop i s) =
     (if s ! i = CHR ''%'' \<and> i + 2 < length s
      then hex_pair (s ! (i + 1)) (s ! (i + 2)) # percent_decode (drop (i + 3) s)
      else s ! i # percent_decode (drop (i + 1) s))"
proof -
  consider "i + 1 = length s" | "i + 2 = length s" | "i + 2 < length s"
    using assms by linarith
  then show ?thesis
  proof cases
    case 1
    then have "drop i s = [s ! i]" "drop (i + 1) s = []"
      using Cons_nth_drop_Suc [of i s] by simp_all
    with 1 show ?thesis by simp
  next
    case 2
    then have "drop i s = [s ! i, s ! Suc i]" "drop (i + 1) s = [s ! Suc i]"
      using Cons_nth_drop_Suc [of i s] Cons_nth_drop_Suc [of "Suc i" s] by simp_all
    with 2 show ?thesis by simp
  next
    case 3
    then have "drop i s = s ! i # s ! Suc i # s ! Suc (Suc i) # drop (i + 3) s"
      and "drop (i + 1) s = s ! Suc i # s ! Suc (Suc i) # drop (i + 3) s"
      using Cons_nth_drop_Suc [of i s] Cons_nth_drop_Suc [of "Suc i" s]
        Cons_nth_drop_Suc [of "Suc (Suc i)" s] by (simp_all add: numeral_3_eq_3)
    with 3 show ?thesis by simp
  qed
qed

lemma from_percent_loop_decode:
  assumes "len = length s" and "length buf = len" and "outlen \<le> i"
    and "drop i buf = drop i s" and "from_percent_loop len i outlen buf = (r, n)"
  shows "length r = len \<and> outlen \<le> n \<and> n \<le> outlen + (len - i) \<and>
    take n r = take outlen buf @ percent_decode (drop i s)"
  using assms
proof (induction len i outlen buf arbitrary: r n rule: from_percent_loop.induct)
  case (1 len i outlen buf)
  show ?case
  proof (cases "i < len")
    case False
    with 1(7) have "r = buf" "n = outlen"
      by (simp_all add: from_percent_loop.simps [of len i outlen buf])
    with False 1(3,4) show ?thesis by simp
  next
    case True
    have same: "buf ! j = s ! j" if "i \<le> j" "j < len" for j
      using arg_cong [OF 1(6), of "\<lambda>l. l ! (j - i)"] that 1(3,4) by simp
    have rest: "drop j (buf[outlen := x]) = drop j s" if "i < j" for j x
      using arg_cong [OF 1(6), of "drop (j - i)"] that 1(5) by simp
    have out: "take (Suc outlen) (buf[outlen := x]) = take outlen buf @ [x]" for x
      using True 1(4,5) by (simp add: take_Suc_conv_app_nth)
    show ?thesis
    proof (cases "buf ! i = CHR ''%'' \<and> i + 2 < len")
      case esc: True
      let ?x = "hex_pair (buf ! (i + 1)) (buf ! (i + 2))"
      have "from_percent_loop len (i + 3) (outlen + 1) (buf[outlen := ?x]) = (r, n)"
        using 1(7) True esc by (simp add: from_percent_loop.simps [of len i outlen buf])
      from 1(1) [OF True refl esc 1(3) _ _ _ this] 1(4,5) rest [of "i + 3" ?x]
      show ?thesis
        using True esc same [of i] same [of "i + 1"] same [of "i + 2"] out [of ?x] 1(3)
        by (auto simp: percent_decode_step [of i s])
    next
      case plain: False
      let ?x = "buf ! i"
      have "from_percent_loop len (i + 1) (outlen + 1) (buf[outlen := ?x]) = (r, n)"
        using 1(7) True plain by (simp add: from_percent_loop.simps [of len i outlen buf] del: de_Morgan_conj)
      from 1(2) [OF True refl plain 1(3) _ _ _ this] 1(4,5) rest [of "i + 1" ?x]
      show ?thesis
        using True plain same [of i] out [of ?x] 1(3)
        by (auto simp: percent_decode_step [of i s])
    qed
  qed
qed

text \<open>The in-place decoder computes the abstract decoding.\<close>

lemma from_percent_encoding_decode: "from_percent_encoding s = percent_decode s"
proof (cases "s = []")
  case True
  then show ?thesis by (simp add: from_percent_encoding_def)
next
  case False
  obtain r n where rn: "from_percent_loop (length s) 0 0 s = (r, n)" by fastforce
  from from_percent_loop_decode [OF refl refl le_refl refl rn]
  have "length r = length s" "n \<le> length s" "take n r = percent_decode s" by simp_all
  with False rn show ?thesis
    by (auto simp: from_percent_encoding_def substr_def)
qed

section \<open>Encoding\<close>

definition to_hex_upper :: "int \<Rightarrow> char" where
  "to_hex_upper v = ''0123456789ABCDEF'' ! nat (v AND 0xF)"

definition unreserved :: "char \<Rightarrow> bool" where
  "unreserved c =
     (let a = schar c in
      (0x61 \<le> a \<and> a \<le> 0x7A) \<or> (0x41 \<le> a \<and> a \<le> 0x5A) \<or> (0x30 \<le> a \<and> a \<le> 0x39) \<or>
      a = 0x2D \<or> a = 0x2E \<or> a = 0x5F \<or> a = 0x7E)"

text \<open>The condition under which a character is copied unchanged.\<close>

definition percent_keeps :: "string \<Rightarrow> string \<Rightarrow> char \<Rightarrow> char \<Rightarrow> bool" where
  "percent_keeps excl incl percent c \<longleftrightarrow>
     c \<noteq> percent \<and> (unreserved c \<or> c \<in> set excl) \<and> c \<notin> set incl"

text \<open>The buffer of the encoder: it is allocated once, and enlarged at the first escape.\<close>

record percent_buf =
  pb_result :: string
  pb_length :: nat
  pb_expanded :: bool

definition resize :: "nat \<Rightarrow> string \<Rightarrow> string" where
  "resize n s = take n s @ replicate (n - length s) (CHR 0x00)"

definition pb_put :: "char \<Rightarrow> percent_buf \<Rightarrow> percent_buf" where
  "pb_put c b = b\<lparr>pb_result := (pb_result b)[pb_length b := c], pb_length := pb_length b + 1\<rparr>"

definition to_percent_step ::
    "string \<Rightarrow> string \<Rightarrow> char \<Rightarrow> nat \<Rightarrow> percent_buf \<Rightarrow> char \<Rightarrow> percent_buf" where
  "to_percent_step excl incl percent sz b c =
     (if percent_keeps excl incl percent c then pb_put c b
      else
        let b1 = (if pb_expanded b then b
                  else b\<lparr>pb_result := resize (sz * 3) (pb_result b), pb_expanded := True\<rparr>)
        in pb_put (to_hex_upper (schar c AND 0xF))
             (pb_put (to_hex_upper (drop_bit 4 (schar c AND 0xF0)))
               (pb_put percent b1)))"

definition to_percent_encoding :: "string \<Rightarrow> string \<Rightarrow> string \<Rightarrow> char \<Rightarrow> string" where
  "to_percent_encoding str excl incl percent =
     (if str = [] then []
      else
        let b = foldl (to_percent_step excl incl percent (length str))
                  \<lparr>pb_result = resize (length str) [], pb_length = 0, pb_expanded = False\<rparr> str
        in if pb_expanded b then substr 0 (pb_length b) (pb_result b) else pb_result b)"

text \<open>The encoding of one character, and of a string, without a buffer.\<close>

definition percent_char :: "string \<Rightarrow> string \<Rightarrow> char \<Rightarrow> char \<Rightarrow> string" where
  "percent_char excl incl percent c =
     (if percent_keeps excl incl percent c then [c]
      else [percent, to_hex_upper (drop_bit 4 (schar c AND 0xF0)), to_hex_upper (schar c AND 0xF)])"

definition percent_encode :: "string \<Rightarrow> string \<Rightarrow> char \<Rightarrow> string \<Rightarrow> string" where
  "percent_encode excl incl percent s = concat (map (percent_char excl incl percent) s)"

text \<open>
  What the buffer satisfies after a part \<open>done\<close> of the input: it is large enough for what
  is still to come, and starts with the encoding of that part.
\<close>

definition pb_inv :: "string \<Rightarrow> string \<Rightarrow> char \<Rightarrow> nat \<Rightarrow> string \<Rightarrow> percent_buf \<Rightarrow> bool" where
  "pb_inv excl incl percent sz s b \<longleftrightarrow>
     take (pb_length b) (pb_result b) = percent_encode excl incl percent s \<and>
     pb_length b = length (percent_encode excl incl percent s) \<and>
     pb_length b \<le> 3 * length s \<and>
     (if pb_expanded b then length (pb_result b) = sz * 3
      else length (pb_result b) = sz \<and> pb_length b = length s)"

lemma resize_length [simp]: "length (resize n s) = n"
  by (simp add: resize_def)

lemma take_resize: "k \<le> length s \<Longrightarrow> k \<le> n \<Longrightarrow> take k (resize n s) = take k s"
  by (simp add: resize_def min_absorb1)

lemma take_pb_put:
  "pb_length b < length (pb_result b) \<Longrightarrow>
   take (pb_length (pb_put c b)) (pb_result (pb_put c b)) = take (pb_length b) (pb_result b) @ [c]"
  by (simp add: pb_put_def take_Suc_conv_app_nth)

lemma pb_put_simps [simp]:
  "pb_length (pb_put c b) = pb_length b + 1"
  "length (pb_result (pb_put c b)) = length (pb_result b)"
  "pb_expanded (pb_put c b) = pb_expanded b"
  by (simp_all add: pb_put_def)

lemma percent_encode_snoc [simp]:
  "percent_encode excl incl percent (s @ [c]) =
     percent_encode excl incl percent s @ percent_char excl incl percent c"
  by (simp add: percent_encode_def)

lemma pb_inv_step:
  assumes inv: "pb_inv excl incl percent sz s b" and room: "length s < sz"
  shows "pb_inv excl incl percent sz (s @ [c]) (to_percent_step excl incl percent sz b c)"
proof (cases "percent_keeps excl incl percent c")
  case True
  with inv room have "pb_length b < length (pb_result b)"
    by (auto simp: pb_inv_def split: if_splits)
  with inv True show ?thesis
    using take_pb_put [of b c]
    by (auto simp: pb_inv_def to_percent_step_def percent_char_def)
next
  case False
  define b1 where "b1 = (if pb_expanded b then b
    else b\<lparr>pb_result := resize (sz * 3) (pb_result b), pb_expanded := True\<rparr>)"
  have b1: "take (pb_length b1) (pb_result b1) = percent_encode excl incl percent s"
      "pb_length b1 = length (percent_encode excl incl percent s)" "pb_expanded b1"
      "length (pb_result b1) = sz * 3" "pb_length b1 \<le> 3 * length s"
    using inv room by (auto simp: pb_inv_def b1_def take_resize split: if_splits)
  then have "pb_length b1 + 2 < length (pb_result b1)" using room by simp
  with False b1 show ?thesis
    using take_pb_put [of b1] take_pb_put [of "pb_put _ b1"] take_pb_put [of "pb_put _ (pb_put _ b1)"]
    by (simp add: pb_inv_def to_percent_step_def percent_char_def flip: b1_def)
qed

lemma pb_inv_foldl:
  "pb_inv excl incl percent sz s b \<Longrightarrow> length s + length t \<le> sz \<Longrightarrow>
   pb_inv excl incl percent sz (s @ t) (foldl (to_percent_step excl incl percent sz) b t)"
proof (induction t arbitrary: s b)
  case Nil
  then show ?case by simp
next
  case (Cons c t)
  then have "pb_inv excl incl percent sz (s @ [c]) (to_percent_step excl incl percent sz b c)"
    by (intro pb_inv_step) auto
  from Cons.IH [OF this] Cons.prems(2) show ?case by simp
qed

lemma pb_inv_init:
  "pb_inv excl incl percent sz [] \<lparr>pb_result = resize sz [], pb_length = 0, pb_expanded = False\<rparr>"
  by (simp add: pb_inv_def percent_encode_def)

lemma to_percent_encoding_encode:
  "to_percent_encoding s excl incl percent = percent_encode excl incl percent s"
proof (cases "s = []")
  case True
  then show ?thesis by (simp add: to_percent_encoding_def percent_encode_def)
next
  case False
  from pb_inv_foldl [OF pb_inv_init, where t = s and sz = "length s" and excl = excl and incl = incl and percent = percent] False
  show ?thesis
    by (auto simp: to_percent_encoding_def pb_inv_def substr_def Let_def split: if_splits)
qed

lemma int_and_15: "(a :: int) AND 15 = a mod 16"
  using take_bit_eq_mask [of 4 a] by (simp add: take_bit_eq_mod mask_eq_exp_minus_1)

lemma schar_mod_256: "schar c mod 256 = int (uchar c)"
  using uchar_less [of c] by (simp add: schar_def del: uchar_less)

lemma mod_256_nibbles:
  "(a :: int) mod 256 = b \<Longrightarrow> a mod 16 = b mod 16"
  "(a :: int) mod 256 = b \<Longrightarrow> a div 16 mod 16 = b div 16"
  using mod_mod_cancel [of 16 256 a] zmod_zmult2_eq [of 16 a 16] by auto

lemma low_nibble [simp]: "schar c AND 15 = int (uchar c mod 16)"
  using mod_256_nibbles(1) [OF schar_mod_256, of c]
  by (simp only: int_and_15 zmod_int of_nat_numeral)

lemma high_nibble [simp]: "drop_bit 4 (schar c) AND 15 = int (uchar c div 16)"
proof -
  have "drop_bit 4 (schar c) = schar c div 16" by (simp add: drop_bit_eq_div)
  then show ?thesis
    using mod_256_nibbles(2) [OF schar_mod_256, of c]
    by (simp only: int_and_15 zdiv_int of_nat_numeral)
qed

text \<open>The digit functions invert each other, checked for all sixteen digits.\<close>

lemma hex_digits_all: "list_all (\<lambda>n. hex_val (to_hex_upper (int n)) = int n) [0..<16]"
  by (simp add: upt_rec hex_val_def to_hex_upper_def schar_def uchar_def)

lemma hex_val_digit: "n < 16 \<Longrightarrow> hex_val (to_hex_upper (int n)) = int n"
  using hex_digits_all by (simp add: list_all_iff)

lemma hex_pair_digits:
  "hex_pair (to_hex_upper (int (uchar c div 16))) (to_hex_upper (int (uchar c mod 16))) = c"
proof -
  have "push_bit 4 (int (uchar c div 16)) OR int (uchar c mod 16) = int (uchar c)"
    using concat_bit_eq [of 4 "int (uchar c mod 16)" "int (uchar c div 16)"]
    by (simp add: concat_bit_def take_bit_eq_mod push_bit_eq_mult or.commute zmod_int zdiv_int)
  moreover have "uchar c div 16 < 16" using uchar_less [of c] by linarith
  ultimately show ?thesis
    by (simp add: hex_pair_def hex_val_digit to_char_def)
qed

lemma percent_decode_keep: "p \<noteq> CHR ''%'' \<Longrightarrow> percent_decode (p # s) = p # percent_decode s"
  by (cases s rule: percent_decode.cases) auto

lemma percent_decode_encode:
  "percent_decode (percent_encode excl incl (CHR ''%'') s) = s"
proof (induction s)
  case Nil
  then show ?case by (simp add: percent_encode_def)
next
  case (Cons c s)
  then show ?case
    by (auto simp: percent_encode_def percent_char_def percent_keeps_def percent_decode_keep
        hex_pair_digits)
qed

lemma unreserved_hex: "n < 16 \<Longrightarrow> unreserved (to_hex_upper (int n))"
proof -
  have "list_all (\<lambda>n. unreserved (to_hex_upper (int n))) [0..<16]"
    by (simp add: upt_rec unreserved_def to_hex_upper_def schar_def uchar_def)
  then show "n < 16 \<Longrightarrow> unreserved (to_hex_upper (int n))" by (simp add: list_all_iff)
qed

lemma set_percent_char: "set (percent_char excl incl p c) \<subseteq> insert p (Collect unreserved \<union> set excl)"
proof -
  have "uchar c div 16 < 16" using uchar_less [of c] by linarith
  then show ?thesis by (auto simp: percent_char_def percent_keeps_def unreserved_hex)
qed

section \<open>Properties\<close>

text \<open>C32.
  Decoding undoes encoding, for every string of bytes and whatever sets of characters
  the caller excludes from the encoding or adds to it.
\<close>

theorem percent_encoding_roundtrip:
  "from_percent_encoding (to_percent_encoding s excl incl (CHR ''%'')) = s"
  by (simp add: from_percent_encoding_decode to_percent_encoding_encode percent_decode_encode)

text \<open>
  The decoder, which overwrites the buffer it reads, computes the decoding of its input
  as if it read a separate copy, and never returns more than it was given.
\<close>

theorem from_percent_encoding_in_place:
  "from_percent_encoding s = percent_decode s \<and> length (from_percent_encoding s) \<le> length s"
  by (simp add: from_percent_encoding_decode percent_decode_length)

text \<open>
  The encoder, which enlarges its buffer once, computes the concatenation of the encoded
  characters; the result holds unreserved characters, excluded ones and percent signs only.
\<close>

theorem to_percent_encoding_chars:
  "to_percent_encoding s excl incl p = concat (map (percent_char excl incl p) s) \<and>
   set (to_percent_encoding s excl incl p) \<subseteq> insert p (Collect unreserved \<union> set excl)"
  using set_percent_char by (fastforce simp: to_percent_encoding_encode percent_encode_def)

end
