(* ===== verification/Http_Parser.thy ===== *)
theory Http_Parser
  imports Http_Types Http_Map Numbers Percent_Encoding
begin

text \<open>
  The incremental HTTP parser (\<^verbatim>\<open>basic_parser_base\<close>, \<^verbatim>\<open>libgs/http/detail/parser_base.h\<close>).
  Bytes are appended in fragments as they arrive; the parser keeps what is not yet a
  complete line, collects headers and then the body, by length or in chunks. The handler
  of the first line and that of cookies belong to the owner, whose state is threaded
  through (\<open>p_owner\<close>). A call ends with an exception, or with its result, its error code
  and the new parser.
\<close>

section \<open>The parser object\<close>

datatype parse_errno = RLTL | HLTL | IRL | IHM | IHP | IHL | IDE | SFE | RE

fun errno_value :: "parse_errno \<Rightarrow> nat" where
  "errno_value RLTL = 10000" | "errno_value HLTL = 10001" | "errno_value IRL = 10002"
| "errno_value IHM = 10003" | "errno_value IHP = 10004" | "errno_value IHL = 10005"
| "errno_value IDE = 10006" | "errno_value SFE = 10007" | "errno_value RE = 10008"

datatype pstate =
    Waiting_request
  | Reading_headers
  | Reading_length
  | Chunked_wait_size
  | Chunked_wait_content
  | Chunked_wait_headers
  | Finished

type_synonym 'r begin_handler = "string \<Rightarrow> 'r \<Rightarrow> (version \<times> parse_errno option \<times> 'r) res"
type_synonym 'r cookie_handler = "string \<Rightarrow> 'r \<Rightarrow> parse_errno option \<times> 'r"

record 'r parser =
  p_state :: pstate
  p_src :: string
  p_version :: version
  p_headers :: "string http_map"
  p_body :: string
  p_content_length :: nat
  p_begin :: "'r begin_handler option"
  p_cookie :: "'r cookie_handler option"
  p_owner :: 'r

text \<open>\<^verbatim>\<open>m_version\<close> is not initialised: nothing is known of it before a first line is parsed.\<close>

definition new_parser :: "'r \<Rightarrow> 'r parser" where
  "new_parser owner =
     \<lparr>p_state = Waiting_request, p_src = [], p_version = undefined, p_headers = [], p_body = [],
      p_content_length = 0, p_begin = None, p_cookie = None, p_owner = owner\<rparr>"

definition on_parse_begin :: "'r begin_handler \<Rightarrow> 'r parser \<Rightarrow> 'r parser" where
  "on_parse_begin func p = p\<lparr>p_begin := Some func\<rparr>"

definition on_parse_cookie :: "'r cookie_handler \<Rightarrow> 'r parser \<Rightarrow> 'r parser" where
  "on_parse_cookie func p = p\<lparr>p_cookie := Some func\<rparr>"

definition unset_parse_begin :: "'r parser \<Rightarrow> 'r parser" where
  "unset_parse_begin p = p\<lparr>p_begin := None\<rparr>"

definition unset_parse_cookie :: "'r parser \<Rightarrow> 'r parser" where
  "unset_parse_cookie p = p\<lparr>p_cookie := None\<rparr>"

definition reset :: "'r parser \<Rightarrow> 'r parser" where
  "reset p = p\<lparr>p_state := Waiting_request, p_src := [], p_headers := [], p_body := []\<rparr>"

section \<open>Parsing\<close>

text \<open>
  What a call yields: an exception, or its result, the error code and the parser. One
  turn of a loop ends the call (\<open>Done\<close>), throws, or goes on with the local variables.
\<close>

type_synonym 'r outcome = "(bool \<times> parse_errno option \<times> 'r parser) res"

datatype 'r turn =
    Throw exn
  | Done bool "parse_errno option" "'r parser"
  | Next nat "parse_errno option" "'r parser"

definition CRLF :: string where
  "CRLF = [CHR 0x0D, CHR 0x0A]"

definition set_error :: "parse_errno option \<Rightarrow> parse_errno option \<Rightarrow> parse_errno option" where
  "set_error err e = (case e of None \<Rightarrow> err | Some x \<Rightarrow> Some x)"

definition header_insert ::
    "string \<Rightarrow> string \<Rightarrow> parse_errno option \<Rightarrow> 'r parser \<Rightarrow> (parse_errno option \<times> 'r parser) res" where
  "header_insert key val err p =
     (if key = ''cookie'' \<or> key = ''set-cookie'' then
        case p_cookie p of
          None \<Rightarrow> Inl Runtime_error
        | Some func \<Rightarrow> (case func val (p_owner p) of (e, owner) \<Rightarrow> Inr (set_error err e, p\<lparr>p_owner := owner\<rparr>))
      else Inr (err, p\<lparr>p_headers := map_assign (p_headers p) key val\<rparr>))"

definition header_line ::
    "string \<Rightarrow> nat \<Rightarrow> parse_errno option \<Rightarrow> 'r parser \<Rightarrow> (parse_errno option \<times> 'r parser) res" where
  "header_line line_buf colon_index err p =
     header_insert (str_to_lower (str_trimmed (substr 0 colon_index line_buf)))
       (from_percent_encoding (str_trimmed (drop (colon_index + 1) line_buf))) err p"

definition parse_length :: "'r parser \<Rightarrow> 'r parser" where
  "parse_length p =
     (let rsize = length (p_body p) + length (p_src p);
          rsize = (if p_content_length p < rsize
                   then size_sub (p_content_length p) (length (p_body p)) else length (p_src p));
          p = p\<lparr>p_body := p_body p @ take rsize (p_src p), p_src := []\<rparr>
      in p\<lparr>p_state := (if length (p_body p) < p_content_length p then Reading_length else Finished)\<rparr>)"

text \<open>
  One line of a chunked body, already removed from the buffer. The size of the current
  chunk, \<open>sz\<close>, is a local variable of the function: it starts at 0 in every call.
\<close>

definition chunk_line :: "stold_fn \<Rightarrow> nat \<Rightarrow> parse_errno option \<Rightarrow> string \<Rightarrow> 'r parser \<Rightarrow> 'r turn" where
  "chunk_line stold sz err line p =
     (case p_state p of
        Chunked_wait_size \<Rightarrow>
          (let line = (case find_char (CHR '';'') line of Some c \<Rightarrow> take c line | None \<Rightarrow> line) in
           if 16 < length line then Done False (Some SFE) p
           else case ston_size stold line 16 of
                  Inl _ \<Rightarrow> Done False (Some SFE) p
                | Inr sz \<Rightarrow>
                    Next sz err (p\<lparr>p_state := (if sz = 0 then Chunked_wait_headers else Chunked_wait_content)\<rparr>))
      | Chunked_wait_content \<Rightarrow>
          if sz < length line then Next (length line) err (p\<lparr>p_body := p_body p @ line\<rparr>)
          else Next sz err (p\<lparr>p_state := Chunked_wait_size, p_body := p_body p @ line\<rparr>)
      | Chunked_wait_headers \<Rightarrow>
          if line = [] then Done True err (p\<lparr>p_state := Finished, p_src := []\<rparr>)
          else (case find_char (CHR '':'') (line @ CRLF) of
                  None \<Rightarrow> Done False (Some SFE) p
                | Some colon_index \<Rightarrow>
                    (case header_line (line @ CRLF) colon_index err p of
                       Inl e \<Rightarrow> Throw e
                     | Inr (err, p) \<Rightarrow> Next sz err p))
      | _ \<Rightarrow> Next sz err p)"

lemma header_insert_src: "header_insert key val err p = Inr (e, q) \<Longrightarrow> p_src q = p_src p"
  by (auto simp: header_insert_def split: if_splits option.splits prod.splits)

lemma chunk_line_src: "chunk_line stold sz err line p = Next sz' err' q \<Longrightarrow> p_src q = p_src p"
  by (auto simp: chunk_line_def header_line_def Let_def dest: header_insert_src
      split: pstate.splits if_splits option.splits sum.splits prod.splits)

function chunk_loop :: "stold_fn \<Rightarrow> nat \<Rightarrow> parse_errno option \<Rightarrow> 'r parser \<Rightarrow> 'r outcome" where
  "chunk_loop stold sz err p =
     (case find_sub CRLF (p_src p) of
        None \<Rightarrow> Inr (False, if 1024 \<le> length (p_src p) then Some HLTL else err, p)
      | Some pos \<Rightarrow>
          (case chunk_line stold sz err (substr 0 pos (p_src p)) (p\<lparr>p_src := drop (pos + 2) (p_src p)\<rparr>) of
             Throw e \<Rightarrow> Inl e
           | Done r err q \<Rightarrow> Inr (r, err, q)
           | Next sz err q \<Rightarrow> if p_src q = [] then Inr (False, err, q) else chunk_loop stold sz err q))"
  by pat_completeness auto
termination
proof (relation "measure (\<lambda>(stold, sz, err, p). length (p_src p))", goal_cases)
  case (2 stold sz err p pos sz' err' q)
  then have "p_src q = drop (pos + 2) (p_src p)" by (auto dest!: chunk_line_src)
  moreover have "pos + 2 \<le> length (p_src p)" using find_sub_length [OF 2(1)] by (simp add: CRLF_def)
  ultimately show ?case using 2(3) by auto
qed simp

declare chunk_loop.simps [simp del]

definition parse_chunked :: "stold_fn \<Rightarrow> parse_errno option \<Rightarrow> 'r parser \<Rightarrow> 'r outcome" where
  "parse_chunked stold err p = chunk_loop stold 0 err p"

definition set_read_body_state :: "stold_fn \<Rightarrow> parse_errno option \<Rightarrow> 'r parser \<Rightarrow> 'r turn" where
  "set_read_body_state stold err p =
     (case map_find (p_headers p) ''Content-Length'' of
        Some v \<Rightarrow>
          (case ston_size stold v 10 of
             Inl e \<Rightarrow> Throw e
           | Inr n \<Rightarrow> Done True err (parse_length (p\<lparr>p_content_length := n\<rparr>)))
      | None \<Rightarrow>
          if p_version p = v11 then
            (if map_find (p_headers p) ''Transfer-Encoding'' \<noteq> Some ''chunked''
             then Done True err (p\<lparr>p_state := Finished\<rparr>)
             else case parse_chunked stold err (p\<lparr>p_state := Chunked_wait_size\<rparr>) of
                    Inl e \<Rightarrow> Throw e
                  | Inr (_, err, p) \<Rightarrow> Done True err p)
          else Done True err (p\<lparr>p_state := Finished\<rparr>))"

definition state_handler_reading_headers :: "stold_fn \<Rightarrow> string \<Rightarrow> parse_errno option \<Rightarrow> 'r parser \<Rightarrow> 'r turn" where
  "state_handler_reading_headers stold line_buf err p =
     (if line_buf = [] then set_read_body_state stold err p
      else
        case find_char (CHR '':'') line_buf of
          None \<Rightarrow> Done False (Some IHL) (reset p)
        | Some colon_index \<Rightarrow>
            (case header_line line_buf colon_index err p of
               Inl e \<Rightarrow> Throw e
             | Inr (err, p) \<Rightarrow> if err \<noteq> None then Done False err p else Next 0 err p))"

text \<open>One line of the head of the message, already removed from the buffer.\<close>

definition head_line :: "stold_fn \<Rightarrow> parse_errno option \<Rightarrow> string \<Rightarrow> 'r parser \<Rightarrow> 'r turn" where
  "head_line stold err line_buf p =
     (case p_state p of
        Waiting_request \<Rightarrow>
          (case p_begin p of
             None \<Rightarrow> Throw Runtime_error
           | Some func \<Rightarrow>
               (case func line_buf (p_owner p) of
                  Inl e \<Rightarrow> Throw e
                | Inr (v, e, owner) \<Rightarrow>
                    let err = set_error err e; p = p\<lparr>p_version := v, p_owner := owner\<rparr> in
                    if err \<noteq> None then Done False err (p\<lparr>p_src := []\<rparr>)
                    else Next 0 err (p\<lparr>p_state := Reading_headers\<rparr>)))
      | Reading_headers \<Rightarrow> state_handler_reading_headers stold line_buf err p
      | _ \<Rightarrow> Next 0 err p)"

lemma set_read_body_ends: "set_read_body_state stold err p \<noteq> Next n e q"
  by (simp add: set_read_body_state_def split: option.splits sum.splits)

lemma reading_headers_Next:
  assumes "state_handler_reading_headers stold line err p = Next n e q"
  obtains c where "find_char (CHR '':'') line = Some c" "header_line line c err p = Inr (None, q)"
    "e = None" "line \<noteq> []"
  using assms that
  by (auto simp: state_handler_reading_headers_def set_read_body_ends split: if_splits option.splits sum.splits)

lemma head_line_Next:
  assumes "head_line stold err line p = Next n e q"
  obtains (first) func v e' owner where "p_state p = Waiting_request" "p_begin p = Some func"
      "func line (p_owner p) = Inr (v, e', owner)" "set_error err e' = None" "e = None"
      "q = p\<lparr>p_version := v, p_owner := owner, p_state := Reading_headers\<rparr>"
    | (header) c where "p_state p = Reading_headers" "header_line line c err p = Inr (None, q)" "e = None"
    | (other) "p_state p \<noteq> Waiting_request" "p_state p \<noteq> Reading_headers" "q = p" "e = err"
proof (cases "p_state p")
  case Waiting_request
  with assms obtain func where func: "p_begin p = Some func"
    by (cases "p_begin p") (simp_all add: head_line_def)
  with assms Waiting_request obtain v e' owner where res: "func line (p_owner p) = Inr (v, e', owner)"
    by (cases "func line (p_owner p)") (auto simp: head_line_def)
  from first [OF Waiting_request func res] assms Waiting_request func res show ?thesis
    by (cases "set_error err e'") (simp_all add: head_line_def)
next
  case Reading_headers
  with assms have "state_handler_reading_headers stold line err p = Next n e q"
    by (simp add: head_line_def)
  from reading_headers_Next [OF this] obtain c where "header_line line c err p = Inr (None, q)" "e = None"
    by metis
  from header [OF Reading_headers this] show ?thesis .
qed (rule other; use assms in \<open>simp add: head_line_def\<close>)+

lemma header_line_src: "header_line line c err p = Inr (e, q) \<Longrightarrow> p_src q = p_src p"
  by (auto simp: header_line_def dest: header_insert_src)

lemma head_line_src: "head_line stold err line p = Next n err' q \<Longrightarrow> p_src q = p_src p"
  by (auto elim!: head_line_Next dest: header_line_src)

function head_loop :: "stold_fn \<Rightarrow> parse_errno option \<Rightarrow> 'r parser \<Rightarrow> 'r outcome" where
  "head_loop stold err p =
     (case find_sub CRLF (p_src p) of
        None \<Rightarrow>
          Inr (False,
            if length (p_src p) < 1024 then err
            else if p_state p = Waiting_request then Some RLTL
            else if p_state p = Reading_headers then Some HLTL else err, p)
      | Some pos \<Rightarrow>
          (case head_line stold err (substr 0 pos (p_src p)) (p\<lparr>p_src := drop (pos + 2) (p_src p)\<rparr>) of
             Throw e \<Rightarrow> Inl e
           | Done r err q \<Rightarrow> Inr (r, err, q)
           | Next _ err q \<Rightarrow> if p_src q = [] then Inr (False, err, q) else head_loop stold err q))"
  by pat_completeness auto
termination
proof (relation "measure (\<lambda>(stold, err, p). length (p_src p))", goal_cases)
  case (2 stold err p pos n err' q)
  then have "p_src q = drop (pos + 2) (p_src p)" by (auto dest!: head_line_src)
  moreover have "pos + 2 \<le> length (p_src p)" using find_sub_length [OF 2(1)] by (simp add: CRLF_def)
  ultimately show ?case using 2(3) by auto
qed simp

declare head_loop.simps [simp del]

definition parse_header :: "stold_fn \<Rightarrow> parse_errno option \<Rightarrow> 'r parser \<Rightarrow> 'r outcome" where
  "parse_header stold err p = head_loop stold err p"

section \<open>The public operations\<close>

definition parser_append :: "stold_fn \<Rightarrow> string \<Rightarrow> 'r parser \<Rightarrow> 'r outcome" where
  "parser_append stold buf p =
     (if buf = [] then Inr (False, Some IDE, p)
      else if p_state p = Finished then Inr (False, Some RE, p)
      else
        let p = p\<lparr>p_src := p_src p @ buf\<rparr> in
        if p_state p = Waiting_request \<or> p_state p = Reading_headers then parse_header stold None p
        else if p_state p = Reading_length then Inr (True, None, parse_length p)
        else parse_chunked stold None p)"

definition append_or_throw :: "stold_fn \<Rightarrow> string \<Rightarrow> 'r parser \<Rightarrow> (bool \<times> 'r parser) res" where
  "append_or_throw stold buf p =
     res_bind (parser_append stold buf p)
       (\<lambda>(r, err, p). case err of Some e \<Rightarrow> Inl (System_error (errno_value e)) | None \<Rightarrow> Inr (r, p))"

definition take_partial_body :: "nat \<Rightarrow> 'r parser \<Rightarrow> string \<times> 'r parser" where
  "take_partial_body sz p =
     (if sz = 0 then ([], p)
      else
        let sz = (if length (p_body p) < sz then length (p_body p) else sz)
        in (take sz (p_body p), p\<lparr>p_body := drop sz (p_body p)\<rparr>))"

definition take_body :: "'r parser \<Rightarrow> string \<times> 'r parser" where
  "take_body p = (p_body p, p\<lparr>p_body := []\<rparr>)"

definition can_read_from_device :: "'r parser \<Rightarrow> bool" where
  "can_read_from_device p \<longleftrightarrow>
     p_state p \<noteq> Waiting_request \<and> p_state p \<noteq> Reading_headers \<and> p_state p \<noteq> Finished"

definition is_finished :: "'r parser \<Rightarrow> bool" where
  "is_finished p \<longleftrightarrow> p_state p = Finished"

definition is_eof :: "'r parser \<Rightarrow> bool" where
  "is_eof p \<longleftrightarrow> p_body p = [] \<and> \<not> can_read_from_device p"

section \<open>The head arrives in fragments\<close>

lemma find_sub_append: "find_sub p s = Some n \<Longrightarrow> find_sub p (s @ b) = Some n"
proof (induction s arbitrary: n)
  case Nil
  then show ?case by (cases b) (auto split: if_splits)
next
  case (Cons x xs)
  have "prefix p (x # xs @ b)" if "prefix p (x # xs)"
    using that by (metis append_Cons prefix_append prefix_def)
  moreover have "\<not> prefix p (x # xs @ b)" if "\<not> prefix p (x # xs)" "find_sub p xs = Some k" for k
  proof -
    have "length p \<le> length (x # xs)" using find_sub_length [OF that(2)] by simp
    with that(1) show ?thesis by (metis append_Cons prefix_append_lenI)
  qed
  ultimately show ?case using Cons by (auto split: if_splits)
qed

lemma header_insert_src_update:
  "header_insert key val err (p\<lparr>p_src := x\<rparr>) = Inr (e, q) \<Longrightarrow>
   header_insert key val err (p\<lparr>p_src := y\<rparr>) = Inr (e, q\<lparr>p_src := y\<rparr>)"
  by (auto simp: header_insert_def split: if_splits option.splits prod.splits)

lemma header_line_src_update:
  "header_line line n err (p\<lparr>p_src := x\<rparr>) = Inr (e, q) \<Longrightarrow>
   header_line line n err (p\<lparr>p_src := y\<rparr>) = Inr (e, q\<lparr>p_src := y\<rparr>)"
  unfolding header_line_def by (rule header_insert_src_update)

lemma reading_headers_src_update:
  assumes "state_handler_reading_headers stold line err (p\<lparr>p_src := x\<rparr>) = Next n e q"
  shows "state_handler_reading_headers stold line err (p\<lparr>p_src := y\<rparr>) = Next n e (q\<lparr>p_src := y\<rparr>)"
proof (cases "line = []")
  case True
  with assms show ?thesis by (simp add: state_handler_reading_headers_def set_read_body_ends)
next
  case False
  with assms obtain c where c: "find_char (CHR '':'') line = Some c"
    by (auto simp: state_handler_reading_headers_def split: option.splits)
  with assms False obtain e' q' where "header_line line c err (p\<lparr>p_src := x\<rparr>) = Inr (e', q')"
    by (auto simp: state_handler_reading_headers_def split: sum.splits)
  with assms False c header_line_src_update [OF this, of y] show ?thesis
    by (simp add: state_handler_reading_headers_def split: if_splits)
qed

lemma head_line_src_update:
  assumes "head_line stold err line (p\<lparr>p_src := x\<rparr>) = Next n e q"
  shows "head_line stold err line (p\<lparr>p_src := y\<rparr>) = Next n e (q\<lparr>p_src := y\<rparr>)"
proof (cases "p_state p")
  case Waiting_request
  with assms show ?thesis
    by (auto simp: head_line_def Let_def split: option.splits prod.splits if_splits sum.splits)
next
  case Reading_headers
  with assms reading_headers_src_update show ?thesis by (simp add: head_line_def)
qed (use assms in \<open>auto simp: head_line_def\<close>)

lemma head_line_Next_error: "head_line stold None line p = Next n e q \<Longrightarrow> e = None"
  by (auto elim: head_line_Next)

lemma set_read_body_Done: "set_read_body_state stold err p = Done r e q \<Longrightarrow> r"
  by (auto simp: set_read_body_state_def split: option.splits sum.splits if_splits)

lemma head_line_Done_error: "head_line stold None line p = Done False e q \<Longrightarrow> e \<noteq> None"
  by (auto simp: head_line_def state_handler_reading_headers_def Let_def
      dest: set_read_body_Done dest!: sym [of "Some _"] split: pstate.splits if_splits option.splits sum.splits prod.splits)

definition in_head :: "'r parser \<Rightarrow> bool" where
  "in_head p \<longleftrightarrow> p_state p = Waiting_request \<or> p_state p = Reading_headers"

lemma header_insert_state: "header_insert key val err p = Inr (e, q) \<Longrightarrow> p_state q = p_state p"
  by (auto simp: header_insert_def split: if_splits option.splits prod.splits)

lemma head_line_in_head: "head_line stold err line p = Next n e q \<Longrightarrow> in_head p \<Longrightarrow> in_head q"
  by (auto elim!: head_line_Next simp: in_head_def header_line_def, drule header_insert_state, simp)

lemma head_loop_in_head:
  "head_loop stold err p = Inr (False, None, q) \<Longrightarrow> err = None \<Longrightarrow> in_head p \<Longrightarrow> in_head q"
proof (induction stold err p arbitrary: q rule: head_loop.induct)
  case (1 stold err p)
  show ?case
  proof (cases "find_sub CRLF (p_src p)")
    case None
    with 1(2,4) show ?thesis by (simp add: head_loop.simps [of stold err p] in_head_def)
  next
    case (Some pos)
    let ?p = "p\<lparr>p_src := drop (pos + 2) (p_src p)\<rparr>" and ?line = "substr 0 pos (p_src p)"
    show ?thesis
    proof (cases "head_line stold err ?line ?p")
      case (Throw e)
      with Some 1(2) show ?thesis by (simp add: head_loop.simps [of stold err p])
    next
      case (Done r e q')
      with Some 1(2) have "r = False \<and> e = None" by (simp add: head_loop.simps [of stold err p])
      with Done 1(3) head_line_Done_error [of stold ?line ?p e q'] show ?thesis by simp
    next
      case (Next n e q')
      then have "e = None" using head_line_Next_error 1(3) by blast
      moreover have "in_head q'" using head_line_in_head [OF Next] 1(4) by (simp add: in_head_def)
      ultimately show ?thesis
        using 1(1) [OF Some Next] 1(2) Some Next
        by (auto simp: head_loop.simps [of stold err p] split: if_splits)
    qed
  qed
qed

lemma head_loop_append:
  "head_loop stold err p = Inr (False, None, q) \<Longrightarrow> err = None \<Longrightarrow> b \<noteq> [] \<Longrightarrow>
   head_loop stold None (p\<lparr>p_src := p_src p @ b\<rparr>) = head_loop stold None (q\<lparr>p_src := p_src q @ b\<rparr>)"
proof (induction stold err p arbitrary: q rule: head_loop.induct)
  case (1 stold err p)
  show ?case
  proof (cases "find_sub CRLF (p_src p)")
    case None
    with 1(2) show ?thesis by (simp add: head_loop.simps [of stold err p])
  next
    case (Some pos)
    let ?p = "p\<lparr>p_src := drop (pos + 2) (p_src p)\<rparr>" and ?line = "substr 0 pos (p_src p)"
    have pos: "pos + 2 \<le> length (p_src p)" using find_sub_length [OF Some] by (simp add: CRLF_def)
    have find: "find_sub CRLF (p_src p @ b) = Some pos" by (rule find_sub_append [OF Some])
    have line: "substr 0 pos (p_src p @ b) = ?line" "drop (pos + 2) (p_src p @ b) = drop (pos + 2) (p_src p) @ b"
      using pos by (simp_all add: substr_def)
    show ?thesis
    proof (cases "head_line stold err ?line ?p")
      case (Throw e)
      with Some 1(2) show ?thesis by (simp add: head_loop.simps [of stold err p])
    next
      case (Done r e q')
      with Some 1(2) have "r = False \<and> e = None" by (simp add: head_loop.simps [of stold err p])
      with Done 1(3) head_line_Done_error [of stold ?line ?p e q'] show ?thesis by simp
    next
      case (Next n e q')
      have e: "e = None" using head_line_Next_error Next 1(3) by blast
      have src: "p_src q' = drop (pos + 2) (p_src p)" using head_line_src [OF Next] by simp
      have "head_line stold None ?line (p\<lparr>p_src := drop (pos + 2) (p_src p) @ b\<rparr>) =
          Next n None (q'\<lparr>p_src := p_src q' @ b\<rparr>)"
        using head_line_src_update [OF Next, of "drop (pos + 2) (p_src p) @ b"] e 1(3) by (simp add: src)
      then have left: "head_loop stold None (p\<lparr>p_src := p_src p @ b\<rparr>) =
          head_loop stold None (q'\<lparr>p_src := p_src q' @ b\<rparr>)"
        using find line 1(4) by (simp add: head_loop.simps [of stold None "p\<lparr>p_src := p_src p @ b\<rparr>"])
      show ?thesis
      proof (cases "p_src q' = []")
        case True
        with Some Next e 1(2) have "q = q'" by (simp add: head_loop.simps [of stold err p])
        with left show ?thesis by simp
      next
        case False
        with Some Next 1(2) have "head_loop stold e q' = Inr (False, None, q)"
          by (simp add: head_loop.simps [of stold err p])
        from 1(1) [OF Some Next False this e 1(4)] left show ?thesis by simp
      qed
    qed
  qed
qed

lemma parser_append_fragments:
  assumes "in_head p" "a \<noteq> []" "b \<noteq> []" "parser_append stold a p = Inr (False, None, q)"
  shows "parser_append stold (a @ b) p = parser_append stold b q"
proof -
  let ?p = "p\<lparr>p_src := p_src p @ a\<rparr>"
  have loop: "head_loop stold None ?p = Inr (False, None, q)"
    using assms by (auto simp: parser_append_def parse_header_def in_head_def split: if_splits)
  have "in_head ?p" using assms(1) by (simp add: in_head_def)
  from head_loop_in_head [OF loop refl this] have "in_head q" .
  moreover have "head_loop stold None (?p\<lparr>p_src := p_src ?p @ b\<rparr>) =
      head_loop stold None (q\<lparr>p_src := p_src q @ b\<rparr>)"
    by (rule head_loop_append [OF loop refl assms(3)])
  ultimately show ?thesis
    using assms(1-3) by (auto simp: parser_append_def parse_header_def in_head_def)
qed

section \<open>Bodies of a known length\<close>

lemma parse_length_append:
  assumes "p_src p = f" "length (p_body p) < p_content_length p" "p_content_length p < 2 ^ 64"
  shows "parse_length p =
    p\<lparr>p_body := take (p_content_length p) (p_body p @ f), p_src := [],
      p_state := (if length (p_body p) + length f < p_content_length p then Reading_length else Finished)\<rparr>"
  using assms by (auto simp: parse_length_def Let_def min_def)

text \<open>Appending a list of fragments, as the reader of a connection does.\<close>

fun feed :: "stold_fn \<Rightarrow> string list \<Rightarrow> 'r parser \<Rightarrow> 'r parser res" where
  "feed stold [] p = Inr p"
| "feed stold (f # fs) p = res_bind (parser_append stold f p) (\<lambda>(r, err, q). feed stold fs q)"

lemma feed_length:
  "p_state p = Reading_length \<Longrightarrow> p_src p = [] \<Longrightarrow> p_content_length p < 2 ^ 64 \<Longrightarrow>
   list_all (\<lambda>f. f \<noteq> []) fs \<Longrightarrow> length (p_body p) + length (concat (butlast fs)) < p_content_length p \<Longrightarrow>
   feed stold fs p = Inr (p\<lparr>p_body := take (p_content_length p) (p_body p @ concat fs),
     p_state := (if length (p_body p) + length (concat fs) < p_content_length p then Reading_length else Finished)\<rparr>)"
proof (induction fs arbitrary: p)
  case Nil
  then show ?case by simp
next
  case (Cons f fs)
  have app: "parser_append stold f p = Inr (True, None, p\<lparr>p_body := take (p_content_length p) (p_body p @ f),
      p_state := (if length (p_body p) + length f < p_content_length p then Reading_length else Finished)\<rparr>)"
    using Cons.prems parse_length_append [of "p\<lparr>p_src := f\<rparr>" f]
    by (simp add: parser_append_def)
  show ?case
  proof (cases "fs = []")
    case True
    then show ?thesis by (simp add: app)
  next
    case False
    then have less: "length (p_body p) + length f < p_content_length p" using Cons.prems(5) by simp
    let ?q = "p\<lparr>p_body := p_body p @ f\<rparr>"
    have "parser_append stold f p = Inr (True, None, ?q)"
      using app less Cons.prems(1) by simp
    moreover have "feed stold fs ?q = Inr (?q\<lparr>p_body := take (p_content_length ?q) (p_body ?q @ concat fs),
     p_state := (if length (p_body ?q) + length (concat fs) < p_content_length ?q then Reading_length else Finished)\<rparr>)"
      using Cons.prems False by (intro Cons.IH) auto
    ultimately show ?thesis by (simp add: add.assoc)
  qed
qed

section \<open>Chunks\<close>

lemma chunk_loop_line:
  assumes "p_src p = line @ CRLF @ rest" "free_of CRLF line"
  shows "chunk_loop stold sz err p =
    (case chunk_line stold sz err line (p\<lparr>p_src := rest\<rparr>) of
       Throw e \<Rightarrow> Inl e
     | Done r err q \<Rightarrow> Inr (r, err, q)
     | Next sz err q \<Rightarrow> if p_src q = [] then Inr (False, err, q) else chunk_loop stold sz err q)"
proof -
  have "find_sub CRLF (p_src p) = Some (length line)"
    unfolding assms(1) by (rule find_sub_free [OF assms(2)]) (simp add: CRLF_def)
  then show ?thesis
    by (simp add: chunk_loop.simps [of stold sz err p] assms(1) substr_def CRLF_def)
qed

lemma chunk_loop_chunk:
  assumes "p_state p = Chunked_wait_size" "p_src p = size_line @ CRLF @ data @ CRLF @ rest"
    and "free_of CRLF size_line" "CHR '';'' \<notin> set size_line" "length size_line \<le> 16"
    and "ston_size stold size_line 16 = Inr (length data)"
    and "free_of CRLF data" "data \<noteq> []"
  shows "chunk_loop stold sz err p =
    (let q = p\<lparr>p_src := rest, p_body := p_body p @ data\<rparr>
     in if rest = [] then Inr (False, err, q) else chunk_loop stold (length data) err q)"
proof -
  let ?q = "p\<lparr>p_src := data @ CRLF @ rest, p_state := Chunked_wait_content\<rparr>"
  have same: "p\<lparr>p_src := rest, p_state := Chunked_wait_size, p_body := p_body p @ data\<rparr> =
      p\<lparr>p_src := rest, p_body := p_body p @ data\<rparr>"
    using assms(1) by (cases p) simp
  have "find_char (CHR '';'') size_line = None" using assms(4) by (simp add: find_char_None)
  then have "chunk_loop stold sz err p = chunk_loop stold (length data) err ?q"
    using assms by (simp add: chunk_loop_line [OF assms(2,3)] chunk_line_def)
  also have "\<dots> = (let q = p\<lparr>p_src := rest, p_body := p_body p @ data\<rparr>
     in if rest = [] then Inr (False, err, q) else chunk_loop stold (length data) err q)"
    using same by (simp add: chunk_loop_line [of ?q data rest, OF _ assms(7)] chunk_line_def Let_def)
  finally show ?thesis .
qed

lemma free_of_CRLF: "CHR 0x0D \<notin> set s \<Longrightarrow> free_of CRLF s"
  by (induction s) (auto simp: free_of_Cons CRLF_def)

lemma chunk_loop_end:
  assumes "p_state p = Chunked_wait_size" "p_src p = ''0'' @ CRLF @ CRLF"
  shows "chunk_loop stold sz err p = Inr (True, err, p\<lparr>p_state := Finished, p_src := []\<rparr>)"
proof -
  have zero: "ston_size stold ''0'' 16 = Inr 0"
    using ston_size_print [of 16 0 stold] by (simp add: print_base.simps [of 16 0] digit_char_def)
  let ?q = "p\<lparr>p_src := CRLF, p_state := Chunked_wait_headers\<rparr>"
  have "free_of CRLF ''0''" by (rule free_of_CRLF) simp
  then have "chunk_loop stold sz err p = chunk_loop stold 0 err ?q"
    using assms zero by (simp add: chunk_loop_line [OF assms(2)] chunk_line_def) (simp add: CRLF_def)
  also have "\<dots> = Inr (True, err, p\<lparr>p_state := Finished, p_src := []\<rparr>)"
    by (simp add: chunk_loop_line [of ?q "[]" "[]"] chunk_line_def)
  finally show ?thesis .
qed

section \<open>Properties\<close>

text \<open>C6.
  How the head of a message is cut into fragments does not matter: appending one that
  leaves the head incomplete and then another is appending both at once.
\<close>

theorem parse_head_fragments:
  assumes "in_head p" "a \<noteq> []" "b \<noteq> []" "parser_append stold a p = Inr (False, None, q)"
  shows "parser_append stold (a @ b) p = parser_append stold b q"
  by (rule parser_append_fragments [OF assms])

theorem parse_head_fragments_witness:
  "parser_append (\<lambda>s. Inl Invalid_argument) (''GET / H'' @ ''TTP'') (new_parser ()) =
   parser_append (\<lambda>s. Inl Invalid_argument) ''TTP'' ((new_parser ())\<lparr>p_src := ''GET / H''\<rparr>)"
  by (rule parse_head_fragments)
    (simp_all add: in_head_def new_parser_def parser_append_def parse_header_def head_loop.simps CRLF_def)

text \<open>
  A body of known length is complete exactly when its bytes have arrived, however they are
  cut into fragments, and bytes behind it are dropped.
\<close>

theorem length_body_complete:
  assumes "p_state p = Reading_length" "p_src p = []" "p_content_length p < 2 ^ 64"
    "list_all (\<lambda>f. f \<noteq> []) fs" "length (p_body p) + length (concat (butlast fs)) < p_content_length p"
  shows "feed stold fs p = Inr (p\<lparr>p_body := take (p_content_length p) (p_body p @ concat fs),
    p_state := (if length (p_body p) + length (concat fs) < p_content_length p
                then Reading_length else Finished)\<rparr>)"
  by (rule feed_length [OF assms])

theorem length_body_complete_witness:
  "feed (\<lambda>s. Inl Invalid_argument) [''ab'', ''cdef''] ((new_parser ())\<lparr>p_state := Reading_length, p_content_length := 5\<rparr>) =
   Inr ((new_parser ())\<lparr>p_state := Finished, p_content_length := 5, p_body := ''abcde''\<rparr>)"
  using length_body_complete [of "(new_parser ())\<lparr>p_state := Reading_length, p_content_length := 5\<rparr>"
      "[''ab'', ''cdef'']" "\<lambda>s. Inl Invalid_argument"]
  by (simp add: new_parser_def)

text \<open>
  Taking part of the body while it is still arriving breaks the count: when the remaining
  bytes of the message have come, the parser still waits for more.
\<close>

theorem take_partial_body_stalls:
  assumes "p_state p = Reading_length" "p_src p = []" "p_content_length p < 2 ^ 64"
    and "0 < k" "p_body p \<noteq> []" "length (p_body p) + length f = p_content_length p" "f \<noteq> []"
  shows "\<exists>q. parser_append stold f (snd (take_partial_body k p)) = Inr (True, None, q) \<and>
    p_state q = Reading_length \<and> \<not> is_finished q"
proof -
  let ?p = "snd (take_partial_body k p)"
  have "p_state ?p = Reading_length" "p_src ?p = []" "p_content_length ?p = p_content_length p"
    "length (p_body ?p) < length (p_body p)"
    using assms by (auto simp: take_partial_body_def Let_def)
  with assms parse_length_append [of "?p\<lparr>p_src := f\<rparr>" f] show ?thesis
    by (simp add: parser_append_def is_finished_def)
qed

theorem take_partial_body_stalls_witness:
  "\<exists>q. parser_append (\<lambda>s. Inl Invalid_argument) ''cd'' (snd (take_partial_body 1
      ((new_parser ())\<lparr>p_state := Reading_length, p_content_length := 4, p_body := ''ab''\<rparr>))) = Inr (True, None, q) \<and>
    p_state q = Reading_length \<and> \<not> is_finished q"
  by (rule take_partial_body_stalls) (simp_all add: new_parser_def)

text \<open>
  A chunk that is cut between its size and its data corrupts the body: the next size line
  is taken for data and the message never ends, where the same bytes in one piece finish it.
\<close>

theorem chunk_split_corrupts:
  "(\<exists>p. feed stold [''5'' @ CRLF, ''hello'' @ CRLF, ''0'' @ CRLF @ CRLF]
         ((new_parser ())\<lparr>p_state := Chunked_wait_size\<rparr>) = Inr p \<and>
      p_body p = ''hello0'' \<and> \<not> is_finished p) \<and>
   (\<exists>p. feed stold [''5'' @ CRLF @ ''hello'' @ CRLF @ ''0'' @ CRLF @ CRLF]
         ((new_parser ())\<lparr>p_state := Chunked_wait_size\<rparr>) = Inr p \<and>
      p_body p = ''hello'' \<and> is_finished p)"
proof -
  have five: "ston_size stold ''5'' 16 = Inr 5"
    using ston_size_print [of 16 5 stold] by (simp add: print_base.simps [of 16 5] digit_char_def)
  have zero: "ston_size stold ''0'' 16 = Inr 0"
    using ston_size_print [of 16 0 stold] by (simp add: print_base.simps [of 16 0] digit_char_def)
  show ?thesis
    by (simp add: parser_append_def parse_chunked_def chunk_loop.simps chunk_line_def CRLF_def
        new_parser_def is_finished_def substr_def five zero)
qed

end
