(* ===== verification/Http_Helper.thy ===== *)
theory Http_Helper
  imports Http_Parser
begin

text \<open>
  Generation of HTTP messages: the common helper (\<^verbatim>\<open>libgs/http/detail/helper_base.h\<close>), the
  response head of the server (\<^verbatim>\<open>http/server/detail/response_helper.h\<close>), the request head of
  the client (\<^verbatim>\<open>http/client/detail/request_helper.h\<close>) and the cookies they print
  (\<^verbatim>\<open>http/detail/cookie.h\<close>). What is generated is read back with the parser.
\<close>

section \<open>Cookies\<close>

record cookie =
  ck_value :: string
  ck_attributes :: "string http_map"

definition new_cookie :: cookie where
  "new_cookie = \<lparr>ck_value = [], ck_attributes = map_assign [] ''Path'' ''/''\<rparr>"

definition cookie_of :: "string \<Rightarrow> cookie" where
  "cookie_of v = \<lparr>ck_value = v, ck_attributes = []\<rparr>"

definition set_cookie_value :: "string \<Rightarrow> cookie \<Rightarrow> cookie" where
  "set_cookie_value v c = c\<lparr>ck_value := v\<rparr>"

definition set_attribute :: "string \<Rightarrow> string \<Rightarrow> cookie \<Rightarrow> cookie" where
  "set_attribute key v c = c\<lparr>ck_attributes := set_map (ck_attributes c) key v\<rparr>"

definition unset_attribute :: "string \<Rightarrow> cookie \<Rightarrow> cookie" where
  "unset_attribute key c = c\<lparr>ck_attributes := unset_map (ck_attributes c) key\<rparr>"

definition attribute :: "cookie \<Rightarrow> string \<Rightarrow> string res" where
  "attribute c key = (case map_find (ck_attributes c) key of None \<Rightarrow> Inl Runtime_error | Some v \<Rightarrow> Inr v)"

definition attribute_or :: "cookie \<Rightarrow> string \<Rightarrow> string \<Rightarrow> string" where
  "attribute_or c key d = (case map_find (ck_attributes c) key of None \<Rightarrow> d | Some v \<Rightarrow> v)"

section \<open>The common helper\<close>

datatype hstate = Header | Content_length | Chunk | Finish

record helper_base =
  h_headers :: "string http_map"
  h_chunk_attributes :: "string list"
  h_content_length :: nat
  h_state :: hstate

definition default_headers :: "string http_map" where
  "default_headers = [(''Content-Type'', ''text/plain; charset=utf-8'')]"

definition new_helper :: helper_base where
  "new_helper = \<lparr>h_headers = default_headers, h_chunk_attributes = [], h_content_length = 0, h_state = Header\<rparr>"

definition set_header :: "string \<Rightarrow> string \<Rightarrow> helper_base \<Rightarrow> helper_base" where
  "set_header key v h = h\<lparr>h_headers := set_map (h_headers h) key v\<rparr>"

definition unset_header :: "string \<Rightarrow> helper_base \<Rightarrow> helper_base" where
  "unset_header key h = h\<lparr>h_headers := unset_map (h_headers h) key\<rparr>"

definition clear_headers :: "helper_base \<Rightarrow> helper_base" where
  "clear_headers h = h\<lparr>h_headers := default_headers\<rparr>"

definition clear_chunk_attributes :: "helper_base \<Rightarrow> helper_base" where
  "clear_chunk_attributes h = h\<lparr>h_chunk_attributes := []\<rparr>"

definition helper_reset :: "helper_base \<Rightarrow> helper_base" where
  "helper_reset h = (clear_chunk_attributes (clear_headers h))\<lparr>h_state := Header\<rparr>"

definition header_lines :: "string http_map \<Rightarrow> string" where
  "header_lines m = concat (map (\<lambda>(key, v). key @ '': '' @ v @ CRLF) m)"

definition use_content_length :: "nat \<Rightarrow> helper_base \<Rightarrow> helper_base" where
  "use_content_length body_size h =
     h\<lparr>h_content_length := body_size, h_state := Content_length,
       h_headers := map_assign (h_headers h) ''Content-Length'' (to_string body_size)\<rparr>"

text \<open>
  The version number, such as \<open>0x0100\<close> for HTTP/1.0, is compared with the floating point
  number 1.0.
\<close>

definition header_data :: "stold_fn \<Rightarrow> version \<Rightarrow> nat \<Rightarrow> helper_base \<Rightarrow> (string \<times> helper_base) res" where
  "header_data stold version body_size h =
     (if h_state h \<noteq> Header then Inr ([], h)
      else
        res_bind
          (case map_find (h_headers h) ''Content-Length'' of
             None \<Rightarrow>
               Inr (if 1 < unat version then
                      (case map_find (h_headers h) ''Transfer-Encoding'' of
                         Some v \<Rightarrow> if str_to_lower v = ''chunked'' then h\<lparr>h_state := Chunk\<rparr>
                                   else use_content_length body_size h
                       | None \<Rightarrow> use_content_length body_size h)
                    else use_content_length body_size h)
           | Some v \<Rightarrow>
               res_bind (ston_size stold v 10)
                 (\<lambda>n. Inr (h\<lparr>h_content_length := n, h_state := Content_length\<rparr>)))
          (\<lambda>h. Inr (header_lines (h_headers h), h)))"

definition body_data :: "string \<Rightarrow> helper_base \<Rightarrow> string \<times> helper_base" where
  "body_data buf h =
     (if h_state h = Header \<or> h_state h = Finish then ([], h)
      else if h_state h = Content_length then
        (if length buf < h_content_length h
         then (buf, h\<lparr>h_content_length := h_content_length h - length buf\<rparr>)
         else (take (h_content_length h) buf, h\<lparr>h_content_length := 0, h_state := Finish\<rparr>))
      else
        if h_chunk_attributes h = [] then (print_hex_upper (length buf) @ CRLF @ buf @ CRLF, h)
        else
          let attributes = butlast (concat (map (\<lambda>a. a @ '';'') (h_chunk_attributes h)))
          in (print_hex_upper (length buf) @ ''; '' @ attributes @ CRLF @ buf @ CRLF,
              h\<lparr>h_chunk_attributes := []\<rparr>))"

definition chunk_end_data :: "string http_map \<Rightarrow> helper_base \<Rightarrow> string \<times> helper_base" where
  "chunk_end_data headers h =
     (if h_state h \<noteq> Chunk then ([], h)
      else (''0'' @ CRLF @ header_lines headers @ CRLF, h\<lparr>h_state := Finish\<rparr>))"

section \<open>The response head\<close>

record response_helper =
  rh_request_headers :: "string http_map"
  rh_helper :: helper_base
  rh_version :: version
  rh_status :: status
  rh_cookies :: "cookie http_map"

definition new_response :: "version \<Rightarrow> string http_map \<Rightarrow> response_helper" where
  "new_response v request_headers =
     \<lparr>rh_request_headers = request_headers, rh_helper = new_helper, rh_version = v, rh_status = 200,
      rh_cookies = []\<rparr>"

definition request_chunked :: "response_helper \<Rightarrow> bool" where
  "request_chunked r =
     (if rh_version r < v11 then False
      else case map_find (rh_request_headers r) ''Transfer-Encoding'' of
             None \<Rightarrow> False | Some v \<Rightarrow> str_to_lower v = ''chunked'')"

definition set_status :: "status \<Rightarrow> response_helper \<Rightarrow> response_helper res" where
  "set_status s r = res_bind (status_check s True) (\<lambda>_. Inr (r\<lparr>rh_status := s\<rparr>))"

definition response_set_header :: "string \<Rightarrow> string \<Rightarrow> response_helper \<Rightarrow> response_helper" where
  "response_set_header key v r = r\<lparr>rh_helper := set_header key v (rh_helper r)\<rparr>"

definition set_cookie :: "string \<Rightarrow> cookie \<Rightarrow> response_helper \<Rightarrow> response_helper" where
  "set_cookie key c r = r\<lparr>rh_cookies := set_map (rh_cookies r) key c\<rparr>"

definition set_redirect :: "string \<Rightarrow> redirect \<Rightarrow> response_helper \<Rightarrow> response_helper res" where
  "set_redirect url type r =
     res_bind (set_status (redirect_status type) r) (\<lambda>r. Inr (response_set_header ''Location'' url r))"

definition set_cookie_line :: "string \<Rightarrow> cookie \<Rightarrow> string" where
  "set_cookie_line ckey c =
     butlast (''set-cookie: '' @ ckey @ ''='' @ ck_value c @ '';'' @
       concat (map (\<lambda>(akey, attr). akey @ ''='' @ attr @ '';'') (ck_attributes c))) @ CRLF"

definition response_header_data ::
    "stold_fn \<Rightarrow> nat \<Rightarrow> response_helper \<Rightarrow> (string \<times> response_helper) res" where
  "response_header_data stold body_size r =
     (if h_state (rh_helper r) \<noteq> Header then Inr ([], r)
      else
        res_bind (version_string (rh_version r)) (\<lambda>vs.
        res_bind (status_description (rh_status r)) (\<lambda>sd.
          let line = ''HTTP/'' @ vs @ '' '' @ to_string (rh_status r) @ '' '' @ sd @ CRLF;
              h = unset_header ''set-cookie'' (rh_helper r);
              h = (if request_chunked r then set_header ''Transfer-Encoding'' ''chunked'' h else h)
          in res_bind (header_data stold v11 body_size h) (\<lambda>(lines, h).
               Inr (line @ lines @ concat (map (\<lambda>(k, c). set_cookie_line k c) (rh_cookies r)) @ CRLF,
                    r\<lparr>rh_helper := h\<rparr>)))))"

definition response_reset :: "response_helper \<Rightarrow> response_helper" where
  "response_reset r =
     r\<lparr>rh_version := v11, rh_status := 200, rh_cookies := [], rh_helper := helper_reset (rh_helper r)\<rparr>"

section \<open>The request head\<close>

record request_arg =
  ra_path :: string
  ra_parameters :: "string http_map"
  ra_headers :: "string http_map"
  ra_cookies :: "string http_map"

definition request_header_data ::
    "stold_fn \<Rightarrow> version \<Rightarrow> nat \<Rightarrow> nat \<Rightarrow> request_arg \<Rightarrow> helper_base \<Rightarrow> (string \<times> helper_base) res" where
  "request_header_data stold version meth body_size arg h =
     (if h_state h \<noteq> Header then Inr ([], h)
      else
        res_bind (method_string meth) (\<lambda>ms.
        res_bind (version_string version) (\<lambda>vs.
          let params = butlast (concat (map (\<lambda>(key, v). key @ ''='' @ v @ ''&'') (ra_parameters arg)));
              path = (if ra_parameters arg = [] then ra_path arg
                      else ra_path arg @ ''?'' @ to_percent_encoding params [] [] (CHR ''%''));
              line = ms @ '' '' @ path @ '' HTTP/'' @ vs @ CRLF;
              h = foldl (\<lambda>h (key, v). set_header key v h) h (ra_headers arg)
          in res_bind (header_data stold version body_size h) (\<lambda>(lines, h).
               Inr (line @ lines @
                    (if ra_cookies arg = [] then []
                     else ''Cookie: '' @ concat (map (\<lambda>(key, v). key @ ''='' @ v @ '';'') (ra_cookies arg)) @ CRLF) @
                    CRLF, h)))))"

section \<open>Chunk sizes\<close>

lemma size_line:
  assumes "n < 2 ^ 64"
  shows "ston_size stold (print_hex_upper n) 16 = Inr n" "length (print_hex_upper n) \<le> 16"
    "free_of CRLF (print_hex_upper n)" "CHR '';'' \<notin> set (print_hex_upper n)"
proof -
  have chars: "set (print_base 16 n) \<subseteq> digit_char ` {..<16}" by (rule print_base_chars) simp
  have "print_base 16 n \<noteq> []" "digits_value 16 (print_base 16 n) = n"
    using print_base_digits [of 16 n] by simp_all
  moreover have "list_all (is_base_digit 16) (print_hex_upper n)"
    using chars hex_chars by (auto simp: print_hex_upper_def list_all_iff is_base_digit_def)
  ultimately show "ston_size stold (print_hex_upper n) 16 = Inr n"
    using ston_size_digits [of "print_hex_upper n" 16 stold] digits_value_toupper [OF chars] assms
    by (simp add: print_hex_upper_def)
  show "length (print_hex_upper n) \<le> 16"
    using print_base_length [of 16 16 n] assms by (simp add: print_hex_upper_def)
  have no: "c \<notin> set (print_hex_upper n)" if "\<And>d. d < 16 \<Longrightarrow> toupper (digit_char d) \<noteq> c" for c
    using chars that by (force simp: print_hex_upper_def)
  show "free_of CRLF (print_hex_upper n)" by (intro free_of_CRLF no hex_chars)
  show "CHR '';'' \<notin> set (print_hex_upper n)" by (intro no hex_chars)
qed

section \<open>Chunks are read back\<close>

definition chunk_text :: "string \<Rightarrow> string" where
  "chunk_text d = print_hex_upper (length d) @ CRLF @ d @ CRLF"

lemma body_data_chunk:
  "h_state h = Chunk \<Longrightarrow> h_chunk_attributes h = [] \<Longrightarrow> body_data d h = (chunk_text d, h)"
  by (simp add: body_data_def chunk_text_def)

definition good_piece :: "string \<Rightarrow> bool" where
  "good_piece d \<longleftrightarrow> d \<noteq> [] \<and> free_of CRLF d \<and> length d < 2 ^ 64"

lemma chunk_loop_text:
  assumes "p_state p = Chunked_wait_size" "p_src p = chunk_text d @ rest" "good_piece d"
  shows "chunk_loop stold sz err p =
    (let q = p\<lparr>p_src := rest, p_body := p_body p @ d\<rparr>
     in if rest = [] then Inr (False, err, q) else chunk_loop stold (length d) err q)"
  using assms size_line(1) [of "length d" stold] size_line(2-4) [of "length d"]
  by (intro chunk_loop_chunk [where size_line = "print_hex_upper (length d)"])
    (auto simp: chunk_text_def good_piece_def)

lemma append_chunk:
  assumes "p_state p = Chunked_wait_size" "p_src p = []" "good_piece d"
  shows "parser_append stold (chunk_text d) p = Inr (False, None, p\<lparr>p_body := p_body p @ d\<rparr>)"
proof -
  have "chunk_text d \<noteq> []" by (simp add: chunk_text_def CRLF_def)
  moreover have "chunk_loop stold 0 None (p\<lparr>p_src := chunk_text d\<rparr>) =
      Inr (False, None, p\<lparr>p_src := [], p_body := p_body p @ d\<rparr>)"
    using chunk_loop_text [where p = "p\<lparr>p_src := chunk_text d\<rparr>" and rest = "[]"] assms by simp
  moreover have "p\<lparr>p_src := [], p_body := p_body p @ d\<rparr> = p\<lparr>p_body := p_body p @ d\<rparr>"
    using assms(2) by (cases p) simp
  ultimately show ?thesis
    using assms(1,2) by (simp add: parser_append_def parse_chunked_def)
qed

lemma append_chunk_end:
  assumes "p_state p = Chunked_wait_size" "p_src p = []"
  shows "parser_append stold (''0'' @ CRLF @ CRLF) p = Inr (True, None, p\<lparr>p_state := Finished\<rparr>)"
proof -
  have "p\<lparr>p_src := [], p_state := Finished\<rparr> = p\<lparr>p_state := Finished\<rparr>"
    using assms(2) by (cases p) simp
  then show ?thesis
    using assms chunk_loop_end [of "p\<lparr>p_src := ''0'' @ CRLF @ CRLF\<rparr>" stold 0 None]
    by (simp add: parser_append_def parse_chunked_def)
qed

lemma feed_chunks:
  "p_state p = Chunked_wait_size \<Longrightarrow> p_src p = [] \<Longrightarrow> list_all good_piece ds \<Longrightarrow>
   feed stold (map chunk_text ds @ [''0'' @ CRLF @ CRLF]) p =
     Inr (p\<lparr>p_state := Finished, p_body := p_body p @ concat ds\<rparr>)"
proof (induction ds arbitrary: p)
  case Nil
  have "p\<lparr>p_state := Finished, p_body := p_body p\<rparr> = p\<lparr>p_state := Finished\<rparr>" by (cases p) simp
  with append_chunk_end [OF Nil(1,2), of stold] show ?case by simp
next
  case (Cons d ds)
  then have IH: "feed stold (map chunk_text ds @ [''0'' @ CRLF @ CRLF]) (p\<lparr>p_body := p_body p @ d\<rparr>) =
      Inr (p\<lparr>p_body := p_body p @ d, p_state := Finished\<rparr>\<lparr>p_body := (p_body p @ d) @ concat ds\<rparr>)"
    by simp
  with Cons.prems show ?case by (simp add: append_chunk)
qed

section \<open>Header lines are read back\<close>

definition good_header :: "string \<times> string \<Rightarrow> bool" where
  "good_header kv \<longleftrightarrow> (case kv of (k, v) \<Rightarrow>
     trim k = k \<and> trim v = v \<and> CHR '':'' \<notin> set k \<and> CHR 0x0D \<notin> set k \<and> CHR 0x0D \<notin> set v \<and>
     CHR ''%'' \<notin> set v \<and> str_to_lower k \<noteq> ''cookie'' \<and> str_to_lower k \<noteq> ''set-cookie'')"

lemma trim_blank: "trim v = v \<Longrightarrow> trim (CHR 0x20 # v) = v"
  by (simp add: trim_def is_blank_def schar_def uchar_def)

lemma head_loop_line:
  assumes "p_src p = line @ CRLF @ rest" "free_of CRLF line"
  shows "head_loop stold err p =
    (case head_line stold err line (p\<lparr>p_src := rest\<rparr>) of
       Throw e \<Rightarrow> Inl e
     | Done r err q \<Rightarrow> Inr (r, err, q)
     | Next _ err q \<Rightarrow> if p_src q = [] then Inr (False, err, q) else head_loop stold err q)"
proof -
  have "find_sub CRLF (p_src p) = Some (length line)"
    unfolding assms(1) by (rule find_sub_free [OF assms(2)]) (simp add: CRLF_def)
  then show ?thesis
    by (simp add: head_loop.simps [of stold err p] assms(1) substr_def CRLF_def)
qed

lemma head_line_header:
  assumes "p_state p = Reading_headers" "good_header (k, v)"
  shows "head_line stold None (k @ '': '' @ v) p =
    Next 0 None (p\<lparr>p_headers := map_assign (p_headers p) (str_to_lower k) v\<rparr>)"
proof -
  have "find_char (CHR '':'') (k @ '': '' @ v) = Some (length k)"
    using assms(2) by (simp add: good_header_def)
  moreover have "from_percent_encoding v = v"
    using assms(2) by (simp add: good_header_def from_percent_encoding_decode percent_decode_plain)
  ultimately show ?thesis
    using assms by (simp add: head_line_def state_handler_reading_headers_def header_line_def
        header_insert_def good_header_def str_trimmed_trim trim_blank substr_def)
qed

lemma head_loop_headers:
  "p_state p = Reading_headers \<Longrightarrow> p_src p = header_lines m @ rest \<Longrightarrow> list_all good_header m \<Longrightarrow> rest \<noteq> [] \<Longrightarrow>
   head_loop stold None p =
     head_loop stold None (p\<lparr>p_src := rest,
       p_headers := foldl (\<lambda>hs (k, v). map_assign hs (str_to_lower k) v) (p_headers p) m\<rparr>)"
proof (induction m arbitrary: p)
  case Nil
  then have "p\<lparr>p_src := rest, p_headers := p_headers p\<rparr> = p" by (cases p) (simp add: header_lines_def)
  then show ?case by simp
next
  case (Cons kv m)
  obtain k v where kv: "kv = (k, v)" by fastforce
  let ?line = "k @ '': '' @ v"
  have good: "good_header (k, v)" using Cons.prems(3) by (simp add: kv)
  have src: "p_src p = ?line @ CRLF @ header_lines m @ rest"
    using Cons.prems(2) by (simp add: header_lines_def kv)
  have "free_of CRLF ?line" using good by (intro free_of_CRLF) (simp add: good_header_def)
  then have "head_loop stold None p = head_loop stold None (p\<lparr>p_src := header_lines m @ rest,
      p_headers := map_assign (p_headers p) (str_to_lower k) v\<rparr>)"
    using Cons.prems(4) head_line_header [of "p\<lparr>p_src := header_lines m @ rest\<rparr>" k v stold] good Cons.prems(1)
    by (simp add: head_loop_line [OF src])
  then show ?case using Cons.prems by (simp add: Cons.IH kv)
qed

lemma map_inv_lower_keys: "map_inv m \<Longrightarrow> map_inv (map (\<lambda>(k, v). (str_to_lower k, v)) m)"
  by (induction m) (fastforce simp: map_inv_Cons)+

lemma foldl_assign_lower:
  assumes "map_inv m"
  shows "foldl (\<lambda>hs (k, v). map_assign hs (str_to_lower k) v) [] m = map (\<lambda>(k, v). (str_to_lower k, v)) m"
proof -
  have "foldl (\<lambda>hs (k, v). map_assign hs (str_to_lower k) v) z m =
      foldl (\<lambda>hs (k, v). map_assign hs k v) z (map (\<lambda>(k, v). (str_to_lower k, v)) m)" for z
    by (induction m arbitrary: z) auto
  then show ?thesis using foldl_assign_sorted [OF map_inv_lower_keys [OF assms]] by simp
qed

section \<open>Properties\<close>

text \<open>C5.
  What the chunked generator emits for pieces without line breaks, the parser joins to the
  same body: one piece at a time, with the terminating chunk at the end.
\<close>

theorem chunked_roundtrip:
  assumes "h_state h = Chunk" "h_chunk_attributes h = []" "list_all good_piece pieces"
    and "p_state p = Chunked_wait_size" "p_src p = []"
  shows "feed stold (map (\<lambda>d. fst (body_data d h)) pieces @ [fst (chunk_end_data [] h)]) p =
    Inr (p\<lparr>p_state := Finished, p_body := p_body p @ concat pieces\<rparr>)"
  using feed_chunks [OF assms(4,5,3), of stold] assms(1,2)
  by (simp add: body_data_chunk chunk_end_data_def header_lines_def)

theorem chunked_roundtrip_witness:
  "feed (\<lambda>s. Inl Invalid_argument) (map (\<lambda>d. fst (body_data d (new_helper\<lparr>h_state := Chunk\<rparr>))) [''hello '', ''world''] @
     [fst (chunk_end_data [] (new_helper\<lparr>h_state := Chunk\<rparr>))])
     ((new_parser ())\<lparr>p_state := Chunked_wait_size\<rparr>) =
   Inr ((new_parser ())\<lparr>p_state := Finished, p_body := ''hello world''\<rparr>)"
proof -
  have "list_all good_piece [''hello '', ''world'']" by (simp add: good_piece_def free_of_CRLF)
  from chunked_roundtrip [OF _ _ this, of "new_helper\<lparr>h_state := Chunk\<rparr>"
      "(new_parser ())\<lparr>p_state := Chunked_wait_size\<rparr>" "\<lambda>s. Inl Invalid_argument"] show ?thesis
    by (simp add: new_helper_def new_parser_def)
qed

text \<open>
  The header lines of the generator are parsed to the same headers, with lower-case names,
  and a following empty line is then read with exactly those headers.
\<close>

theorem header_lines_roundtrip:
  assumes "map_inv m" "list_all good_header m" "p_state p = Reading_headers" "p_src p = []" "p_headers p = []"
  shows "parser_append stold (header_lines m @ CRLF) p =
    parser_append stold CRLF (p\<lparr>p_headers := map (\<lambda>(k, v). (str_to_lower k, v)) m\<rparr>)"
proof -
  let ?p = "p\<lparr>p_src := header_lines m @ CRLF\<rparr>"
  have "head_loop stold None ?p = head_loop stold None (?p\<lparr>p_src := CRLF,
      p_headers := foldl (\<lambda>hs (k, v). map_assign hs (str_to_lower k) v) (p_headers ?p) m\<rparr>)"
    using assms(2,3) by (intro head_loop_headers) (simp_all add: CRLF_def)
  moreover have "p\<lparr>p_src := s, p_headers := hs\<rparr> = p\<lparr>p_headers := hs, p_src := s\<rparr>" for s hs
    by simp
  ultimately show ?thesis
    using assms(3-5) foldl_assign_lower [OF assms(1)]
    by (simp add: parser_append_def parse_header_def CRLF_def)
qed

theorem header_lines_roundtrip_witness:
  "parser_append (\<lambda>s. Inl Invalid_argument) (header_lines default_headers @ CRLF) ((new_parser ())\<lparr>p_state := Reading_headers\<rparr>) =
   parser_append (\<lambda>s. Inl Invalid_argument) CRLF ((new_parser ())\<lparr>p_state := Reading_headers,
     p_headers := [(''content-type'', ''text/plain; charset=utf-8'')]\<rparr>)"
proof -
  have low: "str_to_lower ''Content-Type'' = ''content-type''" by code_simp
  have inv: "map_inv default_headers" by (simp add: map_inv_def default_headers_def)
  have good: "list_all good_header default_headers"
    by (simp add: default_headers_def good_header_def low trim_def is_blank_def schar_def uchar_def)
  show ?thesis
    using header_lines_roundtrip [OF inv good, of "(new_parser ())\<lparr>p_state := Reading_headers\<rparr>" "\<lambda>s. Inl Invalid_argument"]
    by (simp add: new_parser_def default_headers_def low)
qed

fun emit :: "string list \<Rightarrow> helper_base \<Rightarrow> string \<times> helper_base" where
  "emit [] h = ([], h)"
| "emit (d # ds) h = (case body_data d h of (s, h) \<Rightarrow> (case emit ds h of (t, h) \<Rightarrow> (s @ t, h)))"

lemma emit_finish: "h_state h = Finish \<Longrightarrow> emit ds h = ([], h)"
  by (induction ds) (auto simp: body_data_def)

text \<open>
  With a content length, exactly that many bytes of the body are emitted, whatever pieces
  they are given in; more are dropped and later ones yield nothing.
\<close>

theorem content_length_emits:
  assumes "h_state h = Content_length"
  shows "fst (emit ds h) = take (h_content_length h) (concat ds)"
  using assms
proof (induction ds arbitrary: h)
  case (Cons d ds)
  show ?case
  proof (cases "length d < h_content_length h")
    case True
    let ?h = "h\<lparr>h_content_length := h_content_length h - length d\<rparr>"
    have "fst (emit ds ?h) = take (h_content_length ?h) (concat ds)" using Cons by simp
    with True Cons.prems show ?thesis by (auto simp: body_data_def split: prod.splits)
  next
    case False
    then show ?thesis using Cons.prems by (simp add: body_data_def emit_finish)
  qed
qed simp

theorem content_length_emits_witness:
  "fst (emit [''ab'', ''cd'', ''ef''] (new_helper\<lparr>h_state := Content_length, h_content_length := 5\<rparr>)) = ''abcde''"
  using content_length_emits [of "new_helper\<lparr>h_state := Content_length, h_content_length := 5\<rparr>" "[''ab'', ''cd'', ''ef'']"]
  by (simp add: new_helper_def)

end
