(* ===== verification/String_List.thy ===== *)
theory String_List
  imports Cxx_Strings
begin

text \<open>
  Lists of strings (\<^verbatim>\<open>basic_string_list\<close> of \<^verbatim>\<open>libgs/core/detail/string_list.h\<close>): joining
  with a separator and splitting at one. The class is a \<^verbatim>\<open>std::deque\<close> of strings, a
  list here. Joining appends the separator after every piece and erases the last one; for no
  pieces the position it erases at wraps around and \<^verbatim>\<open>erase\<close> throws.
\<close>

section \<open>Joining\<close>

definition join_all :: "string list \<Rightarrow> string \<Rightarrow> string" where
  "join_all strs splits = foldl (\<lambda>result str. result @ str @ splits) [] strs"

definition join :: "string list \<Rightarrow> string \<Rightarrow> string res" where
  "join strs splits =
     (let result = join_all strs splits
      in erase (size_sub (length result) (length splits)) (length splits) result)"

fun join_while :: "string list \<Rightarrow> string \<Rightarrow> nat \<Rightarrow> nat \<Rightarrow> string \<Rightarrow> string" where
  "join_while strs splits index 0 result = result"
| "join_while strs splits index (Suc n) result =
     join_while strs splits (index + 1) n (result @ strs ! index @ splits)"

definition join_range :: "string list \<Rightarrow> nat \<Rightarrow> nat \<Rightarrow> string \<Rightarrow> string res" where
  "join_range strs index len splits =
     (let stop = size_add index len in
      if length strs < stop \<and> length strs \<le> index then Inr []
      else
        let stop = (if length strs < stop then length strs else stop);
            result = join_while strs splits index (stop - index) []
        in erase (size_sub (length result) (length splits)) (length splits) result)"

definition join_from :: "string list \<Rightarrow> nat \<Rightarrow> string \<Rightarrow> string res" where
  "join_from strs index splits = join_range strs index (length strs) splits"

section \<open>Splitting\<close>

text \<open>The loop of \<^verbatim>\<open>from_string\<close>; it does not end for an empty separator.\<close>

partial_function (option) from_string_loop ::
    "string \<Rightarrow> bool \<Rightarrow> string \<Rightarrow> string list \<Rightarrow> string list option" where
  "from_string_loop splits ignore_empty strs result =
     (case find_sub splits strs of
        None \<Rightarrow> Some result
      | Some pos \<Rightarrow>
          let tmp = substr 0 pos strs;
              result = (if str_trimmed tmp \<noteq> [] \<or> \<not> ignore_empty then result @ [tmp] else result)
          in from_string_loop splits ignore_empty (substr (pos + length splits) (length strs) strs) result)"

definition from_string :: "string \<Rightarrow> string \<Rightarrow> bool \<Rightarrow> string list option" where
  "from_string str splits ignore_empty =
     (if str = [] then Some [] else from_string_loop splits ignore_empty (str @ splits) [])"

definition from_string_char :: "string \<Rightarrow> char \<Rightarrow> bool \<Rightarrow> string list option" where
  "from_string_char str c ignore_empty = from_string str [c] ignore_empty"

section \<open>The pieces of a string\<close>

function pieces :: "string \<Rightarrow> string \<Rightarrow> string list" where
  "pieces sep s =
     (if sep = [] then []
      else case find_sub sep s of
             None \<Rightarrow> []
           | Some n \<Rightarrow> take n s # pieces sep (drop (n + length sep) s))"
  by pat_completeness auto
termination
proof (relation "measure (\<lambda>(sep, s). length s)", goal_cases)
  case (2 sep s n)
  then show ?case using find_sub_length [of sep s n] by (cases sep) auto
qed simp

declare pieces.simps [simp del]

definition kept :: "bool \<Rightarrow> string \<Rightarrow> bool" where
  "kept ignore_empty tmp \<longleftrightarrow> trim tmp \<noteq> [] \<or> \<not> ignore_empty"

lemma from_string_loop_pieces:
  "sep \<noteq> [] \<Longrightarrow> from_string_loop sep ign s res = Some (res @ filter (kept ign) (pieces sep s))"
proof (induction sep s arbitrary: res rule: pieces.induct)
  case (1 sep s)
  show ?case
  proof (cases "find_sub sep s")
    case None
    then show ?thesis by (simp add: from_string_loop.simps pieces.simps [of sep s])
  next
    case (Some n)
    then show ?thesis
      using 1 by (simp add: from_string_loop.simps [of sep ign s] pieces.simps [of sep s]
          substr_def kept_def str_trimmed_trim)
  qed
qed

lemma from_string_pieces:
  "sep \<noteq> [] \<Longrightarrow>
   from_string s sep ign = Some (if s = [] then [] else filter (kept ign) (pieces sep (s @ sep)))"
  by (simp add: from_string_def from_string_loop_pieces)

lemma from_string_loop_empty_sep:
  assumes "from_string_loop sep ign s res = Some r"
  shows "sep \<noteq> []"
proof (rule from_string_loop.raw_induct [where P = "\<lambda>sep ign s res r. sep \<noteq> []", OF _ assms])
  fix f :: "string \<Rightarrow> bool \<Rightarrow> string \<Rightarrow> string list \<Rightarrow> string list option" and sep ign s res r
  assume IH: "\<And>sep ign s res r. f sep ign s res = Some r \<Longrightarrow> sep \<noteq> []"
    and body: "(case find_sub sep s of None \<Rightarrow> Some res
      | Some pos \<Rightarrow> let tmp = substr 0 pos s;
            res = if str_trimmed tmp \<noteq> [] \<or> \<not> ign then res @ [tmp] else res
          in f sep ign (substr (pos + length sep) (length s) s) res) = Some r"
  show "sep \<noteq> []"
  proof
    assume "sep = []"
    then have find: "find_sub sep s = Some 0" by (cases s) auto
    obtain s' res' where "f sep ign s' res' = Some r"
      using body unfolding find Let_def option.case by blast
    from IH [OF this] \<open>sep = []\<close> show False by simp
  qed
qed

section \<open>What joining computes\<close>

lemma join_all_concat: "join_all strs sep = concat (map (\<lambda>s. s @ sep) strs)"
proof -
  have "foldl (\<lambda>result str. result @ str @ sep) r strs = r @ concat (map (\<lambda>s. s @ sep) strs)" for r
    by (induction strs arbitrary: r) auto
  then show ?thesis by (simp add: join_all_def)
qed

lemma join_while_concat:
  "index + n \<le> length strs \<Longrightarrow>
   join_while strs sep index n r = r @ concat (map (\<lambda>s. s @ sep) (take n (drop index strs)))"
proof (induction n arbitrary: index r)
  case (Suc n)
  then have "drop index strs = strs ! index # drop (Suc index) strs"
    by (simp add: Cons_nth_drop_Suc)
  with Suc show ?case by simp
qed simp

text \<open>Joining without a trailing separator.\<close>

fun intercalate :: "string \<Rightarrow> string list \<Rightarrow> string" where
  "intercalate sep [] = []"
| "intercalate sep [s] = s"
| "intercalate sep (s # t # ss) = s @ sep @ intercalate sep (t # ss)"

lemma concat_intercalate:
  "strs \<noteq> [] \<Longrightarrow> concat (map (\<lambda>s. s @ sep) strs) = intercalate sep strs @ sep"
  by (induction sep strs rule: intercalate.induct) auto

lemma erase_sep:
  assumes "strs \<noteq> []" "length (concat (map (\<lambda>s. s @ sep) strs)) < 2 ^ 64"
  shows "erase (size_sub (length (concat (map (\<lambda>s. s @ sep) strs))) (length sep)) (length sep)
      (concat (map (\<lambda>s. s @ sep) strs)) = Inr (intercalate sep strs)"
  using assms(2) unfolding concat_intercalate [OF assms(1)] by (simp add: erase_def)

lemma join_intercalate:
  assumes "length (concat (map (\<lambda>s. s @ sep) strs)) < 2 ^ 64" "length sep < 2 ^ 64"
  shows "join strs sep =
    (if strs \<noteq> [] then Inr (intercalate sep strs) else if sep = [] then Inr [] else Inl Out_of_range)"
proof (cases "strs = []")
  case False
  then show ?thesis using erase_sep [OF False assms(1)] by (simp add: join_def join_all_concat)
next
  case True
  then show ?thesis
    using assms(2) by (cases sep) (auto simp: join_def join_all_def size_sub_wrap erase_def)
qed

lemma join_from_intercalate:
  assumes "length (concat (map (\<lambda>s. s @ sep) (drop index strs))) < 2 ^ 64" "length sep < 2 ^ 64"
    "index + length strs < 2 ^ 64"
  shows "join_from strs index sep =
    (if index < length strs then Inr (intercalate sep (drop index strs))
     else if index = 0 \<and> sep \<noteq> [] then Inl Out_of_range else Inr [])"
proof (cases "index < length strs")
  case True
  then have "join_while strs sep index (length strs - index) [] =
      concat (map (\<lambda>s. s @ sep) (drop index strs))"
    using join_while_concat [of index "length strs - index" strs sep "[]"] by simp
  with True show ?thesis
    using erase_sep [of "drop index strs" sep] assms
    by (auto simp: join_from_def join_range_def)
next
  case False
  then show ?thesis
    using assms by (cases "index = 0") (auto simp: join_from_def join_range_def erase_def size_sub_wrap size_sub_def)
qed

lemma join_range_take:
  assumes "length (concat (map (\<lambda>s. s @ sep) strs)) < 2 ^ 64" "index \<le> length strs" "sep \<noteq> []"
    "length strs < 2 ^ 64" "length sep < 2 ^ 64"
  shows "join_range strs 0 index sep =
    (if index = 0 then Inl Out_of_range else Inr (intercalate sep (take index strs)))"
proof (cases "index = 0")
  case True
  with assms show ?thesis
    by (cases sep) (auto simp: join_range_def erase_def size_sub_wrap size_add_def)
next
  case False
  have "map (\<lambda>s. s @ sep) strs = map (\<lambda>s. s @ sep) (take index strs) @ map (\<lambda>s. s @ sep) (drop index strs)"
    by (simp flip: map_append)
  then have "length (concat (map (\<lambda>s. s @ sep) (take index strs))) < 2 ^ 64"
    using assms(1) by simp
  with False assms show ?thesis
    using erase_sep [of "take index strs" sep] join_while_concat [of 0 index strs sep "[]"]
    by (cases "strs = []") (auto simp: join_range_def Let_def)
qed

section \<open>Properties\<close>

text \<open>A string of pieces, each followed by the separator, is cut into the pieces.\<close>

lemma pieces_concat:
  assumes "sep \<noteq> []"
  shows "list_all (free_of sep) strs \<Longrightarrow> find_sub sep rest = None \<Longrightarrow>
    pieces sep (concat (map (\<lambda>s. s @ sep) strs) @ rest) = strs"
proof (induction strs)
  case Nil
  then show ?case using assms by (simp add: pieces.simps [of sep rest])
next
  case (Cons s strs)
  then show ?case
    using assms find_sub_free [of sep s "concat (map (\<lambda>s. s @ sep) strs) @ rest"]
    by (simp add: pieces.simps [of sep "s @ sep @ _"])
qed

lemma pieces_none:
  assumes "c \<notin> set s"
  shows "pieces [c] (s @ [c]) = [s]"
  using pieces_concat [of "[c]" "[s]" "[]"] assms by (simp add: free_of_single)

lemma filter_all: "list_all P xs \<Longrightarrow> filter P xs = xs"
  by (induction xs) auto

text \<open>
  Splitting undoes joining: pieces that are not blank and in which the separator does not
  begin come back as they were.
\<close>

theorem from_string_join:
  assumes "sep \<noteq> []" "strs \<noteq> []" "strs \<noteq> [[]]" "list_all (free_of sep) strs" "list_all (kept ign) strs"
    and "length (concat (map (\<lambda>s. s @ sep) strs)) < 2 ^ 64"
  shows "\<exists>s. join strs sep = Inr s \<and> from_string s sep ign = Some strs"
proof -
  have len: "length sep < 2 ^ 64" using assms(2,6) by (cases strs) auto
  have join: "join strs sep = Inr (intercalate sep strs)"
    using join_intercalate [OF assms(6) len] assms(2) by simp
  have "intercalate sep strs \<noteq> []"
    using assms(1,2,3) by (cases "(sep, strs)" rule: intercalate.cases) auto
  moreover have "pieces sep (intercalate sep strs @ sep) = strs"
    using pieces_concat [OF assms(1,4), of "[]"] assms(1)
    by (simp add: concat_intercalate [OF assms(2)])
  ultimately have "from_string (intercalate sep strs) sep ign = Some strs"
    using assms(5) by (simp add: from_string_pieces [OF assms(1)] filter_all)
  with join show ?thesis by blast
qed

theorem from_string_join_witness:
  "\<exists>s. join [''a'', ''bc''] ''::'' = Inr s \<and> from_string s ''::'' True = Some [''a'', ''bc'']"
  by (rule from_string_join)
    (simp_all add: free_of_Cons kept_def trim_def is_blank_def schar_def uchar_def)

lemma pieces_single:
  "pieces [c] (s @ [c]) \<noteq> [] \<and> intercalate [c] (pieces [c] (s @ [c])) = s"
proof (induction "length s" arbitrary: s rule: less_induct)
  case less
  show ?case
  proof (cases "c \<in> set s")
    case False
    then have "find_sub [c] (s @ [c]) = Some (length s)" by (simp add: find_sub_single)
    then show ?thesis by (simp add: pieces.simps [of "[c]" "s @ [c]"] pieces.simps [of "[c]" "[]"])
  next
    case True
    then obtain a b where s: "s = a @ c # b" "c \<notin> set a" by (metis split_list_first)
    then have "find_sub [c] (s @ [c]) = Some (length a)" by (simp add: find_sub_single)
    then have p: "pieces [c] (s @ [c]) = a # pieces [c] (b @ [c])"
      by (simp add: s(1) pieces.simps [of "[c]" "a @ c # b @ [c]"])
    from less.hyps [of b] s(1)
    have "pieces [c] (b @ [c]) \<noteq> []" "intercalate [c] (pieces [c] (b @ [c])) = b" by auto
    then show ?thesis unfolding p by (cases "pieces [c] (b @ [c])") (auto simp: s(1))
  qed
qed

text \<open>
  Joining undoes splitting at a character, when blank pieces are kept: no byte is lost.
\<close>

theorem join_from_string_char:
  assumes "str \<noteq> []" "length str + 1 < 2 ^ 64"
  shows "\<exists>strs. from_string_char str c False = Some strs \<and> join strs [c] = Inr str"
proof -
  let ?l = "pieces [c] (str @ [c])"
  have l: "?l \<noteq> []" "intercalate [c] ?l = str" using pieces_single by auto
  have "from_string_char str c False = Some ?l"
    using assms(1) by (simp add: from_string_char_def from_string_pieces kept_def)
  moreover have "length (concat (map (\<lambda>s. s @ [c]) ?l)) < 2 ^ 64"
    using assms(2) by (simp add: concat_intercalate [OF l(1)] l(2))
  then have "join ?l [c] = Inr str" using join_intercalate [of "[c]" ?l] l by simp
  ultimately show ?thesis by blast
qed

theorem join_from_string_char_witness:
  "\<exists>strs. from_string_char '' a,,b'' (CHR '','') False = Some strs \<and> join strs [CHR '',''] = Inr '' a,,b''"
  by (rule join_from_string_char) simp_all

text \<open>
  Splitting at the empty separator never ends, whatever the string, unless that is empty.
\<close>

theorem from_string_empty_separator:
  "from_string str [] ign = (if str = [] then Some [] else None)"
  using from_string_loop_empty_sep [of "[]" ign str "[]"]
  by (cases "from_string_loop [] ign str []") (auto simp: from_string_def)

text \<open>
  Joining no strings with a non-empty separator throws, where one string or more join
  to the pieces with separators between them.
\<close>

theorem join_empty_throws:
  assumes "sep \<noteq> []" "length sep < 2 ^ 64"
  shows "join [] sep = Inl Out_of_range"
  using join_intercalate [of sep "[]"] assms by simp

theorem join_empty_throws_witness: "join [] '';'' = Inl Out_of_range"
  by (rule join_empty_throws) simp_all

end
