(* ===== verification/Wildcard.thy ===== *)
theory Wildcard
  imports Prelude
begin

text \<open>
  Wildcard matching (\<^verbatim>\<open>detail::wildcard_match\<close> of \<^verbatim>\<open>libgs/core/algorithm/misc.cpp\<close>), the
  routine that ranks the path rules of the HTTP server. The source fills a table
  \<^verbatim>\<open>dp[i][j]\<close> ("the first \<open>i\<close> characters match the first \<open>j\<close> characters of the rule") by two
  nested loops and accumulates a weight on the way. The table is modelled as a list of rows
  with in-place updates, and compared with a declarative matching relation. The weight is an
  \<^verbatim>\<open>int32_t\<close>, here a 32-bit word read as a signed number: its sum wraps, where the source has
  undefined behaviour, and the theorem assumes that it does not come so far.
\<close>

section \<open>The table\<close>

type_synonym dp = "bool list list"

definition dp_get :: "dp \<Rightarrow> nat \<Rightarrow> nat \<Rightarrow> bool" where
  "dp_get dp i j = dp ! i ! j"

definition dp_set :: "dp \<Rightarrow> nat \<Rightarrow> nat \<Rightarrow> bool \<Rightarrow> dp" where
  "dp_set dp i j v = dp[i := (dp ! i)[j := v]]"

definition dp_init :: "nat \<Rightarrow> nat \<Rightarrow> dp" where
  "dp_init str_len rule_len =
     dp_set (replicate (str_len + 1) (replicate (rule_len + 1) False)) 0 0 True"

definition wm_first_row :: "string \<Rightarrow> dp \<Rightarrow> nat \<Rightarrow> dp" where
  "wm_first_row rule dp j =
     (if rule ! (j - 1) = CHR ''*'' then dp_set dp 0 j (dp_get dp 0 (j - 1)) else dp)"

definition wm_cell :: "string \<Rightarrow> string \<Rightarrow> nat \<Rightarrow> dp \<times> 32 word \<Rightarrow> nat \<Rightarrow> dp \<times> 32 word" where
  "wm_cell rule str i st j =
     (let (dp, weight) = st in
      if rule ! (j - 1) = CHR ''?'' then (dp_set dp i j (dp_get dp (i - 1) (j - 1)), weight + 1)
      else if rule ! (j - 1) = str ! (i - 1) then (dp_set dp i j (dp_get dp (i - 1) (j - 1)), weight)
      else if rule ! (j - 1) = CHR ''*''
      then (dp_set dp i j (dp_get dp (i - 1) j \<or> dp_get dp i (j - 1)), weight + 2)
      else (dp, weight))"

definition wm_row :: "string \<Rightarrow> string \<Rightarrow> dp \<times> 32 word \<Rightarrow> nat \<Rightarrow> dp \<times> 32 word" where
  "wm_row rule str st i = foldl (wm_cell rule str i) st [1..<length rule + 1]"

definition wildcard_match :: "string \<Rightarrow> string \<Rightarrow> int" where
  "wildcard_match rule str =
     (let dp0 = foldl (wm_first_row rule) (dp_init (length str) (length rule)) [1..<length rule + 1];
          (dp, weight) = foldl (wm_row rule str) (dp0, 0) [1..<length str + 1]
      in if last (last dp) then sint weight else - 1)"

section \<open>What a cell of the finished table holds\<close>

fun wm :: "string \<Rightarrow> string \<Rightarrow> nat \<Rightarrow> nat \<Rightarrow> bool" where
  "wm rule str 0 0 = True"
| "wm rule str 0 (Suc j) = (rule ! j = CHR ''*'' \<and> wm rule str 0 j)"
| "wm rule str (Suc i) 0 = False"
| "wm rule str (Suc i) (Suc j) =
     (if rule ! j = CHR ''?'' then wm rule str i j
      else if rule ! j = str ! i then wm rule str i j
      else if rule ! j = CHR ''*'' then wm rule str i (Suc j) \<or> wm rule str (Suc i) j
      else False)"

text \<open>The weight added by one rule character at one position, and by one row.\<close>

definition cell_weight :: "char \<Rightarrow> char \<Rightarrow> int" where
  "cell_weight r c =
     (if r = CHR ''?'' then 1 else if r = c then 0 else if r = CHR ''*'' then 2 else 0)"

definition shape :: "nat \<Rightarrow> nat \<Rightarrow> dp \<Rightarrow> bool" where
  "shape n m dp \<longleftrightarrow> length dp = n + 1 \<and> (\<forall>row \<in> set dp. length row = m + 1)"

text \<open>Cells before position \<open>(i, j)\<close> in loop order are final, the others still \<^const>\<open>False\<close>.\<close>

definition filled :: "string \<Rightarrow> string \<Rightarrow> nat \<Rightarrow> nat \<Rightarrow> dp \<Rightarrow> bool" where
  "filled rule str i j dp \<longleftrightarrow> shape (length str) (length rule) dp \<and>
     (\<forall>a \<le> length str. \<forall>b \<le> length rule.
        dp_get dp a b = ((a < i \<or> a = i \<and> b < j \<or> a = 0 \<and> b = 0) \<and> wm rule str a b))"

lemma shape_set: "shape n m dp \<Longrightarrow> i \<le> n \<Longrightarrow> shape n m (dp_set dp i j v)"
proof -
  assume sh: "shape n m dp" and i: "i \<le> n"
  then have "length ((dp ! i)[j := v]) = m + 1" by (simp add: shape_def)
  with sh show "shape n m (dp_set dp i j v)"
    using set_update_subset_insert [of dp i "(dp ! i)[j := v]"]
    by (auto simp: shape_def dp_set_def)
qed

lemma dp_get_set:
  "shape n m dp \<Longrightarrow> i \<le> n \<Longrightarrow> j \<le> m \<Longrightarrow> a \<le> n \<Longrightarrow> b \<le> m \<Longrightarrow>
   dp_get (dp_set dp i j v) a b = (if a = i \<and> b = j then v else dp_get dp a b)"
  by (auto simp: shape_def dp_set_def dp_get_def nth_list_update)

lemma filled_init: "filled rule str 0 0 (dp_init (length str) (length rule))"
proof -
  define z where "z = replicate (length str + 1) (replicate (length rule + 1) False)"
  have z: "shape (length str) (length rule) z" by (auto simp: shape_def z_def simp del: replicate_Suc)
  have get: "dp_get z a b = False" if "a \<le> length str" "b \<le> length rule" for a b
    using that unfolding z_def dp_get_def by (simp del: replicate_Suc)
  have init: "dp_init (length str) (length rule) = dp_set z 0 0 True"
    by (simp add: dp_init_def z_def del: replicate_Suc)
  show ?thesis
    unfolding init filled_def using shape_set [OF z, of 0 0 True]
    by (auto simp: dp_get_set [OF z] get)
qed

lemma filled_set:
  assumes "filled rule str i j dp" "i \<le> length str" "j \<le> length rule" "v = wm rule str i j"
  shows "filled rule str i (Suc j) (dp_set dp i j v)"
proof -
  have sh: "shape (length str) (length rule) dp" using assms(1) by (simp add: filled_def)
  have "dp_get (dp_set dp i j v) a b =
      ((a < i \<or> a = i \<and> b < Suc j \<or> a = 0 \<and> b = 0) \<and> wm rule str a b)"
    if "a \<le> length str" "b \<le> length rule" for a b
    using assms that dp_get_set [OF sh assms(2,3) that, of v]
    by (cases "a = i \<and> b = j") (simp_all add: filled_def less_Suc_eq, blast?)
  then show ?thesis
    using shape_set [OF sh assms(2)] by (simp add: filled_def)
qed

lemma filled_skip:
  assumes "filled rule str i j dp" "\<not> wm rule str i j \<or> i = 0 \<and> j = 0"
  shows "filled rule str i (Suc j) dp"
  using assms by (auto simp: filled_def less_Suc_eq)

lemma filled_get:
  "filled rule str i j dp \<Longrightarrow> a \<le> length str \<Longrightarrow> b \<le> length rule \<Longrightarrow> a < i \<or> a = i \<and> b < j \<Longrightarrow>
   dp_get dp a b = wm rule str a b"
  by (auto simp: filled_def)

lemma filled_next_row:
  "filled rule str i (Suc (length rule)) dp \<Longrightarrow> filled rule str (Suc i) 0 dp"
  unfolding filled_def by (auto simp: less_Suc_eq)

lemma foldl_from_1: "foldl f z [1..<Suc j + 1] = f (foldl f z [1..<j + 1]) (Suc j)"
  by simp

lemma filled_first_row:
  "j \<le> length rule \<Longrightarrow>
   filled rule str 0 (Suc j) (foldl (wm_first_row rule) (dp_init (length str) (length rule)) [1..<j + 1])"
proof (induction j)
  case 0
  then show ?case using filled_init by (auto intro: filled_skip)
next
  case (Suc j)
  define dp where "dp = foldl (wm_first_row rule) (dp_init (length str) (length rule)) [1..<j + 1]"
  from Suc have IH: "filled rule str 0 (Suc j) dp" by (simp add: dp_def)
  have "dp_get dp 0 j = wm rule str 0 j"
    by (rule filled_get [OF IH]) (use Suc.prems in auto)
  then have "filled rule str 0 (Suc (Suc j)) (wm_first_row rule dp (Suc j))"
    using filled_set [OF IH, of True] filled_set [OF IH, of False] filled_skip [OF IH] Suc.prems
    by (auto simp: wm_first_row_def)
  then show ?case unfolding foldl_from_1 dp_def .
qed

lemma filled_cell:
  assumes "filled rule str (Suc i) (Suc j) dp" "i < length str" "j < length rule"
  shows "filled rule str (Suc i) (Suc (Suc j)) (fst (wm_cell rule str (Suc i) (dp, w) (Suc j))) \<and>
    snd (wm_cell rule str (Suc i) (dp, w) (Suc j)) = w + of_int (cell_weight (rule ! j) (str ! i))"
proof -
  have get: "dp_get dp i j = wm rule str i j" "dp_get dp i (Suc j) = wm rule str i (Suc j)"
    "dp_get dp (Suc i) j = wm rule str (Suc i) j"
    by (rule filled_get [OF assms(1)]; use assms(2,3) in simp)+
  have set: "filled rule str (Suc i) (Suc (Suc j)) (dp_set dp (Suc i) (Suc j) v)"
    if "v = wm rule str (Suc i) (Suc j)" for v
    by (rule filled_set [OF assms(1) _ _ that]) (use assms(2,3) in simp_all)
  have skip: "filled rule str (Suc i) (Suc (Suc j)) dp" if "\<not> wm rule str (Suc i) (Suc j)"
    using filled_skip [OF assms(1)] that by blast
  consider "rule ! j = CHR ''?''" | "rule ! j \<noteq> CHR ''?''" "rule ! j = str ! i"
    | "rule ! j \<noteq> CHR ''?''" "rule ! j \<noteq> str ! i" "rule ! j = CHR ''*''"
    | "rule ! j \<noteq> CHR ''?''" "rule ! j \<noteq> str ! i" "rule ! j \<noteq> CHR ''*''"
    by blast
  then show ?thesis
    by cases (simp_all add: wm_cell_def cell_weight_def get set skip)
qed

lemma filled_row_part:
  assumes "filled rule str (Suc i) 0 dp" "i < length str" "j \<le> length rule"
  shows "filled rule str (Suc i) (Suc j) (fst (foldl (wm_cell rule str (Suc i)) (dp, w) [1..<j + 1])) \<and>
    snd (foldl (wm_cell rule str (Suc i)) (dp, w) [1..<j + 1]) =
      w + of_int (\<Sum>b < j. cell_weight (rule ! b) (str ! i))"
  using assms(3)
proof (induction j)
  case 0
  with assms(1) show ?case by (auto intro: filled_skip)
next
  case (Suc j)
  define st where "st = foldl (wm_cell rule str (Suc i)) (dp, w) [1..<j + 1]"
  from Suc have IH: "filled rule str (Suc i) (Suc j) (fst st)"
      "snd st = w + of_int (\<Sum>b < j. cell_weight (rule ! b) (str ! i))"
    by (simp_all add: st_def)
  have cell: "filled rule str (Suc i) (Suc (Suc j)) (fst (wm_cell rule str (Suc i) st (Suc j))) \<and>
      snd (wm_cell rule str (Suc i) st (Suc j)) = snd st + of_int (cell_weight (rule ! j) (str ! i))"
    using filled_cell [OF IH(1) assms(2), of "snd st"] Suc.prems by (simp add: Suc_le_eq)
  show ?case
    unfolding foldl_from_1 st_def [symmetric]
    using cell by (simp add: IH(2))
qed

lemma filled_rows:
  assumes "filled rule str 1 0 dp" "i \<le> length str"
  shows "filled rule str (Suc i) 0 (fst (foldl (wm_row rule str) (dp, 0) [1..<i + 1])) \<and>
    snd (foldl (wm_row rule str) (dp, 0) [1..<i + 1]) =
      of_int (\<Sum>a < i. \<Sum>b < length rule. cell_weight (rule ! b) (str ! a))"
  using assms(2)
proof (induction i)
  case 0
  with assms(1) show ?case by simp
next
  case (Suc i)
  define st where "st = foldl (wm_row rule str) (dp, 0) [1..<i + 1]"
  from Suc have IH: "filled rule str (Suc i) 0 (fst st)"
      "snd st = of_int (\<Sum>a < i. \<Sum>b < length rule. cell_weight (rule ! b) (str ! a))"
    by (simp_all add: st_def)
  have "filled rule str (Suc i) (Suc (length rule)) (fst (wm_row rule str st (Suc i))) \<and>
      snd (wm_row rule str st (Suc i)) =
        snd st + of_int (\<Sum>b < length rule. cell_weight (rule ! b) (str ! i))"
    using filled_row_part [OF IH(1), of "length rule" "snd st"] Suc.prems
    by (simp only: wm_row_def prod.collapse)
  then show ?case
    unfolding foldl_from_1 st_def [symmetric]
    by (simp add: IH(2) filled_next_row)
qed

lemma filled_last:
  assumes "filled rule str (Suc (length str)) 0 dp"
  shows "last (last dp) = wm rule str (length str) (length rule)"
proof -
  have sh: "shape (length str) (length rule) dp" using assms by (simp add: filled_def)
  then have "last dp = dp ! length str"
    by (auto simp: shape_def last_conv_nth simp flip: length_greater_0_conv)
  moreover have "length (dp ! length str) = length rule + 1"
    using sh by (auto simp: shape_def)
  ultimately have "last (last dp) = dp_get dp (length str) (length rule)"
    by (auto simp: dp_get_def last_conv_nth simp flip: length_greater_0_conv)
  then show ?thesis using filled_get [OF assms] by simp
qed

lemma wildcard_match_wm:
  "wildcard_match rule str =
     (if wm rule str (length str) (length rule)
      then signed_take_bit 31 (\<Sum>a < length str. \<Sum>b < length rule. cell_weight (rule ! b) (str ! a))
      else - 1)"
proof -
  define dp0 where
    "dp0 = foldl (wm_first_row rule) (dp_init (length str) (length rule)) [1..<length rule + 1]"
  define st where "st = foldl (wm_row rule str) (dp0, 0) [1..<length str + 1]"
  have "filled rule str 0 (Suc (length rule)) dp0"
    unfolding dp0_def by (rule filled_first_row) simp
  then have "filled rule str 1 0 dp0" by (simp add: filled_next_row)
  from filled_rows [OF this, of "length str"]
  have f: "filled rule str (Suc (length str)) 0 (fst st)"
    and w: "snd st = of_int (\<Sum>a < length str. \<Sum>b < length rule. cell_weight (rule ! b) (str ! a))"
    by (simp_all only: st_def)
  have m: "wildcard_match rule str = (if last (last (fst st)) then sint (snd st) else - 1)"
    unfolding wildcard_match_def st_def dp0_def Let_def split_beta ..
  have "sint (word_of_int k :: 32 word) = signed_take_bit 31 k" for k by (simp add: signed_of_int)
  then show ?thesis unfolding m w filled_last [OF f] by presburger
qed

section \<open>The matching relation\<close>

text \<open>A question mark matches one character, a star any number of them.\<close>

fun glob :: "string \<Rightarrow> string \<Rightarrow> bool" where
  "glob [] s = (s = [])"
| "glob (r # rs) s =
     (if r = CHR ''*'' then (\<exists>k \<le> length s. glob rs (drop k s))
      else (case s of [] \<Rightarrow> False | c # cs \<Rightarrow> (r = CHR ''?'' \<or> r = c) \<and> glob rs cs))"

lemma ex_le_Suc: "(\<exists>k \<le> Suc n. P k) \<longleftrightarrow> (\<exists>k \<le> n. P k) \<or> P (Suc n)"
  by (auto simp: le_Suc_eq)

lemma ex_le_Suc_0: "(\<exists>k \<le> Suc n. P k) \<longleftrightarrow> P 0 \<or> (\<exists>k \<le> n. P (Suc k))"
  by (metis Suc_le_mono le0 not0_implies_Suc)

lemma glob_append_star:
  "(\<exists>k \<le> length s. \<exists>l \<le> length s - k. glob rs (take l (drop k s)) \<and> glob r2 (drop (k + l) s)) \<longleftrightarrow>
   (\<exists>m \<le> length s. (\<exists>k \<le> m. glob rs (drop k (take m s))) \<and> glob r2 (drop m s))" (is "?l \<longleftrightarrow> ?r")
proof
  assume ?l
  then obtain k l where "k \<le> length s" "l \<le> length s - k" "glob rs (take l (drop k s))" "glob r2 (drop (k + l) s)"
    by blast
  moreover from this have "drop k (take (k + l) s) = take l (drop k s)" by (simp add: drop_take)
  moreover have "k + l \<le> length s" "k \<le> k + l" using calculation by linarith+
  ultimately show ?r by metis
next
  assume ?r
  then obtain m k where "m \<le> length s" "k \<le> m" "glob rs (drop k (take m s))" "glob r2 (drop m s)"
    by blast
  moreover from this have "drop k (take m s) = take (m - k) (drop k s)" "k + (m - k) = m"
      "m - k \<le> length s - k" "k \<le> length s"
    by (simp_all add: drop_take)
  ultimately show ?l by metis
qed

lemma glob_append: "glob (r1 @ r2) s \<longleftrightarrow> (\<exists>k \<le> length s. glob r1 (take k s) \<and> glob r2 (drop k s))"
proof (induction r1 arbitrary: s)
  case Nil
  then show ?case by (auto intro: exI [of _ 0])
next
  case (Cons r rs)
  show ?case
  proof (cases "r = CHR ''*''")
    case False
    show ?thesis
    proof (cases s)
      case (Cons c cs)
      show ?thesis
        unfolding Cons list.size ex_le_Suc_0 add_0_right plus_nat.simps
        using False Cons.IH [of cs] by (simp add: ex_le_Suc_0) blast
    qed (use False in auto)
  next
    case True
    have "glob ((r # rs) @ r2) s \<longleftrightarrow>
        (\<exists>k \<le> length s. \<exists>l \<le> length s - k. glob rs (take l (drop k s)) \<and> glob r2 (drop (k + l) s))"
      using True by (simp add: Cons.IH add.commute)
    also have "\<dots> \<longleftrightarrow> (\<exists>m \<le> length s. (\<exists>k \<le> m. glob rs (drop k (take m s))) \<and> glob r2 (drop m s))"
      by (rule glob_append_star)
    also have "\<dots> \<longleftrightarrow> (\<exists>m \<le> length s. glob (r # rs) (take m s) \<and> glob r2 (drop m s))"
      using True by (intro ex_cong1 conj_cong refl) (simp add: min_def)
    finally show ?thesis .
  qed
qed

lemma glob_star: "glob [CHR ''*''] s"
  by (auto intro: exI [of _ "length s"])

lemma glob_single: "r \<noteq> CHR ''*'' \<Longrightarrow> glob [r] s \<longleftrightarrow> (\<exists>c. s = [c] \<and> (r = CHR ''?'' \<or> r = c))"
  by (auto split: list.splits)

lemma glob_snoc_star: "glob (r @ [CHR ''*'']) s \<longleftrightarrow> (\<exists>k \<le> length s. glob r (take k s))"
  by (simp add: glob_append glob_star del: glob.simps)

lemma glob_snoc_char:
  assumes "r \<noteq> CHR ''*''"
  shows "glob (rs @ [r]) (s @ [c]) \<longleftrightarrow> (r = CHR ''?'' \<or> r = c) \<and> glob rs s"
proof
  assume "glob (rs @ [r]) (s @ [c])"
  then obtain k d where k: "k \<le> length (s @ [c])" "glob rs (take k (s @ [c]))"
      "drop k (s @ [c]) = [d]" "r = CHR ''?'' \<or> r = d"
    unfolding glob_append glob_single [OF assms] by blast
  then have "length (drop k (s @ [c])) = 1" by simp
  then have "k = length s" using k(1) by simp
  with k show "(r = CHR ''?'' \<or> r = c) \<and> glob rs s" by simp
next
  assume "(r = CHR ''?'' \<or> r = c) \<and> glob rs s"
  then show "glob (rs @ [r]) (s @ [c])"
    unfolding glob_append glob_single [OF assms] by (intro exI [of _ "length s"]) simp
qed

lemma glob_snoc_Nil: "r \<noteq> CHR ''*'' \<Longrightarrow> \<not> glob (rs @ [r]) []"
  by (simp add: glob_append glob_single del: glob.simps)

lemma wm_glob:
  "CHR ''*'' \<notin> set str \<Longrightarrow> i \<le> length str \<Longrightarrow> j \<le> length rule \<Longrightarrow>
   wm rule str i j = glob (take j rule) (take i str)"
proof (induction rule str i j rule: wm.induct)
  case (2 rule str j)
  then show ?case
    using glob_snoc_star [of "take j rule" "[]"] glob_snoc_Nil [of "rule ! j" "take j rule"]
    by (cases "rule ! j = CHR ''*''") (auto simp: take_Suc_conv_app_nth simp del: glob.simps)
next
  case (3 rule str i)
  then show ?case by (cases str) auto
next
  case (4 rule str i j)
  have "str ! i \<in> set str" using 4(6) by simp
  then have ns: "str ! i \<noteq> CHR ''*''" using 4(5) by metis
  have si: "take (Suc i) str = take i str @ [str ! i]"
    and sj: "take (Suc j) rule = take j rule @ [rule ! j]"
    using 4(6,7) by (simp_all add: take_Suc_conv_app_nth)
  show ?case
  proof (cases "rule ! j = CHR ''*''")
    case True
    have "glob (take (Suc j) rule) (take (Suc i) str) \<longleftrightarrow>
        (\<exists>k \<le> Suc i. glob (take j rule) (take k str))"
      using 4(6) by (auto simp: sj True glob_snoc_star min_def simp del: glob.simps)
    also have "\<dots> \<longleftrightarrow> (\<exists>k \<le> i. glob (take j rule) (take k str)) \<or> glob (take j rule) (take (Suc i) str)"
      by (rule ex_le_Suc)
    also have "(\<exists>k \<le> i. glob (take j rule) (take k str)) \<longleftrightarrow> glob (take (Suc j) rule) (take i str)"
      using 4(6) by (auto simp: sj True glob_snoc_star min_def simp del: glob.simps)
    finally show ?thesis
      using 4(3-7) True ns by (simp del: glob.simps)
  next
    case False
    then show ?thesis
      using 4(1,2,5-7) glob_snoc_char [OF False, of "take j rule" "take i str" "str ! i"]
      by (auto simp: si sj simp del: glob.simps)
  qed
qed simp

section \<open>The weight\<close>

definition rule_weight :: "string \<Rightarrow> int" where
  "rule_weight rule = int (count_list rule CHR ''?'') + 2 * int (count_list rule CHR ''*'')"

lemma sum_cell_weight:
  "c \<noteq> CHR ''*'' \<Longrightarrow> (\<Sum>b < length rule. cell_weight (rule ! b) c) = rule_weight rule"
proof (induction rule)
  case (Cons r rs)
  have "(\<Sum>b < length (r # rs). cell_weight ((r # rs) ! b) c) =
      cell_weight r c + (\<Sum>b < length rs. cell_weight (rs ! b) c)"
    by (simp add: sum.lessThan_Suc_shift del: sum.lessThan_Suc)
  with Cons show ?case by (auto simp: rule_weight_def cell_weight_def)
qed (simp add: rule_weight_def)

lemma wildcard_match_weight:
  assumes "CHR ''*'' \<notin> set str"
  shows "wildcard_match rule str =
    (if glob rule str then signed_take_bit 31 (int (length str) * rule_weight rule) else - 1)"
proof -
  have "(\<Sum>a < length str. \<Sum>b < length rule. cell_weight (rule ! b) (str ! a)) =
      (\<Sum>a < length str. rule_weight rule)"
    by (rule sum.cong [OF refl]) (metis assms lessThan_iff nth_mem sum_cell_weight)
  then show ?thesis
    using wm_glob [OF assms, of "length str" "length rule" rule] by (simp add: wildcard_match_wm)
qed

lemma rule_weight_nonneg: "0 \<le> rule_weight rule"
  by (simp add: rule_weight_def)

text \<open>C39.
  On a path without stars, wildcard matching decides the matching relation, and a match
  weighs the length of the path times the wildcards of the rule, a star counting twice, for
  rules and paths whose weight fits the \<^verbatim>\<open>int32_t\<close> that holds it.
\<close>

theorem wildcard_match_spec:
  assumes "CHR ''*'' \<notin> set str" "int (length str) * rule_weight rule < 2 ^ 31"
  shows "wildcard_match rule str =
    (if glob rule str then int (length str) * rule_weight rule else - 1)"
proof -
  have "0 \<le> int (length str) * rule_weight rule" by (simp add: rule_weight_nonneg)
  then have "signed_take_bit 31 (int (length str) * rule_weight rule) = int (length str) * rule_weight rule"
    using assms(2) by (intro signed_take_bit_int_eq_self) simp_all
  then show ?thesis by (simp add: wildcard_match_weight [OF assms(1)])
qed

theorem wildcard_match_spec_witness:
  "wildcard_match ''/a*/?'' ''/abc/d'' = 18"
proof -
  have "glob ''/a*/?'' ''/abc/d''" by code_simp
  then show ?thesis using wildcard_match_spec [of "''/abc/d''" "''/a*/?''"] by (simp add: rule_weight_def del: glob.simps)
qed

text \<open>Past that bound the sum wraps: the weight of a match may be any number, also a negative one.\<close>

lemma wildcard_match_wraps:
  assumes "CHR ''*'' \<notin> set str" "glob rule str" "int (length str) * rule_weight rule = 2 ^ 31"
  shows "wildcard_match rule str = - (2 ^ 31)"
  using assms by (simp add: wildcard_match_weight signed_take_bit_eq_if_negative bit_iff_odd)

text \<open>
  The table reads a star as a star only where the path has another character: the rule
  \<^verbatim>\<open>*\<close> does not match the path \<^verbatim>\<open>ab*\<close>, which the matching relation accepts.
\<close>

theorem wildcard_match_literal_star:
  "wildcard_match ''*'' ''ab*'' = - 1 \<and> glob ''*'' ''ab*''"
  using glob_star [of "''ab*''"] by (simp add: wildcard_match_wm eval_nat_numeral del: glob.simps)

end
