(* ===== verification/Request_Parser.thy ===== *)
theory Request_Parser
  imports Http_Helper String_List Wildcard
begin

text \<open>
  The request parser of the server (\<^verbatim>\<open>libgs/http/server/detail/request_parser.h\<close>): the
  handlers of the request line and of cookies that it installs in the message parser, the
  attributes it derives from the headers, and the matching of a path against the rule of a
  route. The message parser of \<^verbatim>\<open>impl\<close> is a \<open>parser\<close> whose owner is the record of the
  other members.
\<close>

section \<open>The request\<close>

record request =
  rq_method :: http_method
  rq_path :: string
  rq_parameters :: "string http_map"
  rq_path_args :: "(string \<times> string) list"
  rq_cookies :: "string http_map"
  rq_keep_alive :: bool
  rq_support_gzip :: bool

definition new_request :: request where
  "new_request =
     \<lparr>rq_method = GET, rq_path = [], rq_parameters = [], rq_path_args = [], rq_cookies = [],
      rq_keep_alive = True, rq_support_gzip = False\<rparr>"

text \<open>Splitting at a character ends for every string; blank pieces are left out.\<close>

definition split_char :: "string \<Rightarrow> char \<Rightarrow> string list" where
  "split_char s c = (case from_string_char s c True of Some l \<Rightarrow> l | None \<Rightarrow> [])"

text \<open>\<^verbatim>\<open>std::map::emplace\<close>: an entry that is there is kept.\<close>

definition map_emplace :: "'v http_map \<Rightarrow> string \<Rightarrow> 'v \<Rightarrow> 'v http_map" where
  "map_emplace m key val = (if map_find m key = None then map_assign m key val else m)"

section \<open>The request line\<close>

definition add_parameter :: "string http_map \<Rightarrow> string \<Rightarrow> string http_map" where
  "add_parameter m para_str =
     (case find_char (CHR ''='') para_str of
        None \<Rightarrow> map_emplace m para_str para_str
      | Some pos \<Rightarrow> map_emplace m (substr 0 pos para_str) (drop (pos + 1) para_str))"

definition set_target :: "string \<Rightarrow> request \<Rightarrow> request" where
  "set_target url_line r =
     (case find_char (CHR ''?'') url_line of
        None \<Rightarrow> r\<lparr>rq_path := url_line\<rparr>
      | Some pos \<Rightarrow>
          r\<lparr>rq_path := substr 0 pos url_line,
            rq_parameters := foldl add_parameter (rq_parameters r) (split_char (drop (pos + 1) url_line) (CHR ''&''))\<rparr>)"

text \<open>\<^verbatim>\<open>std::unique\<close> with the predicate that both characters are slashes.\<close>

fun unique_slashes :: "string \<Rightarrow> string" where
  "unique_slashes (a # b # s) =
     (if a = b \<and> a = CHR 0x2F then unique_slashes (a # s) else a # unique_slashes (b # s))"
| "unique_slashes s = s"

definition normal_slashes :: "string \<Rightarrow> string" where
  "normal_slashes path =
     (let path = unique_slashes path
      in if 1 < length path \<and> ends_with ''/'' path then butlast path else path)"

definition request_begin :: "request begin_handler" where
  "request_begin line_buf r =
     (let parts = split_char line_buf (CHR '' '') in
      if length parts \<noteq> 3 \<or> \<not> starts_with ''HTTP/'' (str_to_upper (parts ! 2))
      then Inr (v_nan, Some IRL, r)
      else
        case from_method_string (parts ! 0) of
          Inl _ \<Rightarrow> Inr (v_nan, Some IHM, r)
        | Inr m \<Rightarrow>
            res_bind (version_number (substr 5 3 (parts ! 2)) True) (\<lambda>version.
              let r = set_target (from_percent_encoding (parts ! 1)) (r\<lparr>rq_method := m\<rparr>) in
              Inr (if \<not> starts_with ''/'' (rq_path r) then (version, Some IHP, r)
                   else (version, None, r\<lparr>rq_path := normal_slashes (rq_path r)\<rparr>))))"

section \<open>Cookies\<close>

fun add_cookies :: "string list \<Rightarrow> request \<Rightarrow> parse_errno option \<times> request" where
  "add_cookies [] r = (None, r)"
| "add_cookies (statement # list) r =
     (let statement = str_trimmed statement in
      case find_char (CHR ''='') statement of
        None \<Rightarrow> (Some IHL, r)
      | Some pos \<Rightarrow>
          let key = str_trimmed (substr 0 pos statement);
              val = str_trimmed (drop (pos + 1) statement)
          in add_cookies list (r\<lparr>rq_cookies := map_assign (rq_cookies r) key val\<rparr>))"

definition request_cookie :: "request cookie_handler" where
  "request_cookie line_buf r = add_cookies (split_char line_buf (CHR '';'')) r"

section \<open>The parser object\<close>

type_synonym request_parser = "request parser"

definition new_request_parser :: request_parser where
  "new_request_parser = on_parse_cookie request_cookie (on_parse_begin request_begin (new_parser new_request))"

definition derive_attributes :: "request_parser \<Rightarrow> request_parser" where
  "derive_attributes p =
     (let keep = (case map_find (p_headers p) ''Connection'' of
                    None \<Rightarrow> p_version p \<noteq> v10
                  | Some v \<Rightarrow> str_to_lower v \<noteq> ''close'');
          gzip = (case map_find (p_headers p) ''Accept-Encoding'' of
                    None \<Rightarrow> False
                  | Some v \<Rightarrow>
                      if \<exists>str \<in> set (split_char v (CHR '','')). str_to_lower (str_trimmed str) = ''gzip'' then True
                      else rq_support_gzip (p_owner p))
      in p\<lparr>p_owner := (p_owner p)\<lparr>rq_keep_alive := keep, rq_support_gzip := gzip\<rparr>\<rparr>)"

definition request_append :: "stold_fn \<Rightarrow> string \<Rightarrow> request_parser \<Rightarrow> request outcome" where
  "request_append stold buf p =
     res_bind (parser_append stold buf p)
       (\<lambda>(r, err, p). Inr (r, err, if err = None then derive_attributes p else p))"

definition request_append_or_throw :: "stold_fn \<Rightarrow> string \<Rightarrow> request_parser \<Rightarrow> (bool \<times> request_parser) res" where
  "request_append_or_throw stold buf p =
     res_bind (append_or_throw stold buf p) (\<lambda>(r, p). Inr (r, derive_attributes p))"

definition request_reset :: "request_parser \<Rightarrow> request_parser" where
  "request_reset p =
     (let p = reset p in
      p\<lparr>p_owner := (p_owner p)\<lparr>rq_path := [], rq_parameters := [], rq_cookies := []\<rparr>\<rparr>)"

section \<open>Matching a path against a rule\<close>

text \<open>
  The segments of the rule are visited from the last one while they are enclosed in braces.
  A segment with braces inside is passed over, without being counted.
\<close>

fun match_args :: "string list \<Rightarrow> nat \<Rightarrow> (string \<times> string) list \<Rightarrow> nat \<times> (string \<times> string) list" where
  "match_args [] index vec = (index, vec)"
| "match_args (format # rest) index vec =
     (if \<not> starts_with ''{'' format \<or> \<not> ends_with ''}'' format then (index, vec)
      else if length format = 2 then match_args rest (index - 1) (vec @ [([], [])])
      else
        let key = substr 1 (length format - 2) format in
        if list_all (\<lambda>c. c \<noteq> CHR ''{'' \<and> c \<noteq> CHR ''}'') key
        then match_args rest (index - 1) (vec @ [(key, [])])
        else match_args rest index vec)"

definition rule_segments :: "string \<Rightarrow> string list" where
  "rule_segments rule = (if rule = ''/'' then [rule] else split_char rule (CHR ''/''))"

definition path_segments :: "string \<Rightarrow> string list" where
  "path_segments path = (let l = split_char path (CHR ''/'') in if l = [] then [''/''] else l)"

definition path_match :: "string \<Rightarrow> request \<Rightarrow> (int \<times> request) res" where
  "path_match rule r =
     (let rule_list = rule_segments rule; path_list = path_segments (rq_path r) in
      if length path_list < length rule_list then Inr (- 1, r)
      else
        let (index, vec) = match_args (rev rule_list) (length rule_list) []; vec = rev vec in
        res_bind (join_range rule_list 0 index ''/'') (\<lambda>rule_before.
          let index = length path_list - length vec in
          res_bind (if vec = [] then join path_list ''/'' else join_range path_list 0 index ''/'') (\<lambda>path_before.
            let weight = wildcard_match rule_before path_before in
            Inr (if weight < 0 then (- 1, r)
                 else (weight,
                   r\<lparr>rq_path_args := map (\<lambda>(i, key, _). (key, path_list ! (index + i))) (enumerate 0 vec)\<rparr>)))))"

section \<open>Pieces\<close>

lemma split_char_pieces:
  "split_char s c = (if s = [] then [] else filter (kept True) (pieces [c] (s @ [c])))"
  by (simp add: split_char_def from_string_char_def from_string_pieces)

definition piece :: "char \<Rightarrow> string \<Rightarrow> bool" where
  "piece c s \<longleftrightarrow> c \<notin> set s \<and> trim s \<noteq> []"

lemma piece_all:
  "list_all (piece c) strs \<Longrightarrow> list_all (free_of [c]) strs \<and> filter (kept True) strs = strs"
  by (induction strs) (auto simp: piece_def kept_def free_of_single)

lemma split_char_intercalate:
  assumes "list_all (piece c) strs"
  shows "split_char (intercalate [c] strs) c = strs"
proof (cases "strs = []")
  case True
  then show ?thesis by (simp add: split_char_pieces)
next
  case False
  then have "intercalate [c] strs \<noteq> []"
    using assms by (cases "([c], strs)" rule: intercalate.cases) (auto simp: piece_def)
  moreover have "pieces [c] (intercalate [c] strs @ [c]) = strs"
    using pieces_concat [of "[c]" strs "[]"] piece_all [OF assms]
    by (simp add: concat_intercalate [OF False])
  ultimately show ?thesis using piece_all [OF assms] by (simp add: split_char_pieces)
qed

lemma split_char_concat:
  assumes "list_all (piece c) strs"
  shows "split_char (concat (map (\<lambda>s. s @ [c]) strs)) c = strs"
proof (cases "strs = []")
  case True
  then show ?thesis by (simp add: split_char_pieces)
next
  case False
  have "pieces [c] ([] @ [c]) = [[]]"
    using pieces_concat [of "[c]" "[[]]" "[]"] by simp
  moreover have "concat (map (\<lambda>s. s @ [c]) strs) @ [c] = concat (map (\<lambda>s. s @ [c]) (strs @ [[]]))" by simp
  moreover have "pieces [c] (concat (map (\<lambda>s. s @ [c]) (strs @ [[]])) @ []) = strs @ [[]]"
    by (rule pieces_concat) (use piece_all [OF assms] in simp_all)
  ultimately have "pieces [c] (concat (map (\<lambda>s. s @ [c]) strs) @ [c]) = strs @ [[]]" by (metis append_Nil2)
  then show ?thesis using piece_all [OF assms] False by (simp add: split_char_pieces kept_def)
qed

section \<open>Normal paths\<close>

definition normal_path :: "string \<Rightarrow> bool" where
  "normal_path s \<longleftrightarrow> starts_with ''/'' s \<and> find_sub ''//'' s = None \<and> (length s = 1 \<or> \<not> ends_with ''/'' s)"

lemma find_double_Cons:
  "find_sub ''//'' (a # s) = None \<longleftrightarrow> \<not> (a = CHR ''/'' \<and> starts_with ''/'' s) \<and> find_sub ''//'' s = None"
  by (cases s) (auto simp: starts_with_def)

lemma starts_unique [simp]: "starts_with ''/'' (unique_slashes s) \<longleftrightarrow> starts_with ''/'' s"
  by (induction s rule: unique_slashes.induct) (auto simp: starts_with_def)

lemma unique_slashes_none: "find_sub ''//'' (unique_slashes s) = None"
proof (induction s rule: unique_slashes.induct)
  case (1 a b s)
  then show ?case
    using starts_unique [of "b # s"] by (auto simp: find_double_Cons starts_with_def simp del: find_sub.simps)
qed (auto simp: starts_with_def)

lemma unique_slashes_id: "find_sub ''//'' s = None \<Longrightarrow> unique_slashes s = s"
  by (induction s rule: unique_slashes.induct)
    (auto simp: find_double_Cons starts_with_def simp del: find_sub.simps)

lemma find_double_butlast: "find_sub ''//'' s = None \<Longrightarrow> find_sub ''//'' (butlast s) = None"
proof (induction s)
  case (Cons a s)
  then show ?case
    by (cases "s = []"; cases s) (auto simp: find_double_Cons starts_with_def simp del: find_sub.simps)
qed simp

lemma ends_with_last: "ends_with [c] s \<longleftrightarrow> s \<noteq> [] \<and> last s = c"
  by (cases s rule: rev_cases) (auto simp: ends_with_def)

lemma find_double_last: "find_sub ''//'' (s @ ''//'') \<noteq> None"
  by (induction s) (auto simp: find_double_Cons starts_with_def simp del: find_sub.simps)

lemma normal_slashes_normal: "starts_with ''/'' s \<Longrightarrow> normal_path (normal_slashes s)"
proof -
  assume s: "starts_with ''/'' s"
  let ?u = "unique_slashes s"
  have u: "starts_with ''/'' ?u" "find_sub ''//'' ?u = None"
    using s by (simp_all add: unique_slashes_none)
  show "normal_path (normal_slashes s)"
  proof (cases "1 < length ?u \<and> ends_with ''/'' ?u")
    case True
    then obtain t where t: "?u = t @ ''/''" by (cases ?u rule: rev_cases) (auto simp: ends_with_last)
    with True u(1) have "t \<noteq> []" "starts_with ''/'' t" by (cases t; auto simp: starts_with_def)+
    moreover have "find_sub ''//'' t = None" using find_double_butlast [OF u(2)] by (simp add: t)
    moreover have "\<not> ends_with ''/'' t"
    proof
      assume "ends_with ''/'' t"
      then obtain t' where "t = t' @ ''/''" by (cases t rule: rev_cases) (auto simp: ends_with_last)
      with u(2) t find_double_last [of t'] show False by simp
    qed
    ultimately show ?thesis using True t by (simp add: normal_slashes_def normal_path_def)
  next
    case False
    with u show ?thesis by (cases ?u) (auto simp: normal_slashes_def normal_path_def starts_with_def)
  qed
qed

lemma normal_slashes_id: "normal_path s \<Longrightarrow> normal_slashes s = s"
  by (auto simp: normal_slashes_def normal_path_def unique_slashes_id)

section \<open>Segments of rules\<close>

definition brace :: "string \<Rightarrow> string" where
  "brace key = ''{'' @ key @ ''}''"

definition plain_key :: "string \<Rightarrow> bool" where
  "plain_key key \<longleftrightarrow> CHR ''{'' \<notin> set key \<and> CHR ''}'' \<notin> set key"

definition braced :: "string \<Rightarrow> bool" where
  "braced format \<longleftrightarrow> starts_with ''{'' format \<and> ends_with ''}'' format"

declare match_args.simps(2) [simp del]

lemma match_args_brace:
  assumes "plain_key key"
  shows "match_args (brace key # rest) index vec = match_args rest (index - 1) (vec @ [(key, [])])"
proof -
  have "starts_with ''{'' (brace key)" "ends_with ''}'' (brace key)"
    by (simp_all add: brace_def starts_with_def ends_with_last)
  moreover have "substr 1 (length (brace key) - 2) (brace key) = key" by (simp add: brace_def substr_def)
  moreover have "list_all (\<lambda>c. c \<noteq> CHR ''{'' \<and> c \<noteq> CHR ''}'') key"
    using assms by (auto simp: plain_key_def list_all_iff)
  moreover have "length (brace key) = 2 \<longleftrightarrow> key = []" by (simp add: brace_def)
  ultimately show ?thesis by (auto simp: match_args.simps(2) Let_def)
qed

lemma match_args_braces:
  "list_all plain_key ks \<Longrightarrow> lits = [] \<or> \<not> braced (last lits) \<Longrightarrow>
   match_args (map brace (rev ks) @ rev lits) index vec =
     (index - length ks, vec @ map (\<lambda>k. (k, [])) (rev ks))"
proof (induction ks arbitrary: index vec rule: rev_induct)
  case Nil
  then show ?case by (cases lits rule: rev_cases) (auto simp: braced_def match_args.simps(2))
next
  case (snoc k ks)
  then show ?case by (simp add: match_args_brace)
qed

text \<open>What a rule with literal and wildcard segments in front of its arguments matches.\<close>

lemma path_match_args:
  assumes "rule_segments rule = lits @ map brace ks" "list_all plain_key ks"
    and "lits = [] \<or> \<not> braced (last lits)"
    and "length (concat (map (\<lambda>s. s @ ''/'') (lits @ map brace ks))) < 2 ^ 64"
    and "length (concat (map (\<lambda>s. s @ ''/'') (path_segments (rq_path r)))) < 2 ^ 64"
  defines "ps \<equiv> path_segments (rq_path r)"
  defines "n \<equiv> length ps - length ks"
  defines "weight \<equiv> wildcard_match (intercalate ''/'' lits) (intercalate ''/'' (take n ps))"
  shows "path_match rule r =
    (if length ps < length lits + length ks then Inr (- 1, r)
     else if lits = [] then Inl Out_of_range
     else if weight < 0 then Inr (- 1, r)
     else Inr (weight, r\<lparr>rq_path_args := zip ks (drop n ps)\<rparr>))"
proof (cases "length ps < length lits + length ks")
  case True
  then show ?thesis by (simp add: path_match_def assms(1) ps_def)
next
  case False
  have small: "length xs \<le> length (concat (map (\<lambda>s. s @ ''/'') xs))" for xs
    by (induction xs) auto
  have ps: "ps \<noteq> []" by (auto simp: ps_def path_segments_def Let_def)
  have lens: "length (lits @ map brace ks) < 2 ^ 64" "length ps < 2 ^ 64"
    using small [of "lits @ map brace ks"] small [of ps] assms(4,5) by (simp_all add: ps_def)
  have rule: "join_range (lits @ map brace ks) 0 (length lits) ''/'' =
      (if lits = [] then Inl Out_of_range else Inr (intercalate ''/'' lits))"
    using join_range_take [OF assms(4), of "length lits"] lens by simp
  have args: "match_args (rev (lits @ map brace ks)) (length (lits @ map brace ks)) [] =
      (length lits, map (\<lambda>k. (k, [] :: string)) (rev ks))"
    using match_args_braces [OF assms(2,3)] by (simp add: rev_map)
  have path: "(if map (\<lambda>k. (k, [] :: string)) ks = [] then join ps ''/'' else join_range ps 0 n ''/'') =
      Inr (intercalate ''/'' (take n ps))" if "lits \<noteq> []"
  proof -
    have "0 < n" using that False by (cases lits) (auto simp: n_def)
    then show ?thesis
      using join_range_take [of "''/''" ps n] join_intercalate [of "''/''" ps] assms(5) lens ps
      by (simp add: ps_def n_def)
  qed
  have zip: "map (\<lambda>(i, key, u :: string). (key, ps ! (n + i))) (enumerate 0 (map (\<lambda>k. (k, [] :: string)) ks)) = zip ks (drop n ps)"
    using False by (auto intro!: nth_equalityI simp: n_def nth_enumerate_eq)
  have vec: "rev (map (\<lambda>k. (k, [] :: string)) (rev ks)) = map (\<lambda>k. (k, [] :: string)) ks" by (simp add: rev_map)
  show ?thesis
  proof (cases "lits = []")
    case True
    with False args rule show ?thesis
      by (simp add: path_match_def assms(1) flip: ps_def)
  next
    case lits: False
    have "path_match rule r = (let index = length ps - length (map (\<lambda>k. (k, [] :: string)) ks);
        weight = wildcard_match (intercalate ''/'' lits) (intercalate ''/'' (take n ps))
      in Inr (if weight < 0 then (- 1, r)
         else (weight, r\<lparr>rq_path_args :=
           map (\<lambda>(i, key, _). (key, ps ! (index + i))) (enumerate 0 (map (\<lambda>k. (k, [] :: string)) ks))\<rparr>)))"
      using False lits path rule
      unfolding path_match_def assms(1) ps_def [symmetric] args Let_def prod.case vec n_def
      by (simp split del: if_split cong: if_cong)
    then show ?thesis
      using zip lits False unfolding Let_def length_map n_def [symmetric] weight_def by simp
  qed
qed

section \<open>Reading a request line\<close>

lemma find_butlast_concat:
  "strs \<noteq> [] \<Longrightarrow> butlast (concat (map (\<lambda>s. s @ [c]) strs)) = intercalate [c] strs"
  by (simp add: concat_intercalate)

definition good_parameter :: "string \<times> string \<Rightarrow> bool" where
  "good_parameter kv \<longleftrightarrow> (case kv of (k, v) \<Rightarrow>
     CHR ''='' \<notin> set k \<and> CHR ''&'' \<notin> set k \<and> CHR ''&'' \<notin> set v)"

lemma add_parameters:
  "map_inv m \<Longrightarrow> list_all good_parameter m \<Longrightarrow>
   foldl add_parameter [] (map (\<lambda>(k, v). k @ ''='' @ v) m) = m"
proof (induction m rule: rev_induct)
  case (snoc x m)
  obtain k v where x: "x = (k, v)" by fastforce
  have "add_parameter m (k @ ''='' @ v) = map_emplace m k v"
    using snoc.prems by (simp add: add_parameter_def good_parameter_def substr_def x)
  also have "\<dots> = m @ [(k, v)]"
    using snoc.prems by (simp add: map_emplace_def map_find_below map_assign_append map_inv_snoc x)
  finally show ?case using snoc by (simp add: x map_inv_snoc)
qed simp

lemma set_target_parameters:
  assumes "CHR ''?'' \<notin> set path" "map_inv m" "list_all good_parameter m" "rq_parameters r = []"
  shows "set_target (if m = [] then path
      else path @ ''?'' @ butlast (concat (map (\<lambda>(k, v). k @ ''='' @ v @ ''&'') m))) r =
    r\<lparr>rq_path := path, rq_parameters := m\<rparr>"
proof (cases "m = []")
  case True
  moreover have "r\<lparr>rq_path := path, rq_parameters := []\<rparr> = r\<lparr>rq_path := path\<rparr>"
    using assms(4) by (cases r) simp
  moreover have "find_char (CHR ''?'') path = None" using assms(1) by (simp add: find_char_None)
  ultimately show ?thesis using assms(4) by (simp add: set_target_def)
next
  case False
  let ?strs = "map (\<lambda>(k, v). k @ ''='' @ v) m"
  have pieces: "list_all (piece (CHR ''&'')) ?strs"
    using assms(3) by (induction m) (auto simp: piece_def good_parameter_def trim_middle)
  have cat: "concat (map (\<lambda>(k, v). k @ ''='' @ v @ ''&'') m) = concat (map (\<lambda>s. s @ ''&'') ?strs)"
    by (induction m) auto
  have params: "butlast (concat (map (\<lambda>(k, v). k @ ''='' @ v @ ''&'') m)) = intercalate ''&'' ?strs"
    unfolding cat by (rule find_butlast_concat) (use False in simp)
  show ?thesis
    unfolding params using assms False add_parameters [OF assms(2,3)] split_char_intercalate [OF pieces]
    by (simp add: set_target_def substr_def)
qed

lemma percent_decode_append: "CHR ''%'' \<notin> set s \<Longrightarrow> percent_decode (s @ t) = s @ percent_decode t"
  by (induction s) (auto simp: percent_decode_keep)

definition request_target :: "string \<Rightarrow> string http_map \<Rightarrow> string" where
  "request_target path m =
     (if m = [] then path
      else path @ ''?'' @
        to_percent_encoding (butlast (concat (map (\<lambda>(k, v). k @ ''='' @ v @ ''&'') m))) [] [] (CHR ''%''))"

lemma target_decoded:
  "CHR ''%'' \<notin> set path \<Longrightarrow> from_percent_encoding (request_target path m) =
     (if m = [] then path else path @ ''?'' @ butlast (concat (map (\<lambda>(k, v). k @ ''='' @ v @ ''&'') m)))"
  by (simp add: request_target_def from_percent_encoding_decode to_percent_encoding_encode
      percent_decode_append percent_decode_encode percent_decode_plain percent_decode_keep)

lemma unreserved_chars: "\<not> unreserved (CHR '' '')" "\<not> unreserved (CHR 0x0D)"
  by (simp_all add: unreserved_def schar_def uchar_def)

lemma target_chars:
  assumes "c \<notin> set path" "\<not> unreserved c" "c \<noteq> CHR ''%''" "c \<noteq> CHR ''?''"
  shows "c \<notin> set (request_target path m)"
proof -
  have "c \<notin> set (percent_char [] [] (CHR ''%'') d)" for d
    using set_percent_char [of "[]" "[]" "CHR ''%''" d] assms by auto
  then show ?thesis
    using assms by (auto simp: request_target_def to_percent_encoding_encode percent_encode_def)
qed

lemma method_of_value: "method_of (method_value m) = Some m"
  by (cases m) (simp_all add: method_of_def method_value_def method_table_def)

lemma method_names:
  assumes "method_string (method_value m) = Inr ms"
  shows "piece (CHR '' '') ms" "CHR 0x0D \<notin> set ms" "from_method_string ms = Inr m"
proof -
  show "from_method_string ms = Inr m"
    using from_method_string_of [OF method_of_value [of m]] assms by simp
  have all: "list_all (\<lambda>(m, w, d). d \<noteq> [] \<and> list_all (\<lambda>c. \<not> is_blank c \<and> c \<noteq> CHR 0x0D) d) method_table"
    by code_simp
  obtain x where "find (\<lambda>(m', w, d). w = method_value m) method_table = Some x" "ms = snd (snd x)"
    using assms by (auto simp: method_string_def split: option.splits)
  then obtain m' w where x: "find (\<lambda>(m', w, d). w = method_value m) method_table = Some (m', w, ms)"
    by (cases x) simp
  from x have mem: "(m', w, ms) \<in> set method_table" unfolding find_Some_iff by (metis nth_mem)
  from bspec [OF all [unfolded list_all_iff] mem]
  have ms: "ms \<noteq> []" "list_all (\<lambda>c. \<not> is_blank c \<and> c \<noteq> CHR 0x0D) ms"
    by (simp_all add: list_all_iff)
  have "is_blank (CHR '' '')" by (simp add: is_blank_def schar_def uchar_def)
  with ms have "CHR '' '' \<notin> set ms" by (auto simp: list_all_iff)
  moreover have "trim ms \<noteq> []" using ms trim_middle [of _ "[]"] by (cases ms) auto
  ultimately show "piece (CHR '' '') ms" by (simp add: piece_def)
  show "CHR 0x0D \<notin> set ms" using ms(2) by (auto simp: list_all_iff)
qed

definition good_path :: "string \<Rightarrow> bool" where
  "good_path path \<longleftrightarrow> normal_path path \<and>
     list_all (\<lambda>c. c \<noteq> CHR '' '' \<and> c \<noteq> CHR ''?'' \<and> c \<noteq> CHR ''%'' \<and> c \<noteq> CHR 0x0D) path"

lemma request_begin_line:
  assumes "method_string (method_value m) = Inr ms" "good_path path" "map_inv ps" "list_all good_parameter ps"
    and "rq_parameters r = []"
  shows "request_begin (ms @ '' '' @ request_target path ps @ '' HTTP/1.1'') r =
    Inr (v11, None, r\<lparr>rq_method := m, rq_path := path, rq_parameters := ps\<rparr>)"
proof -
  let ?parts = "[ms, request_target path ps, ''HTTP/1.1'']"
  obtain rest where rest: "path = CHR ''/'' # rest"
    using assms(2) by (cases path) (auto simp: good_path_def normal_path_def starts_with_def)
  have path: "CHR '' '' \<notin> set path" "CHR ''?'' \<notin> set path" "CHR ''%'' \<notin> set path"
    using assms(2) by (auto simp: good_path_def list_all_iff)
  have "CHR ''/'' \<in> set (request_target path ps)" by (simp add: request_target_def rest)
  then have "piece (CHR '' '') (request_target path ps)"
    using target_chars [OF path(1), of ps] trim_nonblank by (fastforce simp: piece_def unreserved_chars)
  moreover have "piece (CHR '' '') ''HTTP/1.1''"
    using trim_nonblank [of "CHR ''H''" "''HTTP/1.1''"] by (simp add: piece_def)
  ultimately have "list_all (piece (CHR '' '')) ?parts" using method_names [OF assms(1)] by simp
  from split_char_intercalate [OF this]
  have split: "split_char (ms @ '' '' @ request_target path ps @ '' HTTP/1.1'') (CHR '' '') = ?parts" by simp
  have "str_to_upper ''HTTP/1.1'' = ''HTTP/1.1''" by code_simp
  moreover have "version_number ''1.1'' True = Inr v11"
    by (simp add: version_number_def version_table_def)
  moreover have "starts_with ''/'' path" by (simp add: rest starts_with_def)
  moreover have "normal_slashes path = path" using assms(2) by (simp add: good_path_def normal_slashes_id)
  moreover note set_target_parameters [OF path(2) assms(3,4), of "r\<lparr>rq_method := m\<rparr>"]
  ultimately show ?thesis
    using method_names [OF assms(1)] assms(5)
    unfolding request_begin_def split Let_def
    by (simp add: target_decoded [OF path(3)] starts_with_def substr_def nth_Cons_numeral)
qed

section \<open>Reading cookies\<close>

definition good_cookie :: "string \<times> string \<Rightarrow> bool" where
  "good_cookie kv \<longleftrightarrow> (case kv of (k, v) \<Rightarrow>
     k \<noteq> [] \<and> trim k = k \<and> trim v = v \<and> CHR ''='' \<notin> set k \<and>
     list_all (\<lambda>c. c \<noteq> CHR '';'' \<and> c \<noteq> CHR ''%'' \<and> c \<noteq> CHR 0x0D) (k @ v))"

lemma trim_statement:
  assumes "k \<noteq> []" "trim k = k" "trim v = v"
  shows "trim (k @ ''='' @ v) = k @ ''='' @ v"
  using assms by (auto simp: trim_id)

lemma add_good_cookies:
  "map_inv m \<Longrightarrow> list_all good_cookie m \<Longrightarrow>
   add_cookies (map (\<lambda>(k, v). k @ ''='' @ v) m) r =
     (None, r\<lparr>rq_cookies := foldl (\<lambda>m (k, v). map_assign m k v) (rq_cookies r) m\<rparr>)"
proof (induction m arbitrary: r)
  case (Cons x m)
  obtain k v where x: "x = (k, v)" by fastforce
  then have good: "k \<noteq> []" "trim k = k" "trim v = v" "CHR ''='' \<notin> set k"
    using Cons.prems by (auto simp: good_cookie_def)
  have inv: "map_inv m" using Cons.prems(1) by (simp add: x map_inv_Cons)
  show ?case
    using good Cons.IH [OF inv] Cons.prems trim_statement [OF good(1-3)]
    by (simp add: x str_trimmed_trim substr_def)
qed simp

definition cookie_text :: "string http_map \<Rightarrow> string" where
  "cookie_text m = concat (map (\<lambda>(k, v). k @ ''='' @ v @ '';'') m)"

lemma request_cookie_text:
  assumes "map_inv m" "list_all good_cookie m" "rq_cookies r = []"
  shows "request_cookie (cookie_text m) r = (None, r\<lparr>rq_cookies := m\<rparr>)"
proof -
  let ?strs = "map (\<lambda>(k, v). k @ ''='' @ v) m"
  have "list_all (piece (CHR '';'')) ?strs"
    using assms(2) by (induction m) (auto simp: piece_def good_cookie_def list_all_iff trim_middle)
  moreover have "cookie_text m = concat (map (\<lambda>s. s @ '';'') ?strs)"
    by (induction m) (auto simp: cookie_text_def)
  ultimately have "split_char (cookie_text m) (CHR '';'') = ?strs" by (simp only: split_char_concat)
  then show ?thesis
    using add_good_cookies [OF assms(1,2)] foldl_assign_sorted [OF assms(1)] assms(3)
    by (simp add: request_cookie_def)
qed

lemma cookie_text_chars:
  assumes "list_all good_cookie m"
  shows "CHR ''%'' \<notin> set (cookie_text m)" "CHR 0x0D \<notin> set (cookie_text m)" "trim (cookie_text m) = cookie_text m"
proof -
  show "CHR ''%'' \<notin> set (cookie_text m)" "CHR 0x0D \<notin> set (cookie_text m)"
    using assms by (induction m) (auto simp: cookie_text_def good_cookie_def list_all_iff)
  show "trim (cookie_text m) = cookie_text m"
  proof (cases m rule: rev_cases)
    case (snoc m' x)
    then obtain k v where x: "m = m' @ [(k, v)]" by (cases x) auto
    obtain k0 v0 m0 where hd: "m = (k0, v0) # m0" using snoc by (cases m) fastforce+
    then have "k0 \<noteq> []" "trim k0 = k0" using assms by (auto simp: good_cookie_def)
    then have "\<not> is_blank (hd (cookie_text m))" by (auto simp: hd cookie_text_def trim_id)
    moreover have "last (cookie_text m) = CHR '';''" by (simp add: x cookie_text_def)
    ultimately show ?thesis by (simp add: trim_id)
  qed (simp add: cookie_text_def)
qed

lemma head_line_cookie:
  assumes "p_state p = Reading_headers" "p_cookie p = Some request_cookie" "rq_cookies (p_owner p) = []"
    and "map_inv m" "list_all good_cookie m"
  shows "head_line stold None (''Cookie: '' @ cookie_text m) p =
    Next 0 None (p\<lparr>p_owner := (p_owner p)\<lparr>rq_cookies := m\<rparr>\<rparr>)"
proof -
  let ?line = "''Cookie: '' @ cookie_text m"
  have key: "str_to_lower (str_trimmed ''Cookie'') = ''cookie''" by code_simp
  have find: "find_char (CHR '':'') ?line = Some 6" by simp
  have "from_percent_encoding (str_trimmed (drop 7 ?line)) = cookie_text m"
    using cookie_text_chars [OF assms(5)]
    by (simp add: str_trimmed_trim trim_blank from_percent_encoding_decode percent_decode_plain)
  then show ?thesis
    using assms key request_cookie_text [OF assms(4,5,3)]
    unfolding head_line_def state_handler_reading_headers_def find header_line_def header_insert_def
    by (simp add: substr_def set_error_def)
qed

section \<open>Properties\<close>

text \<open>
  Every path the request line handler accepts is normal: it starts with a slash, has no two
  slashes in a row and ends with one only if it is the root.
\<close>

theorem request_path_normal:
  assumes "request_begin line_buf r = Inr (v, None, r')"
  shows "normal_path (rq_path r')"
  using assms
  by (auto simp: request_begin_def Let_def res_bind_Inr intro: normal_slashes_normal split: if_splits sum.splits)

theorem request_path_normal_witness:
  "\<exists>r. request_begin ''GET //a///b/ HTTP/1.0'' new_request = Inr (v10, None, r) \<and> normal_path (rq_path r)"
proof -
  have "list_all (piece (CHR '' '')) [''GET'', ''//a///b/'', ''HTTP/1.0'']"
    by (simp add: piece_def trim_def is_blank_def schar_def uchar_def)
  from split_char_intercalate [OF this]
  have split: "split_char ''GET //a///b/ HTTP/1.0'' (CHR '' '') = [''GET'', ''//a///b/'', ''HTTP/1.0'']" by simp
  have upper: "str_to_upper ''HTTP/1.0'' = ''HTTP/1.0''" by code_simp
  have "request_begin ''GET //a///b/ HTTP/1.0'' new_request =
      Inr (v10, None, new_request\<lparr>rq_method := GET, rq_path := ''/a/b''\<rparr>)"
    unfolding request_begin_def split
    by (simp add: upper starts_with_def from_method_string_def method_table_def substr_def version_number_def
        version_table_def from_percent_encoding_decode percent_decode_plain set_target_def normal_slashes_def
        ends_with_def nth_Cons_numeral)
  from this request_path_normal [OF this] show ?thesis by blast
qed

text \<open>C40.
  A rule that ends in arguments matches a path whose front part its own front part
  matches; the segments behind are bound to the arguments in order. A path with too few
  segments, or a front part that does not match, leaves the request as it is.
\<close>

theorem path_match_spec:
  assumes "rule_segments rule = lits @ map brace ks" "lits \<noteq> []" "\<not> braced (last lits)" "list_all plain_key ks"
    and "length (concat (map (\<lambda>s. s @ ''/'') (lits @ map brace ks))) < 2 ^ 64"
    and "length (concat (map (\<lambda>s. s @ ''/'') (path_segments (rq_path r)))) < 2 ^ 64"
  defines "ps \<equiv> path_segments (rq_path r)"
  defines "n \<equiv> length ps - length ks"
  defines "weight \<equiv> wildcard_match (intercalate ''/'' lits) (intercalate ''/'' (take n ps))"
  shows "path_match rule r =
    (if length ps < length lits + length ks \<or> weight < 0 then Inr (- 1, r)
     else Inr (weight, r\<lparr>rq_path_args := zip ks (drop n ps)\<rparr>))"
  using path_match_args [OF assms(1,4) _ assms(5,6)] assms(2,3)
  by (simp add: ps_def n_def weight_def)

theorem path_match_spec_witness:
  "path_match ''/user/{id}'' (new_request\<lparr>rq_path := ''/user/42''\<rparr>) =
   (if wildcard_match ''user'' ''user'' < 0 then Inr (- 1, new_request\<lparr>rq_path := ''/user/42''\<rparr>)
    else Inr (wildcard_match ''user'' ''user'',
      new_request\<lparr>rq_path := ''/user/42'', rq_path_args := [(''id'', ''42'')]\<rparr>))"
proof -
  have seg: "split_char (CHR ''/'' # s) (CHR ''/'') = split_char s (CHR ''/'')" if "s \<noteq> []" for s
    using that by (simp add: split_char_pieces pieces.simps [of "''/''" "CHR ''/'' # _"] kept_def)
  have "list_all (piece (CHR ''/'')) [''user'', ''{id}'']" "list_all (piece (CHR ''/'')) [''user'', ''42'']"
    by (simp_all add: piece_def trim_def is_blank_def schar_def uchar_def)
  from this [THEN split_char_intercalate] seg [of "''user/{id}''"] seg [of "''user/42''"]
  have rule: "rule_segments ''/user/{id}'' = [''user''] @ map brace [''id'']"
    and path: "path_segments ''/user/42'' = [''user'', ''42'']"
    by (simp_all add: rule_segments_def path_segments_def brace_def)
  show ?thesis
    using path_match_spec [OF rule, of "new_request\<lparr>rq_path := ''/user/42''\<rparr>"]
    by (simp add: path braced_def starts_with_def plain_key_def brace_def)
qed

text \<open>
  A rule that consists of arguments only throws for every path that has enough segments:
  joining the empty front part of the rule erases at a position that wrapped around.
\<close>

theorem path_match_all_args_throws:
  assumes "rule_segments rule = map brace ks" "list_all plain_key ks"
    and "length (concat (map (\<lambda>s. s @ ''/'') (map brace ks))) < 2 ^ 64"
    and "length (concat (map (\<lambda>s. s @ ''/'') (path_segments (rq_path r)))) < 2 ^ 64"
    and "length ks \<le> length (path_segments (rq_path r))"
  shows "path_match rule r = Inl Out_of_range"
  using path_match_args [of rule "[]" ks r] assms by simp

theorem path_match_all_args_throws_witness:
  "path_match ''/{id}'' (new_request\<lparr>rq_path := ''/''\<rparr>) = Inl Out_of_range"
proof -
  have "list_all (piece (CHR ''/'')) [''{id}'']"
    by (simp add: piece_def trim_def is_blank_def schar_def uchar_def)
  from split_char_intercalate [OF this]
  have "rule_segments ''/{id}'' = map brace [''id'']"
    by (simp add: rule_segments_def brace_def split_char_pieces kept_def
        pieces.simps [of "''/''" "CHR ''/'' # _"])
  moreover have "path_segments ''/'' = [''/'']"
    by (simp add: path_segments_def split_char_pieces kept_def pieces.simps [of "''/''"])
  ultimately show ?thesis
    by (intro path_match_all_args_throws [of _ "[''id'']"]) (simp_all add: plain_key_def brace_def)
qed

text \<open>
  Support for gzip is never taken back: after one request that accepted it, a reset and a
  next request whose Accept-Encoding does not name it, the parser still reports it.
\<close>

theorem gzip_survives_reset:
  assumes "rq_support_gzip (p_owner p)" "map_find hs ''Accept-Encoding'' = Some v"
  shows "rq_support_gzip (p_owner (derive_attributes ((request_reset p)\<lparr>p_headers := hs\<rparr>)))"
  using assms by (simp add: derive_attributes_def request_reset_def reset_def)

theorem gzip_survives_reset_witness:
  "rq_support_gzip (p_owner (derive_attributes
     ((request_reset (new_request_parser\<lparr>p_owner := new_request\<lparr>rq_support_gzip := True\<rparr>\<rparr>))
        \<lparr>p_headers := [(''accept-encoding'', ''identity'')]\<rparr>)))"
proof -
  have "str_to_lower ''Accept-Encoding'' = ''accept-encoding''" "str_to_lower ''accept-encoding'' = ''accept-encoding''"
    by code_simp+
  then have "map_find [(''accept-encoding'', ''identity'')] ''Accept-Encoding'' = Some ''identity''"
    by (simp add: not_less_equiv)
  then show ?thesis by (intro gzip_survives_reset) simp_all
qed

end
