(* ===== verification/Http_Exchange.thy ===== *)
theory Http_Exchange
  imports Request_Parser
begin

text \<open>
  A request from end to end: what the helper of the client prints is read by the parser of
  the server, and the request it describes is the one that was sent. These properties rest
  on the lemmas of all the parts: the header maps, percent encoding, numbers, splitting,
  the message parser and its handlers.
\<close>

section \<open>What is printed\<close>

definition plain_header :: "string \<times> string \<Rightarrow> bool" where
  "plain_header kv \<longleftrightarrow> good_header kv \<and>
     str_to_lower (fst kv) \<noteq> ''content-length'' \<and> str_to_lower (fst kv) \<noteq> ''transfer-encoding''"

definition good_request :: "request_arg \<Rightarrow> bool" where
  "good_request arg \<longleftrightarrow>
     good_path (ra_path arg) \<and>
     map_inv (ra_parameters arg) \<and> list_all good_parameter (ra_parameters arg) \<and>
     map_inv (ra_cookies arg) \<and> list_all good_cookie (ra_cookies arg) \<and>
     list_all plain_header (ra_headers arg)"

text \<open>The headers of a message that carries its length.\<close>

definition message_headers :: "nat \<Rightarrow> string http_map \<Rightarrow> string http_map" where
  "message_headers n hs = map_assign (set_map_list default_headers hs) ''Content-Length'' (to_string n)"

lemma set_headers: "foldl (\<lambda>h (key, v). set_header key v h) h hs = h\<lparr>h_headers := set_map_list (h_headers h) hs\<rparr>"
proof (induction hs arbitrary: h)
  case Nil
  then show ?case by (simp add: set_map_list_def)
next
  case (Cons x hs)
  then show ?case by (cases x) (simp add: set_map_list_def set_header_def)
qed

lemma set_map_list_inv: "map_inv m \<Longrightarrow> map_inv (set_map_list m hs)"
  unfolding set_map_list_def by (rule hm.inv_assign_all)

lemma set_map_list_keeps:
  assumes "list_all (\<lambda>kv. str_to_lower (fst kv) \<noteq> str_to_lower key) hs"
  shows "map_find (set_map_list m hs) key = map_find m key"
  using assms
proof (induction hs arbitrary: m)
  case (Cons x hs)
  then show ?case
    by (cases x) (auto simp: set_map_list_def set_map_def map_find_assign)
qed (simp add: set_map_list_def)

lemma default_headers_inv: "map_inv default_headers"
  by (simp add: default_headers_def map_inv_Cons)

lemma names_lower [simp]:
  "str_to_lower ''Content-Length'' = ''content-length''"
  "str_to_lower ''Transfer-Encoding'' = ''transfer-encoding''"
  "str_to_lower ''Content-Type'' = ''content-type''"
  by code_simp+

lemma default_headers_find:
  "map_find default_headers ''Content-Length'' = None" "map_find default_headers ''Transfer-Encoding'' = None"
  by (simp_all add: default_headers_def not_less_equiv)

lemma message_headers_inv: "map_inv (message_headers n hs)"
  by (simp add: message_headers_def map_inv_assign set_map_list_inv default_headers_inv)

lemma message_headers_find:
  assumes "list_all plain_header hs"
  shows "map_find (message_headers n hs) ''Content-Length'' = Some (to_string n)"
  by (simp add: message_headers_def map_find_assign)

definition good_key :: "string \<Rightarrow> bool" where
  "good_key k \<longleftrightarrow> trim k = k \<and> CHR '':'' \<notin> set k \<and> CHR 0x0D \<notin> set k \<and>
     str_to_lower k \<noteq> ''cookie'' \<and> str_to_lower k \<noteq> ''set-cookie''"

definition good_value :: "string \<Rightarrow> bool" where
  "good_value v \<longleftrightarrow> trim v = v \<and> CHR 0x0D \<notin> set v \<and> CHR ''%'' \<notin> set v"

lemma good_header_parts: "good_header (k, v) \<longleftrightarrow> good_key k \<and> good_value v"
  by (auto simp: good_header_def good_key_def good_value_def)

lemma good_headers_assign:
  "list_all good_header m \<Longrightarrow> good_key k \<Longrightarrow> good_value v \<Longrightarrow> list_all good_header (map_assign m k v)"
  by (induction m k v rule: map_assign.induct) (auto simp: good_header_parts)

lemma tolower_upper: "isupper c \<Longrightarrow> 97 \<le> schar (tolower c) \<and> schar (tolower c) \<le> 122"
  by (simp add: tolower_def isupper_def schar_to_char)

lemma tolower_nonletter:
  assumes "schar d < 97"  "schar d < 65"
  shows "tolower c = d \<longleftrightarrow> c = d"
proof (cases "isupper c")
  case True
  then show ?thesis using tolower_upper [OF True] assms by (auto simp: isupper_def)
qed (simp add: tolower_idem)

lemma blank_lower [simp]: "is_blank (tolower c) \<longleftrightarrow> is_blank c"
proof (cases "isupper c")
  case True
  then show ?thesis using tolower_upper [OF True] by (auto simp: isupper_def is_blank_def)
qed (simp add: tolower_idem)

lemma trim_lower: "trim s = s \<Longrightarrow> trim (str_to_lower s) = str_to_lower s"
  by (auto simp: trim_id str_to_lower_def hd_map last_map)

lemma lower_chars:
  "CHR '':'' \<in> set (str_to_lower k) \<longleftrightarrow> CHR '':'' \<in> set k"
  "CHR 0x0D \<in> set (str_to_lower k) \<longleftrightarrow> CHR 0x0D \<in> set k"
proof -
  have "d \<in> set (str_to_lower k) \<longleftrightarrow> d \<in> set k" if "schar d < 65" for d
    using tolower_nonletter [of d] that by (force simp: str_to_lower_def)
  moreover have "schar (CHR '':'') < 65" "schar (CHR 0x0D) < 65" by (simp_all add: schar_def uchar_def)
  ultimately show "CHR '':'' \<in> set (str_to_lower k) \<longleftrightarrow> CHR '':'' \<in> set k"
    "CHR 0x0D \<in> set (str_to_lower k) \<longleftrightarrow> CHR 0x0D \<in> set k" by blast+
qed

lemma good_key_lower: "good_key k \<Longrightarrow> good_key (str_to_lower k)"
  by (simp add: good_key_def trim_lower lower_chars)

lemma good_headers_set_list:
  "list_all good_header m \<Longrightarrow> list_all good_header hs \<Longrightarrow> list_all good_header (set_map_list m hs)"
proof (induction hs arbitrary: m)
  case (Cons x hs)
  obtain k v where x: "x = (k, v)" by fastforce
  then have "list_all good_header (map_assign m (str_to_lower k) v)"
    using Cons.prems by (intro good_headers_assign) (simp_all add: good_header_parts good_key_lower)
  from Cons.IH [OF this] Cons.prems(2) show ?case by (simp add: set_map_list_def set_map_def x)
qed (simp add: set_map_list_def)

lemma number_chars: "\<forall>c \<in> set (to_string n). \<not> is_blank c \<and> c \<noteq> CHR 0x0D \<and> c \<noteq> CHR ''%''"
proof -
  have digits: "map digit_char [0..<10] = ''0123456789''" by code_simp
  have image: "digit_char ` {..<10} = set (map digit_char [0..<10])" by (auto simp: atLeast0LessThan)
  have "set (to_string n) \<subseteq> digit_char ` {..<10}"
    using print_base_chars [of 10 n] by (simp add: to_string_def)
  then have sub: "set (to_string n) \<subseteq> set ''0123456789''" unfolding image digits .
  have "list_all (\<lambda>c. \<not> is_blank c \<and> c \<noteq> CHR 0x0D \<and> c \<noteq> CHR ''%'') ''0123456789''"
    by (simp add: is_blank_def schar_def uchar_def)
  then show ?thesis unfolding list_all_iff using sub by (meson subsetD)
qed

lemma good_value_number: "good_value (to_string n)"
proof -
  have "trim (to_string n) = to_string n"
    unfolding trim_id using number_chars [of n] hd_in_set last_in_set by blast
  then show ?thesis using number_chars [of n] by (auto simp: good_value_def)
qed

lemma default_headers_good: "list_all good_header default_headers"
  by (simp add: default_headers_def good_header_def trim_def is_blank_def schar_def uchar_def)

lemma good_key_length: "good_key ''Content-Length''"
  by (simp add: good_key_def trim_def is_blank_def schar_def uchar_def)

lemma message_headers_good:
  assumes "list_all plain_header hs"
  shows "list_all good_header (message_headers n hs)"
proof -
  have "list_all good_header hs" using assms by (auto simp: list_all_iff plain_header_def)
  then show ?thesis
    unfolding message_headers_def
    by (intro good_headers_assign good_headers_set_list default_headers_good good_key_length good_value_number)
qed

section \<open>The printed request\<close>

lemma plain_headers_find:
  assumes "list_all plain_header hs"
  shows "map_find (set_map_list default_headers hs) ''Content-Length'' = None"
    "map_find (set_map_list default_headers hs) ''Transfer-Encoding'' = None"
proof -
  have "list_all (\<lambda>kv. str_to_lower (fst kv) \<noteq> str_to_lower ''Content-Length'') hs"
    "list_all (\<lambda>kv. str_to_lower (fst kv) \<noteq> str_to_lower ''Transfer-Encoding'') hs"
    using assms by (auto simp: list_all_iff plain_header_def)
  then show "map_find (set_map_list default_headers hs) ''Content-Length'' = None"
    "map_find (set_map_list default_headers hs) ''Transfer-Encoding'' = None"
    by (simp_all only: set_map_list_keeps default_headers_find)
qed

definition cookie_line :: "string http_map \<Rightarrow> string" where
  "cookie_line m = (if m = [] then [] else ''Cookie: '' @ cookie_text m @ CRLF)"

definition sent_helper :: "nat \<Rightarrow> request_arg \<Rightarrow> helper_base" where
  "sent_helper n arg = new_helper\<lparr>h_headers := message_headers n (ra_headers arg),
     h_content_length := n, h_state := Content_length\<rparr>"

lemma request_header_text:
  assumes "method_string (method_value m) = Inr ms" "good_request arg"
  shows "request_header_data stold v11 (method_value m) n arg new_helper =
    Inr (ms @ '' '' @ request_target (ra_path arg) (ra_parameters arg) @ '' HTTP/1.1'' @ CRLF @
      header_lines (message_headers n (ra_headers arg)) @ cookie_line (ra_cookies arg) @ CRLF, sent_helper n arg)"
proof -
  have hs: "list_all plain_header (ra_headers arg)" using assms(2) by (simp add: good_request_def)
  have vs: "version_string v11 = Inr ''1.1''"
    by (simp add: version_string_def version_table_def v_nan_def v10_def v11_def)
  have "header_data stold v11 n (new_helper\<lparr>h_headers := set_map_list default_headers (ra_headers arg)\<rparr>) =
      Inr (header_lines (message_headers n (ra_headers arg)), sent_helper n arg)"
    using plain_headers_find [OF hs]
    by (simp add: header_data_def new_helper_def use_content_length_def message_headers_def sent_helper_def)
  then show ?thesis
    using assms(1) vs
    by (simp add: request_header_data_def set_headers request_target_def cookie_line_def cookie_text_def
        new_helper_def)
qed

section \<open>Reading it\<close>

lemma empty_line_length:
  assumes "p_state p = Reading_headers" "map_find (p_headers p) ''Content-Length'' = Some (to_string (length body))"
    and "p_body p = []" "p_src p = CRLF @ body" "length body < 2 ^ 64"
  shows "head_loop stold None p =
    Inr (True, None, p\<lparr>p_content_length := length body, p_body := body, p_src := [], p_state := Finished\<rparr>)"
proof -
  have "ston_size stold (to_string (length body)) 10 = Inr (length body)"
    using ston_size_print [of 10 "length body" stold] assms(5) by (simp add: to_string_def)
  then have "head_line stold None [] (p\<lparr>p_src := body\<rparr>) =
      Done True None (p\<lparr>p_content_length := length body, p_body := body, p_src := [], p_state := Finished\<rparr>)"
    using assms(1-3)
    by (simp add: head_line_def state_handler_reading_headers_def set_read_body_state_def parse_length_def)
  then show ?thesis using head_loop_line [of p "[]" body stold None] assms(4) by simp
qed

lemma request_line_chars:
  assumes "method_string (method_value m) = Inr ms" "good_path path"
  shows "CHR 0x0D \<notin> set (ms @ '' '' @ request_target path ps @ '' HTTP/1.1'')"
proof -
  have "CHR 0x0D \<notin> set path" using assms(2) by (auto simp: good_path_def list_all_iff)
  then show ?thesis
    using method_names(2) [OF assms(1)] target_chars [of "CHR 0x0D" path ps] by (simp add: unreserved_chars)
qed

text \<open>
  A parser that waits for a request, new or used before: it may still have the method, the
  path, the path arguments, the version, the length and the flags of an earlier one.
\<close>

definition awaits_request :: "request_parser \<Rightarrow> bool" where
  "awaits_request p \<longleftrightarrow> p_state p = Waiting_request \<and> p_src p = [] \<and> p_headers p = [] \<and> p_body p = [] \<and>
     p_begin p = Some request_begin \<and> p_cookie p = Some request_cookie \<and>
     rq_parameters (p_owner p) = [] \<and> rq_cookies (p_owner p) = []"

lemma new_awaits_request [simp]: "awaits_request new_request_parser"
  by (simp add: awaits_request_def new_request_parser_def new_parser_def on_parse_begin_def on_parse_cookie_def new_request_def)

text \<open>A parser that has read the request line.\<close>

definition line_read :: "request_parser \<Rightarrow> http_method \<Rightarrow> request_arg \<Rightarrow> request_parser" where
  "line_read p m arg = p\<lparr>p_state := Reading_headers, p_version := v11,
     p_owner := (p_owner p)\<lparr>rq_method := m, rq_path := ra_path arg, rq_parameters := ra_parameters arg\<rparr>\<rparr>"

lemma read_request_line:
  assumes "awaits_request p" "method_string (method_value m) = Inr ms" "good_request arg" "rest \<noteq> []"
  shows "head_loop stold None (p
      \<lparr>p_src := ms @ '' '' @ request_target (ra_path arg) (ra_parameters arg) @ '' HTTP/1.1'' @ CRLF @ rest\<rparr>) =
    head_loop stold None ((line_read p m arg)\<lparr>p_src := rest\<rparr>)"
proof -
  let ?line = "ms @ '' '' @ request_target (ra_path arg) (ra_parameters arg) @ '' HTTP/1.1''"
  let ?p = "p\<lparr>p_src := ?line @ CRLF @ rest\<rparr>"
  have arg: "good_path (ra_path arg)" "map_inv (ra_parameters arg)" "list_all good_parameter (ra_parameters arg)"
    using assms(3) by (auto simp: good_request_def)
  have "request_begin ?line (p_owner p) = Inr (v11, None,
      (p_owner p)\<lparr>rq_method := m, rq_path := ra_path arg, rq_parameters := ra_parameters arg\<rparr>)"
    by (rule request_begin_line [OF assms(2) arg]) (use assms(1) in \<open>simp add: awaits_request_def\<close>)
  then have "head_line stold None ?line (?p\<lparr>p_src := rest\<rparr>) = Next 0 None ((line_read p m arg)\<lparr>p_src := rest\<rparr>)"
    using assms(1) by (simp add: head_line_def awaits_request_def set_error_def line_read_def)
  moreover have "p_src ?p = ?line @ CRLF @ rest" by simp
  moreover have "free_of CRLF ?line"
    by (rule free_of_CRLF) (rule request_line_chars [OF assms(2) arg(1)])
  ultimately show ?thesis using head_loop_line [of ?p ?line rest stold None] assms(4) by simp
qed

text \<open>The cookies, if there are any, are one more header line.\<close>

lemma read_cookie_line:
  assumes "p_state p = Reading_headers" "p_cookie p = Some request_cookie" "rq_cookies (p_owner p) = []"
    and "map_inv m" "list_all good_cookie m" "rest \<noteq> []" "p_src p = cookie_line m @ rest"
  shows "head_loop stold None p =
    head_loop stold None (p\<lparr>p_src := rest, p_owner := (p_owner p)\<lparr>rq_cookies := m\<rparr>\<rparr>)"
proof (cases "m = []")
  case True
  have "p_owner p\<lparr>rq_cookies := []\<rparr> = p_owner p" using assms(3) by (cases "p_owner p") simp
  then have "p\<lparr>p_src := rest, p_owner := (p_owner p)\<lparr>rq_cookies := m\<rparr>\<rparr> = p"
    using assms(7) True by (cases p) (simp add: cookie_line_def)
  then show ?thesis by simp
next
  case False
  let ?line = "''Cookie: '' @ cookie_text m"
  have "p_src p = ?line @ CRLF @ rest" using assms(7) False by (simp add: cookie_line_def)
  moreover have "free_of CRLF ?line"
    using cookie_text_chars(2) [OF assms(5)] by (intro free_of_CRLF) simp
  moreover have "head_line stold None ?line (p\<lparr>p_src := rest\<rparr>) =
      Next 0 None (p\<lparr>p_src := rest, p_owner := (p_owner p)\<lparr>rq_cookies := m\<rparr>\<rparr>)"
    using head_line_cookie [of "p\<lparr>p_src := rest\<rparr>" m stold] assms(1-5) by simp
  ultimately show ?thesis using head_loop_line [of p ?line rest stold None] assms(6) by simp
qed

text \<open>A parser that has read a request.\<close>

definition request_read :: "request_parser \<Rightarrow> http_method \<Rightarrow> request_arg \<Rightarrow> string \<Rightarrow> request_parser" where
  "request_read p m arg body = (line_read p m arg)\<lparr>p_src := [],
     p_headers := map (\<lambda>(k, v). (str_to_lower k, v)) (message_headers (length body) (ra_headers arg)),
     p_owner := (p_owner (line_read p m arg))\<lparr>rq_cookies := ra_cookies arg\<rparr>,
     p_content_length := length body, p_body := body, p_state := Finished\<rparr>"

lemma read_request_head:
  assumes "awaits_request p" "method_string (method_value m) = Inr ms" "good_request arg" "length body < 2 ^ 64"
  defines "M \<equiv> message_headers (length body) (ra_headers arg)"
  shows "head_loop stold None (p\<lparr>p_src :=
      ms @ '' '' @ request_target (ra_path arg) (ra_parameters arg) @ '' HTTP/1.1'' @ CRLF @
      header_lines M @ cookie_line (ra_cookies arg) @ CRLF @ body\<rparr>) = Inr (True, None, request_read p m arg body)"
proof -
  let ?L = "line_read p m arg" and ?H = "map (\<lambda>(k, v). (str_to_lower k, v)) M"
  let ?P = "?L\<lparr>p_src := cookie_line (ra_cookies arg) @ CRLF @ body, p_headers := ?H\<rparr>"
  let ?rest = "cookie_line (ra_cookies arg) @ CRLF @ body"
  have arg: "list_all plain_header (ra_headers arg)" "map_inv (ra_cookies arg)"
      "list_all good_cookie (ra_cookies arg)"
    using assms(3) by (auto simp: good_request_def)
  have fields: "p_state ?L = Reading_headers" "p_cookie ?L = Some request_cookie"
      "rq_cookies (p_owner ?L) = []" "p_headers ?L = []" "p_body ?L = []"
    using assms(1) by (simp_all add: line_read_def awaits_request_def)
  have "head_loop stold None (p\<lparr>p_src :=
      ms @ '' '' @ request_target (ra_path arg) (ra_parameters arg) @ '' HTTP/1.1'' @ CRLF @ header_lines M @ ?rest\<rparr>) =
      head_loop stold None (?L\<lparr>p_src := header_lines M @ ?rest\<rparr>)"
    by (rule read_request_line [OF assms(1-3)]) (simp add: CRLF_def)
  also have "\<dots> = head_loop stold None (?L\<lparr>p_src := ?rest, p_headers := ?H\<rparr>)"
    using head_loop_headers [of "?L\<lparr>p_src := header_lines M @ ?rest\<rparr>" M ?rest stold]
      message_headers_good [OF arg(1)] foldl_assign_lower [OF message_headers_inv] fields
    by (simp add: M_def CRLF_def)
  also have "\<dots> = head_loop stold None (?P\<lparr>p_src := CRLF @ body,
      p_owner := (p_owner ?P)\<lparr>rq_cookies := ra_cookies arg\<rparr>\<rparr>)"
    using arg(2,3) fields by (intro read_cookie_line) (simp_all add: CRLF_def)
  also have "\<dots> = Inr (True, None, ?P\<lparr>p_src := CRLF @ body,
      p_owner := (p_owner ?P)\<lparr>rq_cookies := ra_cookies arg\<rparr>,
      p_content_length := length body, p_body := body, p_src := [], p_state := Finished\<rparr>)"
    using fields map_find_lower_keys [of M] message_headers_find [OF arg(1)] assms(4)
    by (intro empty_line_length) (simp_all add: M_def)
  finally show ?thesis by (cases "line_read p m arg") (simp add: request_read_def M_def)
qed

text \<open>From one side to the other, into any parser that waits.\<close>

lemma request_arrives:
  assumes "awaits_request p" "good_request arg" "length body < 2 ^ 64"
  shows "\<exists>head h. request_header_data stold v11 (method_value m) (length body) arg new_helper = Inr (head, h) \<and>
    h_headers h = message_headers (length body) (ra_headers arg) \<and> head \<noteq> [] \<and>
    request_append stold (head @ fst (body_data body h)) p = Inr (True, None, derive_attributes (request_read p m arg body))"
proof -
  obtain ms where ms: "method_string (method_value m) = Inr ms"
    using from_method_string_of [OF method_of_value [of m]] by auto
  note printed = request_header_text [OF ms assms(2), of stold "length body"]
  have body: "fst (body_data body (sent_helper (length body) arg)) = body"
    by (simp add: body_data_def sent_helper_def)
  have "p_src p = []" "p_state p = Waiting_request" using assms(1) by (simp_all add: awaits_request_def)
  with printed body read_request_head [OF assms(1) ms assms(2,3), of stold] show ?thesis
    by (simp add: request_append_def parser_append_def parse_header_def sent_helper_def CRLF_def)
qed

lemma request_crosses:
  assumes "good_request arg" "length body < 2 ^ 64"
  shows "\<exists>head h q. request_header_data stold v11 (method_value m) (length body) arg new_helper = Inr (head, h) \<and>
    request_append stold (head @ fst (body_data body h)) new_request_parser = Inr (True, None, q) \<and>
    is_finished q \<and> p_version q = v11 \<and> p_body q = body \<and>
    p_headers q = map (\<lambda>(k, v). (str_to_lower k, v)) (h_headers h) \<and>
    rq_method (p_owner q) = m \<and> rq_path (p_owner q) = ra_path arg \<and>
    rq_parameters (p_owner q) = ra_parameters arg \<and> rq_cookies (p_owner q) = ra_cookies arg"
  using request_arrives [OF new_awaits_request assms, of stold m]
  by (auto simp: derive_attributes_def is_finished_def request_read_def line_read_def)

section \<open>Properties\<close>

text \<open>C4.
  A request crosses the library unchanged: for any method, path, parameters, cookies,
  headers and body in the alphabets of HTTP, what the client prints is accepted by the
  server in one piece, which then has the same method, path, parameters, cookies and body,
  and the headers that were printed, with lower-case names.
\<close>

theorem http_request_roundtrip:
  assumes "good_request arg" "length body < 2 ^ 64"
  shows "\<exists>head h q. request_header_data stold v11 (method_value m) (length body) arg new_helper = Inr (head, h) \<and>
    request_append stold (head @ fst (body_data body h)) new_request_parser = Inr (True, None, q) \<and>
    is_finished q \<and> p_version q = v11 \<and> p_body q = body \<and>
    p_headers q = map (\<lambda>(k, v). (str_to_lower k, v)) (h_headers h) \<and>
    rq_method (p_owner q) = m \<and> rq_path (p_owner q) = ra_path arg \<and>
    rq_parameters (p_owner q) = ra_parameters arg \<and> rq_cookies (p_owner q) = ra_cookies arg"
  by (rule request_crosses [OF assms])

theorem http_request_roundtrip_witness:
  "\<exists>head h q. request_header_data (\<lambda>s. Inl Invalid_argument) v11 (method_value POST) (length ''hello'')
      \<lparr>ra_path = ''/a/b'', ra_parameters = [(''q'', ''x y'')], ra_headers = [(''Host'', ''h'')],
       ra_cookies = [(''id'', ''7'')]\<rparr> new_helper = Inr (head, h) \<and>
    request_append (\<lambda>s. Inl Invalid_argument) (head @ fst (body_data ''hello'' h)) new_request_parser =
      Inr (True, None, q) \<and>
    rq_path (p_owner q) = ''/a/b'' \<and> p_body q = ''hello''"
proof -
  have "str_to_lower ''Host'' = ''host''" by code_simp
  then have "good_request \<lparr>ra_path = ''/a/b'', ra_parameters = [(''q'', ''x y'')],
      ra_headers = [(''Host'', ''h'')], ra_cookies = [(''id'', ''7'')]\<rparr>"
    by (simp add: good_request_def good_path_def normal_path_def starts_with_def ends_with_def map_inv_Cons
        good_parameter_def good_cookie_def plain_header_def good_header_def trim_id is_blank_def schar_def uchar_def)
  from http_request_roundtrip [OF this, of "''hello''" "\<lambda>s. Inl Invalid_argument" POST]
  show ?thesis by simp blast
qed

end
