(* ===== verification/Mime_Tables.thy ===== *)
theory Mime_Tables
  imports Prelude
begin

text \<open>
  The tables of \<^verbatim>\<open>libgs/core/algorithm/mime_type.cpp\<close>: MIME types by file name suffix, and by
  the first bytes of a file at offset 0 and at offset 4. The suffix table is given in five
  parts, in the order of the source. A key is built from a C string, which ends at its first
  zero byte (\<open>cstr\<close>).
\<close>

definition cstr :: "string \<Rightarrow> string" where
  "cstr s = takeWhile (\<lambda>c. c \<noteq> CHR 0x00) s"

section \<open>Suffixes\<close>

definition suffix_table_1 :: "(string \<times> string) list" where
  "suffix_table_1 =
     [(''.1'', ''text/troff''), (''.3ds'', ''image/x-3ds''), (''.3fr'', ''image/x-raw-hasselblad''),
      (''.3g2'', ''video/3gpp2''), (''.3gp'', ''video/3gpp''),
      (''.3mf'', ''application/vnd.ms-package.3dmanufacturing-3dmodel+xml''), (''.4th'', ''text/x-forth''),
      (''.669'', ''audio/x-mod''), (''.6pl'', ''text/x-perl''), (''.7z'', ''application/x-7z-compressed''),
      (''.8svx'', ''audio/8svx''), (''.ML'', ''text/x-ocaml''),
      (''.MYD'', ''application/x-mysql-misam-data''),
      (''.MYI'', ''application/x-mysql-misam-compressed-index''), (''.R'', ''text/x-rsrc''),
      (''.TIF'', ''image/tiff''), (''.XXX'', ''application/octet-stream''),
      (''.Z'', ''application/x-compress''), (''.aa'', ''audio/x-pn-audibleaudio''),
      (''.ac3'', ''audio/ac3''), (''.acsm'', ''application/vnd.adobe.adept+xml''),
      (''.ada'', ''text/x-ada''), (''.adf'', ''multipart/appledouble''),
      (''.afa'', ''application/x-astrotite-afa''), (''.afm'', ''application/x-font-adobe-metric''),
      (''.ai'', ''application/illustrator''), (''.aif'', ''audio/x-aiff''), (''.aifc'', ''audio/x-aiff''),
      (''.aiff'', ''audio/x-aiff''),
      (''.air'', ''application/vnd.adobe.air-application-installer-package+zip;version='' @ [CHR 0x22] @ ''1.0'' @ [CHR 0x22]),
      (''.aj'', ''text/x-aspectj''), (''.amr'', ''audio/amr''), (''.anim'', ''text/x-yaml''),
      (''.anpa'', ''text/vnd.iptc.anpa''), (''.ans'', ''text/plain''), (''.apl'', ''text/apl''),
      (''.apng'', ''image/vnd.mozilla.apng''), (''.applescript'', ''text/x-applescript''),
      (''.apr'', ''application/vnd.lotus-approach;version='' @ [CHR 0x22] @ ''97'' @ [CHR 0x22]),
      (''.apt'', ''application/vnd.lotus-approach''),
      (''.arc'', ''application/x-internet-archive;version='' @ [CHR 0x22] @ ''1.0'' @ [CHR 0x22]),
      (''.arw'', ''image/x-raw-sony''), (''.as'', ''text/x-actionscript''), (''.asc'', ''text/plain''),
      (''.asciidoc'', ''text/x-asciidoc''), (''.asf'', ''application/vnd.ms-asf''),
      (''.asice'', ''application/vnd.etsi.asic-e+zip''), (''.asics'', ''application/vnd.etsi.asic-s+zip''),
      (''.asn'', ''text/x-ttcn-asn''), (''.asp'', ''application/x-aspx''), (''.aspx'', ''text/aspdotnet''),
      (''.asy'', ''text/x-spreadsheet''), (''.atom'', ''application/atom+xml''), (''.au'', ''audio/basic''),
      (''.avi'', ''video/msvideo''), (''.awb'', ''audio/amr-wb''), (''.awk'', ''text/x-awk''),
      (''.axc'', ''text/plain''), (''.axx'', ''application/x-axcrypt''), (''.b'', ''text/x-brainfuck''),
      (''.b6z'', ''application/x-b6z-compressed''), (''.bas'', ''text/x-basic''),
      (''.bay'', ''image/x-raw-casio''), (''.bik'', ''video/vnd.radgamettools.bink''),
      (''.bik2'', ''video/vnd.radgamettools.bink;version='' @ [CHR 0x22] @ ''2'' @ [CHR 0x22]),
      (''.bin'', ''application/x-macbinary''), (''.bmp'', ''image/bmp''), (''.bpg'', ''image/x-bpg''),
      (''.bpm'', ''application/bizagi-modeler''), (''.bsp'', ''model/vnd.valve.source.compiled-map''),
      (''.btf'', ''image/tiff''), (''.bw'', ''image/x-sgi-bw''), (''.bz2'', ''application/x-bzip2''),
      (''.c'', ''text/x-csrc''), (''.cab'', ''application/vnd.ms-cab-compressed''),
      (''.cabal'', ''text/x-haskell''), (''.cap'', ''application/vnd.tcpdump.pcap''),
      (''.catmaterial'', ''application/octet-stream;version='' @ [CHR 0x22] @ ''5'' @ [CHR 0x22]),
      (''.catpart'', ''application/octet-stream;version='' @ [CHR 0x22] @ ''5'' @ [CHR 0x22]),
      (''.catproduct'', ''application/octet-stream;version='' @ [CHR 0x22] @ ''5'' @ [CHR 0x22]),
      (''.cbl'', ''text/x-cobol''), (''.cbor'', ''application/cbor''), (''.cbz'', ''application/x-cbr''),
      (''.cca'', ''application/octet-stream''), (''.cda'', ''application/x-cdf''),
      (''.cdf'', ''application/x-netcdf''), (''.cdx'', ''chemical/x-cdx''), (''.cfg'', ''text/x-config''),
      (''.cfm'', ''text/x-coldfusion''), (''.cfs'', ''application/x-cfs-compressed''),
      (''.cgi'', ''text/x-cgi''), (''.cgm'', ''image/cgm''), (''.chm'', ''application/vnd.ms-htmlhelp''),
      (''.chrt'', ''application/x-kchart''), (''.chs'', ''text/x-haskell''), (''.cif'', ''chemical/x-cif''),
      (''.ck'', ''text/x-java''), (''.cl'', ''text/x-common-lisp''), (''.class'', ''application/x-java''),
      (''.clj'', ''text/x-clojure''), (''.cls'', ''text/x-vbasic''), (''.cmake'', ''text/x-cmake''),
      (''.cml'', ''chemical/x-cml''), (''.cob'', ''text/x-cobol''), (''.cod'', ''image/cis-cod''),
      (''.coffee'', ''application/vnd.coffeescript''), (''.cp'', ''text/x-pascal''),
      (''.cpio'', ''application/x-cpio''), (''.cpp'', ''text/x-c++src''), (''.cr'', ''text/x-crystal''),
      (''.crw'', ''image/x-canon-crw''), (''.crx'', ''application/x-chrome-package''),
      (''.cs'', ''text/x-csharp''), (''.cshtml'', ''text/html''), (''.cson'', ''text/x-coffeescript''),
      (''.csr'', ''application/pkcs10''), (''.css'', ''text/css''), (''.csv'', ''text/csv''),
      (''.csvs'', ''text/csv-schema''), (''.cu'', ''text/x-c++src''), (''.cur'', ''image/x-win-bitmap''),
      (''.cwl'', ''text/x-yaml''), (''.cy'', ''text/javascript''), (''.d'', ''text/x-d''),
      (''.dae'', ''text/xml''), (''.dart'', ''application/dart''), (''.dat'', ''application/dbase''),
      (''.db'', ''application/x-sqlite3''), (''.dbf'', ''application/x-dbf''),
      (''.dcm'', ''application/dicom''), (''.dcr'', ''application/x-director''), (''.dcx'', ''image/x-dcx''),
      (''.deb'', ''application/vnd.debian.binary-package''), (''.der'', ''application/x-x509-ca-cert''),
      (''.dex'', ''application/x-dex''), (''.dgc'', ''application/x-dgc-compressed''),
      (''.diff'', ''text/x-diff''), (''.dir'', ''application/x-director''),
      (''.dita'', ''application/dita+xml;format=topic''),
      (''.ditamap'', ''application/dita+xml;format=map''),
      (''.ditaval'', ''application/dita+xml;format=val''), (''.diz'', ''text/plain''),
      (''.djv'', ''image/vnd.djvu''), (''.djvu'', ''image/vnd.djvu''),
      (''.dll'', ''application/octet-stream''), (''.dls'', ''audio/dls''),
      (''.dmg'', ''application/x-apple-diskimage''), (''.dng'', ''image/x-raw-adobe''),
      (''.doc'', ''application/msword''), (''.dockerfile'', ''text/x-dockerfile'')]"

definition suffix_table_2 :: "(string \<times> string) list" where
  "suffix_table_2 =
     [(''.docm'', ''application/vnd.ms-word.document.macroenabled.12''),
      (''.docx'', ''application/vnd.openxmlformats-officedocument.wordprocessingml.document''),
      (''.dot'', ''application/msword;version='' @ [CHR 0x22] @ ''97-2003'' @ [CHR 0x22]),
      (''.dotm'', ''application/vnd.ms-word.template.macroenabled.12''),
      (''.dotx'', ''application/vnd.openxmlformats-officedocument.wordprocessingml.template''),
      (''.dpx'', ''image/x-dpx''), (''.drc'', ''video/x-dirac''), (''.druby'', ''text/x-ruby''),
      (''.dtd'', ''application/xml-dtd''), (''.dts'', ''audio/vnd.dts''), (''.dv'', ''video/dv''),
      (''.dvi'', ''application/x-dvi''),
      (''.dwf'', ''application/dwf;version='' @ [CHR 0x22] @ ''6.0'' @ [CHR 0x22]),
      (''.dwfx'', ''model/vnd.dwfx+xps''), (''.dwg'', ''image/vnd.dwg''),
      (''.dwl'', ''application/octet-stream''), (''.dx'', ''application/dec-dx.''),
      (''.dxb'', ''image/vnd.dxb''), (''.dxf'', ''image/vnd.dxf''),
      (''.dxr'', ''audio/prs.sid;version='' @ [CHR 0x22] @ ''1'' @ [CHR 0x22]),
      (''.dylan'', ''text/x-dylan''), (''.e'', ''text/x-eiffel''), (''.eb'', ''text/x-python''),
      (''.ebnf'', ''text/x-ebnf''), (''.ebuild'', ''text/x-sh''), (''.ecl'', ''text/x-ecl''),
      (''.eclass'', ''text/x-sh''), (''.ecr'', ''text/html''), (''.edc'', ''application/json''),
      (''.edn'', ''text/x-clojure''), (''.eex'', ''text/html''), (''.el'', ''text/x-emacs-lisp''),
      (''.elc'', ''application/x-elc''), (''.elm'', ''text/x-elm''), (''.em'', ''text/x-coffeescript''),
      (''.emf'', ''image/emf''), (''.eml'', ''message/rfc822''), (''.enr'', ''application/x-endnote-refer''),
      (''.ens'', ''application/x-endnote-style''), (''.enz'', ''application/x-endnote-connect''),
      (''.eot'', ''application/vnd.ms-fontobject''), (''.epj'', ''application/json''),
      (''.eps'', ''application/postscript''), (''.epub'', ''application/epub+zip''),
      (''.eq'', ''text/x-csharp''), (''.erb'', ''application/x-erb''), (''.erf'', ''image/x-raw-epson''),
      (''.erl'', ''text/x-erlang''), (''.es'', ''application/ecmascript''),
      (''.exe'', ''application/x-dosexec''), (''.exp'', ''text/x-expect''),
      (''.exr'', ''image/x-exr;version='' @ [CHR 0x22] @ ''2'' @ [CHR 0x22]), (''.f'', ''text/x-fortran''),
      (''.f4a'', ''video/mp4''), (''.f4m'', ''application/f4m''), (''.f90'', ''text/x-fortran''),
      (''.factor'', ''text/x-factor''), (''.fb2'', ''application/x-fictionbook+xml''),
      (''.fdf'', ''application/vnd.fdf''), (''.fff'', ''image/x-raw-imacon''),
      (''.fh'', ''image/x-freehand''), (''.fig'', ''application/x-matlab-data''),
      (''.fits'', ''image/fits''), (''.flac'', ''audio/flac''), (''.flif'', ''image/flif''),
      (''.flv'', ''video/x-flv''), (''.fm'', ''application/vnd.framemaker''),
      (''.fmz'', ''application/octet-stream''), (''.folio'', ''application/vnd.adobe.folio+zip''),
      (''.fp7'', ''application/x-filemaker''), (''.fpx'', ''image/vnd.fpx''), (''.fref'', ''text/plain''),
      (''.fs'', ''text/x-fsharp''), (''.fth'', ''text/x-forth''), (''.g3'', ''image/g3fax''),
      (''.gbr'', ''application/vnd.gerber''), (''.gca'', ''application/x-gca-compressed''),
      (''.geo'', ''application/vnd.geogebra.file;version='' @ [CHR 0x22] @ ''1.0'' @ [CHR 0x22]),
      (''.gf'', ''text/x-haskell''), (''.ggb'', ''application/vnd.geogebra.file''),
      (''.gif'', ''image/gif''), (''.gitconfig'', ''text/x-properties''), (''.gitignore'', ''text/x-sh''),
      (''.glf'', ''text/x-tcl''), (''.gml'', ''application/gml+xml''), (''.gn'', ''text/x-python''),
      (''.gnumeric'', ''application/x-gnumeric''), (''.go'', ''text/x-go''),
      (''.grb'', ''application/x-grib''), (''.groovy'', ''text/x-groovy''),
      (''.gsp'', ''application/x-jsp''), (''.gtar'', ''application/x-gtar''),
      (''.gz'', ''application/gzip''), (''.h'', ''text/x-chdr''), (''.haml'', ''text/x-haml''),
      (''.hcl'', ''text/x-ruby''), (''.hdf'', ''application/x-hdf''), (''.hdp'', ''image/vnd.ms-photo''),
      (''.hdr'', ''image/vnd.radiance''), (''.hh'', ''application/x-httpd-php''),
      (''.hpgl'', ''application/vnd.hp-hpgl''), (''.hpp'', ''text/x-c++hdr''),
      (''.hqx'', ''application/mac-binhex''), (''.hs'', ''text/x-haskell''), (''.htm'', ''text/html''),
      (''.html'', ''text/html''), (''.http'', ''message/http''), (''.hx'', ''text/x-haxe''),
      (''.ibooks'', ''application/x-ibooks+zip''), (''.ico'', ''image/vnd.microsoft.icon''),
      (''.ics'', ''text/calendar''), (''.idl'', ''text/x-idl''),
      (''.idml'', ''application/vnd.adobe.indesign-idml-package''),
      (''.iges'', ''model/iges;version='' @ [CHR 0x22] @ ''5.x'' @ [CHR 0x22]), (''.igs'', ''model/iges''),
      (''.iiq'', ''image/x-raw-phaseone''),
      (''.ind'', ''application/octet-stream;version='' @ [CHR 0x22] @ ''generic'' @ [CHR 0x22]),
      (''.indd'', ''application/x-adobe-indesign''), (''.inf'', ''application/inf''),
      (''.ini'', ''text/x-ini''), (''.inx'', ''application/x-adobe-indesign-interchange''),
      (''.ipa'', ''application/x-itunes-ipa''), (''.ipynb'', ''application/json''),
      (''.irclog'', ''text/mirc''), (''.iso'', ''application/x-iso9660-image''),
      (''.itk'', ''application/x-tcl''), (''.j2c'', ''image/x-jp2-codestream''), (''.jade'', ''text/x-pug''),
      (''.jar'', ''application/java-archive''), (''.java'', ''text/x-java''),
      (''.jinja'', ''text/x-django''), (''.jl'', ''text/x-julia''), (''.jls'', ''image/jls''),
      (''.jng'', ''image/x-jng''), (''.jnilib'', ''application/x-java-jnilib''), (''.jp2'', ''image/jpx''),
      (''.jpe'', ''image/jpeg''), (''.jpf'', ''image/jpx''), (''.jpg'', ''image/jpeg''),
      (''.jpm'', ''image/jpm''), (''.jq'', ''application/json''), (''.js'', ''application/javascript''),
      (''.json'', ''application/json''), (''.json-patch'', ''application/json-patch+json''),
      (''.json5'', ''application/json''), (''.jsonld'', ''application/ld+json''),
      (''.jsp'', ''application/x-jsp''), (''.jsx'', ''text/jsx''), (''.jxr'', ''image/jxr''),
      (''.k25'', ''image/x-raw-kodak'')]"

definition suffix_table_3 :: "(string \<times> string) list" where
  "suffix_table_3 =
     [(''.kicad_pcb'', ''text/x-common-lisp''), (''.kid'', ''text/xml''),
      (''.kil'', ''application/x-killustrator''), (''.kit'', ''text/html''),
      (''.kml'', ''application/vnd.google-earth.kml+xml''), (''.kmz'', ''application/vnd.google-earth.kmz''),
      (''.kpr'', ''application/x-kpresenter''), (''.kra'', ''application/x-krita''),
      (''.ksp'', ''application/x-kspread''), (''.kt'', ''text/x-kotlin''), (''.ktx'', ''image/ktx''),
      (''.kwd'', ''application/x-kword''), (''.l'', ''text/x-lex''), (''.latex'', ''application/x-latex''),
      (''.latte'', ''text/x-smarty''), (''.less'', ''text/x-less''), (''.lfe'', ''text/x-common-lisp''),
      (''.lha'', ''application/x-lzh-compressed''), (''.lhs'', ''text/x-literate-haskell''),
      (''.lisp'', ''text/x-common-lisp''), (''.log'', ''text/x-log''), (''.lookml'', ''text/x-yaml''),
      (''.ls'', ''text/x-livescript''), (''.lua'', ''text/x-lua''), (''.lvproj'', ''text/xml''),
      (''.lwp'', ''application/vnd.lotus-wordpro''), (''.lz'', ''application/x-lzip''),
      (''.lzma'', ''application/x-lzma''), (''.m'', ''text/x-objcsrc''), (''.m3'', ''text/x-modula''),
      (''.m3u'', ''audio/x-mpegurl''), (''.maff'', ''application/x-maff''), (''.mak'', ''text/x-cmake''),
      (''.marko'', ''text/html''), (''.mas'', ''application/vnd.lotus-freelance''),
      (''.mat'', ''application/matlab-mat''), (''.mathematica'', ''text/x-mathematica''),
      (''.matlab'', ''text/x-octave''), (''.maxpat'', ''application/json''),
      (''.mbox'', ''application/mbox''), (''.mbx'', ''application/mbox''),
      (''.mcw'', ''application/msword;version='' @ [CHR 0x22] @ ''5.0'' @ [CHR 0x22]),
      (''.md'', ''text/markdown''), (''.mdi'', ''image/vnd.ms-modi''), (''.mef'', ''image/x-raw-mamiya''),
      (''.metal'', ''text/x-c++src''), (''.mht'', ''multipart/multipart/related''),
      (''.mid'', ''audio/midi''), (''.mif'', ''application/x-mif''), (''.mix'', ''image/vnd.mix''),
      (''.mj2'', ''video/mj2''), (''.mkv'', ''video/x-matroska''), (''.ml'', ''text/x-ocaml''),
      (''.mlp'', ''audio/vnd.dolby.mlp''), (''.mm'', ''application/x-freemind''),
      (''.mmp'', ''application/vnd.mindjet.mindmanager''), (''.mmr'', ''image/vnd.fujixerox.edmics-mmr''),
      (''.mng'', ''video/x-mng''), (''.mo'', ''text/x-modelica''),
      (''.mobi'', ''application/x-mobipocket-ebook''),
      (''.mod'', ''application/octet-stream;version='' @ [CHR 0x22] @ ''4'' @ [CHR 0x22]),
      (''.mol'', ''chemical/x-mdl-molfile''), (''.mos'', ''image/x-raw-leaf''),
      (''.mov'', ''video/quicktime''), (''.mp1'', ''audio/mpeg''), (''.mp2'', ''audio/mpeg''),
      (''.mp3'', ''audio/mpeg''), (''.mp4'', ''video/mp4''), (''.mpeg'', ''video/mpeg''),
      (''.mpg'', ''video/mpeg''), (''.mpga'', ''audio/mpeg''),
      (''.mpp'', ''application/vnd.ms-project;version='' @ [CHR 0x22] @ ''2010'' @ [CHR 0x22]),
      (''.mpx'', ''application/x-project;version='' @ [CHR 0x22] @ ''4.0'' @ [CHR 0x22]),
      (''.mrc'', ''application/marc''), (''.mrw'', ''image/x-raw-minolta''),
      (''.msg'', ''application/vnd.ms-outlook''), (''.msi'', ''application/x-msi''),
      (''.mso'', ''application/x-mso''), (''.mtml'', ''text/html''), (''.muf'', ''text/x-forth''),
      (''.mumps'', ''text/x-mumps''), (''.mxf'', ''application/mxf''),
      (''.mxl'', ''application/vnd.recordare.musicxml''), (''.mxmf'', ''audio/mobile-xmf''),
      (''.n3'', ''text/n3''), (''.nap'', ''image/naplps''), (''.nb'', ''application/mathematica''),
      (''.nc'', ''application/x-netcdf''), (''.nef'', ''image/x-raw-nikon''), (''.nfo'', ''text/x-nfo''),
      (''.nginxconf'', ''text/x-nginx-conf''), (''.nif'', ''application/vnd.music-niff''),
      (''.nl'', ''text/x-common-lisp''), (''.nlogo'', ''text/x-common-lisp''),
      (''.ns2'', ''application/vnd.lotus-notes;version='' @ [CHR 0x22] @ ''2'' @ [CHR 0x22]),
      (''.ns3'', ''application/vnd.lotus-notes;version='' @ [CHR 0x22] @ ''3'' @ [CHR 0x22]),
      (''.ns4'', ''application/vnd.lotus-notes;version='' @ [CHR 0x22] @ ''4'' @ [CHR 0x22]),
      (''.nsf'', ''application/vnd.lotus-notes''), (''.nsi'', ''text/x-nsis''),
      (''.ntf'', ''application/vnd.nitf''), (''.nu'', ''text/x-scheme''), (''.numpy'', ''text/x-python''),
      (''.nut'', ''text/x-c++src''), (''.ocaml'', ''text/x-ocaml''),
      (''.odb'', ''application/vnd.oasis.opendocument.database''),
      (''.odc'', ''application/vnd.oasis.opendocument.chart''),
      (''.odf'', ''application/vnd.oasis.opendocument.formula''),
      (''.odft'', ''application/vnd.oasis.opendocument.formula-template''),
      (''.odg'', ''application/vnd.oasis.opendocument.graphics''),
      (''.odi'', ''application/vnd.oasis.opendocument.image''),
      (''.odm'', ''application/vnd.oasis.opendocument.text-master''),
      (''.odp'', ''application/vnd.oasis.opendocument.presentation''),
      (''.ods'', ''application/vnd.oasis.opendocument.spreadsheet''),
      (''.odt'', ''application/vnd.oasis.opendocument.text''),
      (''.ofx'', ''application/x-ofx;version='' @ [CHR 0x22] @ ''2.1.1'' @ [CHR 0x22]),
      (''.oga'', ''audio/ogg''), (''.ogg'', ''audio/ogg''), (''.ogm'', ''video/x-ogm''),
      (''.ogv'', ''video/ogg''), (''.ogx'', ''application/ogg''), (''.one'', ''application/msonenote''),
      (''.opf'', ''application/x-dtbook+xml''), (''.opus'', ''audio/opus''),
      (''.ora'', ''image/openraster''), (''.orf'', ''image/x-raw-olympus''),
      (''.otc'', ''application/vnd.oasis.opendocument.chart-template''),
      (''.otf'', ''application/x-font-otf''),
      (''.otg'', ''application/vnd.oasis.opendocument.graphics-template''),
      (''.oth'', ''application/vnd.oasis.opendocument.text-web''),
      (''.oti'', ''application/vnd.oasis.opendocument.image-template''),
      (''.otm'', ''application/vnd.oasis.opendocument.text-master''),
      (''.otp'', ''application/vnd.oasis.opendocument.presentation-template''),
      (''.ots'', ''application/vnd.oasis.opendocument.spreadsheet-template''),
      (''.ott'', ''application/vnd.oasis.opendocument.text-template''), (''.ova'', ''application/x-ova''),
      (''.oxps'', ''application/oxps''), (''.oz'', ''text/x-oz''), (''.p'', ''text/x-pascal''),
      (''.p65'', ''application/vnd.pagemaker''), (''.pab'', ''application/vnd.ms-outlook''),
      (''.pack'', ''application/package''), (''.pam'', ''image/x-portable-arbitrarymap''),
      (''.pas'', ''text/x-pascal''), (''.pbm'', ''image/x-portable-bitmap''),
      (''.pcap'', ''application/vnd.tcpdump.pcap''), (''.pcapng'', ''application/vnd.tcpdump.pcap''),
      (''.pcl'', ''application/vnd.hp-pcl''),
      (''.pct'', ''image/x-pict;version='' @ [CHR 0x22] @ ''2.0'' @ [CHR 0x22]),
      (''.pcx'', ''image/vnd.zbrush.pcx''), (''.pdb'', ''application/vnd.palm'')]"

definition suffix_table_4 :: "(string \<times> string) list" where
  "suffix_table_4 =
     [(''.pdf'', ''application/pdf''), (''.pfm'', ''application/x-font-printer-metric''),
      (''.pfr'', ''application/font-tdpfr''), (''.pgm'', ''image/x-portable-graymap''),
      (''.pgn'', ''application/x-chess-pgn''), (''.pgsql'', ''text/x-sql''), (''.php'', ''text/x-php''),
      (''.phtml'', ''application/x-httpd-php''), (''.pic'', ''image/x-pict''), (''.pict'', ''image/x-pict''),
      (''.pkpass'', ''application/vnd.apple.pkpass''), (''.pl'', ''text/x-perl''),
      (''.pls'', ''text/x-plsql''), (''.png'', ''image/png''), (''.pnm'', ''image/x-portable-anymap''),
      (''.pod'', ''text/x-perl''), (''.por'', ''application/x-spss-por''),
      (''.potm'', ''application/vnd.ms-powerpoint.template.macroenabled.12;version='' @ [CHR 0x22] @ ''2007'' @ [CHR 0x22]),
      (''.potx'', ''application/vnd.openxmlformats-officedocument.presentationml.template''),
      (''.pp'', ''text/x-puppet''), (''.ppam'', ''application/vnd.ms-powerpoint.addin.macroenabled.12''),
      (''.ppm'', ''image/x-portable-pixmap''),
      (''.pps'', ''application/vnd.ms-powerpoint;version='' @ [CHR 0x22] @ ''97-2003'' @ [CHR 0x22]),
      (''.ppsm'', ''application/vnd.ms-powerpoint.slideshow.macroenabled.12''),
      (''.ppsx'', ''application/vnd.openxmlformats-officedocument.presentationml.slideshow''),
      (''.ppt'', ''application/vnd.ms-powerpoint''),
      (''.pptm'', ''application/vnd.ms-powerpoint.presentation.macroenabled.12''),
      (''.pptx'', ''application/vnd.openxmlformats-officedocument.presentationml.presentation''),
      (''.prc'', ''application/vnd.palm''), (''.pro'', ''text/x-prolog''),
      (''.project'', ''application/octet-stream;version='' @ [CHR 0x22] @ ''4'' @ [CHR 0x22]),
      (''.properties'', ''text/properties''), (''.proto'', ''text/x-protobuf''),
      (''.ps'', ''application/postscript''), (''.ps1'', ''application/x-powershell''),
      (''.psb'', ''image/vnd.adobe.photoshop''), (''.psd'', ''image/vnd.adobe.photoshop''),
      (''.psid'', ''audio/prs.sid;version='' @ [CHR 0x22] @ ''2'' @ [CHR 0x22]),
      (''.pst'', ''application/vnd.ms-outlook-pst''), (''.ptx'', ''image/x-raw-pentax''),
      (''.purs'', ''text/x-haskell''), (''.pxn'', ''image/x-raw-logitech''), (''.py'', ''text/x-python''),
      (''.pyx'', ''text/x-cython''), (''.qcd'', ''application/vnd.quark.quarkxpress''),
      (''.qcp'', ''audio/qcelp''), (''.qif'', ''application/qif''),
      (''.qxp'', ''application/vnd.quark.quarkxpress''),
      (''.qxp report'', ''application/vnd.quark.quarkxpress''), (''.r'', ''text/x-rsrc''),
      (''.r3d'', ''image/x-raw-red''), (''.ra'', ''audio/vnd.rn-realaudio''),
      (''.raf'', ''image/x-raw-fuji''), (''.ram'', ''audio/vnd.rn-realaudio''), (''.raml'', ''text/x-yaml''),
      (''.rar'', ''application/vnd.rar''), (''.rar'', ''application/vnd.rar''),
      (''.ras'', ''image/x-sun-raster''), (''.raw'', ''image/x-raw-panasonic''), (''.rb'', ''text/x-ruby''),
      (''.rdf'', ''application/rdf+xml''), (''.re'', ''text/x-rustsrc''), (''.reg'', ''text/x-properties''),
      (''.rest'', ''text/x-rst''), (''.rexx'', ''text/x-rexx''),
      (''.rf64'', ''audio/x-wav;version='' @ [CHR 0x22] @ ''0waveformatextensibleencoding'' @ [CHR 0x22]),
      (''.rfa'', ''application/octet-stream''), (''.rft'', ''application/octet-stream''),
      (''.rg'', ''text/x-clojure''), (''.rgb'', ''image/x-rgb''), (''.rhtml'', ''application/x-erb''),
      (''.rlc'', ''image/vnd.fujixerox.edmics-rlc''), (''.rm'', ''application/vnd.rn-realmedia''),
      (''.rmd'', ''text/x-gfm''), (''.rmi'', ''audio/mid''), (''.rmp'', ''audio/x-pn-realaudio-plugin''),
      (''.roff'', ''text/troff''), (''.rpm'', ''application/x-rpm''), (''.rs'', ''text/x-rustsrc''),
      (''.rss'', ''application/rss+xml''), (''.rst'', ''text/x-rst''),
      (''.rte'', ''application/octet-stream''), (''.rtf'', ''application/rtf''),
      (''.rv'', ''video/vnd.rn-realvideo''), (''.rvg'', ''application/octet-stream''),
      (''.rvt'', ''application/octet-stream''), (''.rws'', ''application/octet-stream''),
      (''.rwz'', ''image/x-raw-rawzor''), (''.s'', ''text/x-asm''), (''.s7m'', ''application/x-sas-dmdb''),
      (''.sa7'', ''application/x-sas-access''), (''.sage'', ''text/x-python''),
      (''.sam'', ''application/vnd.lotus-wordpro''), (''.sas'', ''application/x-sas''),
      (''.sas7bbak'', ''application/x-sas-backup''), (''.sass'', ''text/x-sass''),
      (''.sav'', ''application/x-spss-sav''), (''.sc7'', ''application/x-sas-catalog''),
      (''.scala'', ''text/x-scala''), (''.sch'', ''text/xml''), (''.scm'', ''text/x-scheme''),
      (''.scores'', ''text/plain''), (''.scss'', ''text/x-scss''), (''.sd7'', ''application/x-sas-data''),
      (''.sda'', ''application/vnd.stardivision.draw''), (''.sdc'', ''application/vnd.stardivision.calc''),
      (''.sdn'', ''text/plain''), (''.sdw'', ''application/vnd.stardivision.writer''),
      (''.sed'', ''text/x-sed''), (''.sf7'', ''application/x-sas-fdb''),
      (''.sfd'', ''application/vnd.font-fontforge-sfd''), (''.sgm'', ''text/sgml''),
      (''.sgml'', ''text/sgml''), (''.sh'', ''application/x-sh''), (''.sh-session'', ''text/x-sh''),
      (''.shar'', ''application/x-shar''), (''.shtml'', ''text/x-server-parsed-html''),
      (''.si7'', ''application/x-sas-data-index''), (''.sid'', ''audio/prs.sid''),
      (''.sit'', ''application/x-stuffit''), (''.sitx'', ''application/x-stuffitx''),
      (''.skb'', ''application/octet-stream''), (''.skp'', ''application/vnd.koan''),
      (''.sla'', ''application/vnd.scribus''), (''.sld'', ''application/sld''),
      (''.sldm'', ''application/vnd.ms-powerpoint.slide.macroenabled.12;version='' @ [CHR 0x22] @ ''2007'' @ [CHR 0x22]),
      (''.sldprt'', ''application/sldworks''), (''.slim'', ''text/x-slim''), (''.sls'', ''text/x-yaml''),
      (''.sm7'', ''application/x-sas-mddb''), (''.smi'', ''application/smil+xml''),
      (''.smk'', ''video/vnd.radgamettools.smacker''), (''.soy'', ''text/x-soy''),
      (''.sp7'', ''application/x-sas-putility''), (''.sparql'', ''application/sparql-query''),
      (''.spec'', ''text/x-rpm-spec''), (''.spl'', ''application/x-futuresplash''),
      (''.spx'', ''audio/speex''), (''.sql'', ''text/x-sql''), (''.sr7'', ''application/x-sas-itemstor''),
      (''.srl'', ''application/sereal''), (''.srt'', ''text/x-common-lisp''),
      (''.ss7'', ''application/x-sas-program-data''), (''.ssml'', ''application/ssml+xml''),
      (''.st'', ''text/x-stsrc''), (''.st7'', ''application/x-sas-audit''),
      (''.stw'', ''application/vnd.sun.xml.writer.template''), (''.stx'', ''application/x-sas-transport''),
      (''.su7'', ''application/x-sas-utility''), (''.sublime-build'', ''text/javascript'')]"

definition suffix_table_5 :: "(string \<times> string) list" where
  "suffix_table_5 =
     [(''.sv'', ''text/x-systemverilog''), (''.sv7'', ''application/x-sas-view''),
      (''.svf'', ''image/vnd.svf''), (''.svg'', ''image/svg+xml''), (''.svgz'', ''image/svg+xml''),
      (''.swf'', ''application/vnd.adobe.flash-movie''), (''.swift'', ''text/x-swift''),
      (''.sxc'', ''application/vnd.sun.xml.calc;version='' @ [CHR 0x22] @ ''1.0'' @ [CHR 0x22]),
      (''.sxd'', ''application/vnd.sun.xml.draw''), (''.sxi'', ''application/vnd.sun.xml.impress''),
      (''.sxw'', ''application/vnd.sun.xml.writer''), (''.sz'', ''application/x-snappy-framed''),
      (''.t'', ''application/x-tads''), (''.tap'', ''image/vnd.tencent.tap''),
      (''.tar'', ''application/x-tar''), (''.tcl'', ''text/x-tcl''), (''.tcsh'', ''text/x-sh''),
      (''.tex'', ''text/x-tex''), (''.textile'', ''text/x-textile''), (''.tfw'', ''text/plain''),
      (''.tfx'', ''image/tiff''), (''.thmx'', ''application/vnd.ms-officetheme''),
      (''.tif'', ''image/tiff''), (''.tif '', ''image/tiff''), (''.tiff'', ''image/tiff''),
      (''.toml'', ''text/x-toml''), (''.torrent'', ''application/x-bittorrent''),
      (''.tpl'', ''text/x-smarty''), (''.ts'', ''application/typescript''),
      (''.tsv'', ''text/tab-separated-values''),
      (''.tta'', ''audio/tta;version='' @ [CHR 0x22] @ ''1'' @ [CHR 0x22]),
      (''.ttf'', ''application/x-font-ttf''), (''.ttl'', ''text/turtle''), (''.twig'', ''text/x-twig''),
      (''.txt'', ''text/plain''), (''.u3d'', ''model/u3d''), (''.uc'', ''text/x-java''),
      (''.ulx'', ''application/x-glulx''), (''.uno'', ''text/x-csharp''), (''.upc'', ''text/x-csrc''),
      (''.url'', ''application/x-url''), (''.v'', ''text/x-verilog''), (''.vb'', ''text/x-vb''),
      (''.vbs'', ''text/x-vbscript''), (''.vcd'', ''application/x-cdlink''), (''.vcf'', ''text/vcard''),
      (''.vcs'', ''text/x-vcalendar''),
      (''.vdx'', ''application/vnd.visio;version='' @ [CHR 0x22] @ ''2003-2010'' @ [CHR 0x22]),
      (''.vhd'', ''text/x-vhdl''), (''.vhdl'', ''text/x-vhdl''), (''.viv'', ''video/vnd-vivo''),
      (''.vmdk'', ''application/x-vmdk''), (''.vmt'', ''application/vnd.valve.source.material''),
      (''.volt'', ''text/x-d''), (''.vot'', ''application/x-votable+xml''), (''.vpb'', ''image/vpb''),
      (''.vsd'', ''application/vnd.visio''),
      (''.vsdm'', ''application/vnd.ms-visio.drawing.macroenabled.12''),
      (''.vsdx'', ''application/vnd.visio''),
      (''.vssm'', ''application/vnd.ms-visio.stencil.macroenabled.12''),
      (''.vssx'', ''application/vnd.ms-visio.stencil''),
      (''.vstm'', ''application/vnd.ms-visio.template.macroenabled.12''),
      (''.vstx'', ''application/vnd.ms-visio.template''), (''.vtf'', ''image/vnd.valve.source.texture''),
      (''.vtt'', ''text/vtt''),
      (''.vwx'', ''application/vnd.vectorworks;version='' @ [CHR 0x22] @ ''2015'' @ [CHR 0x22]),
      (''.w50'', ''application/vnd.wordperfect;version='' @ [CHR 0x22] @ ''5.0'' @ [CHR 0x22]),
      (''.w51'', ''application/vnd.wordperfect;version='' @ [CHR 0x22] @ ''5.1'' @ [CHR 0x22]),
      (''.w52'', ''application/vnd.wordperfect;version='' @ [CHR 0x22] @ ''5.2'' @ [CHR 0x22]),
      (''.warc'', ''application/warc''), (''.wast'', ''text/x-common-lisp''), (''.wav'', ''audio/x-wav''),
      (''.wbmp'', ''image/vnd.wap.wbmp''), (''.webapp'', ''application/x-web-app-manifest+json''),
      (''.webidl'', ''text/x-webidl''), (''.webm'', ''video/webm''), (''.webp'', ''image/webp''),
      (''.wisp'', ''text/x-clojure''),
      (''.wk1'', ''application/vnd.lotus-1-2-3;version='' @ [CHR 0x22] @ ''2.0'' @ [CHR 0x22]),
      (''.wk3'', ''application/vnd.lotus-1-2-3;version='' @ [CHR 0x22] @ ''3.0'' @ [CHR 0x22]),
      (''.wk4'', ''application/vnd.lotus-1-2-3;version='' @ [CHR 0x22] @ ''4-5'' @ [CHR 0x22]),
      (''.wks'', ''application/vnd.lotus-1-2-3''), (''.wma'', ''audio/x-ms-wma''), (''.wmf'', ''image/wmf''),
      (''.wmlc'', ''application/vnd.wap.wmlc''), (''.wmls'', ''text/vnd.wap.wmlscript''),
      (''.wmlsc'', ''application/vnd.wap.wmlscriptc''), (''.wmv'', ''video/x-ms-wmv''),
      (''.woff'', ''application/font-woff''),
      (''.wp4'', ''application/vnd.wordperfect;version='' @ [CHR 0x22] @ ''4.0/4.1/4.2'' @ [CHR 0x22]),
      (''.wpd'', ''application/vnd.wordperfect''), (''.wpl'', ''application/vnd.ms-wpl''),
      (''.wrl'', ''model/vrml''), (''.wsz'', ''interfacex-winamp-skin''), (''.x3d'', ''model/x3d+xml''),
      (''.x3f'', ''image/x-raw-sigma''), (''.xap'', ''application/x-silverlight-app''),
      (''.xar'', ''application/vnd.xara''), (''.xbm'', ''image/x-xbitmap''), (''.xc'', ''text/x-csrc''),
      (''.xcf'', ''image/xcf''),
      (''.xdm'', ''image/x-xwindowdump;version='' @ [CHR 0x22] @ ''x10'' @ [CHR 0x22]),
      (''.xfdf'', ''application/vnd.adobe.xfdf''), (''.xhtml'', ''application/xhtml+xml''),
      (''.xif'', ''image/vnd.xiff''),
      (''.xla'', ''application/vnd.ms-excel;version='' @ [CHR 0x22] @ ''4.0'' @ [CHR 0x22]),
      (''.xlam'', ''application/vnd.ms-excel.addin.macroenabled.12''),
      (''.xlc'', ''application/vnd.ms-excel;version='' @ [CHR 0x22] @ ''3.0'' @ [CHR 0x22]),
      (''.xlm'', ''application/vnd.ms-excel;version='' @ [CHR 0x22] @ ''3.0'' @ [CHR 0x22]),
      (''.xls'', ''application/vnd.ms-excel''),
      (''.xlsb'', ''application/vnd.ms-excel.sheet.binary.macroenabled.12''),
      (''.xlsm'', ''application/vnd.ms-excel.sheet.macroenabled.12''),
      (''.xlsx'', ''application/vnd.openxmlformats-officedocument.spreadsheetml.sheet''),
      (''.xltm'', ''application/vnd.ms-excel.template.macroenabled.12''),
      (''.xltx'', ''application/vnd.openxmlformats-officedocument.spreadsheetml.template''),
      (''.xlw'', ''application/vnd.ms-excel;version='' @ [CHR 0x22] @ ''4w'' @ [CHR 0x22]),
      (''.xm'', ''audio/xm''), (''.xmf'', ''audio/mobile-xmf''), (''.xmind'', ''application/x-xmind''),
      (''.xml'', ''application/xml''), (''.xmt'', ''application/mpeg4-iod-xmt''),
      (''.xpi'', ''application/x-xpinstall''), (''.xpl'', ''text/xml''),
      (''.xpm'', ''image/x-xpixmap;version='' @ [CHR 0x22] @ ''x10'' @ [CHR 0x22]),
      (''.xps'', ''application/oxps''), (''.xpt'', ''application/x-sas-xport''),
      (''.xq'', ''application/xquery''), (''.xquery'', ''application/xquery''), (''.xs'', ''text/x-csrc''),
      (''.xsd'', ''application/xml''), (''.xsl'', ''application/xml''),
      (''.xslfo'', ''application/xslfo+xml''), (''.xslt'', ''application/xslt+xml''),
      (''.xsp-config'', ''text/xml''), (''.xspf'', ''application/xspf+xml''),
      (''.xwd'', ''image/x-xwindowdump''), (''.xz'', ''application/x-xz''), (''.y'', ''text/x-yacc''),
      (''.yaml'', ''text/x-yaml''), (''.yml'', ''text/x-yaml''), (''.zip'', ''application/zip'')]"

definition g_suffix_hash :: "(string \<times> string) list" where
  "g_suffix_hash =
     suffix_table_1 @ suffix_table_2 @ suffix_table_3 @ suffix_table_4 @ suffix_table_5"

section \<open>Signatures\<close>

definition g_signatures_init :: "(string \<times> string) list" where
  "g_signatures_init =
     [(cstr [CHR 0x00, CHR 0x01, CHR 0x00, CHR 0x00, CHR 0x00], ''application/x-font-ttf''),
      ([CHR 0x04] @ ''%!PS-Adobe-'', ''application/postscript''),
      ([CHR 0x1B] @ ''%-12345X%!PS'', ''application/postscript''),
      ([CHR 0x1F, CHR 0x8B], ''application/gzip''), ([CHR 0x1F, CHR 0x9D], ''application/x-compress''),
      (''!<arch>'' @ [CHR 0x0A] @ ''debian'', ''application/x-debian-package''),
      (''#! rnews'', ''message/rfc822''), (''#!/bin/ash'', ''application/x-shellscript''),
      (''#!/bin/bash'', ''application/x-shellscript''), (''#!/bin/perl'', ''text/x-perl''),
      (''#!/bin/sh'', ''application/x-shellscript''), (''#!/usr/bin/env lua'', ''text/x-lua''),
      (''#!/usr/bin/perl'', ''text/x-perl''), (''#!/usr/bin/env python'', ''text/x-python''),
      (''#!/usr/bin/env ruby'', ''text/x-ruby''), (''#!/usr/bin/env tcl'', ''text/x-tcl''),
      (''#!/usr/bin/env wish'', ''text/x-tcl''), (''#!/usr/bin/lua'', ''text/x-lua''),
      (''#!/usr/bin/python'', ''text/x-python''), (''#!/usr/bin/ruby'', ''text/x-ruby''),
      (''#!/usr/bin/tcl'', ''text/x-tcl''), (''#!/usr/bin/wish'', ''text/x-tcl''),
      (''#!/usr/local/bin/lua'', ''text/x-lua''), (''#!/usr/local/bin/perl'', ''text/x-perl''),
      (''#!/usr/local/bin/python'', ''text/x-python''), (''#!/usr/local/bin/ruby'', ''text/x-ruby''),
      (''#!/usr/local/bin/tcl'', ''text/x-tcl''), (''#!/usr/local/bin/wish'', ''text/x-tcl''),
      (''# KDE Config File'', ''application/x-kdelnk''),
      (''# PaCkAgE DaTaStReAm'', ''application/x-svr4-package''), (''# xmcd'', ''text/x-xmcd''),
      (''#?RADIANCE'' @ [CHR 0x0A], ''image/vnd.radiance''), (''%!PS-Adobe-'', ''application/postscript''),
      (''%PDF-'', ''application/pdf''), (''*mbx*'', ''application/mbox''),
      (cstr (''-----BEGIN PGP MESSAGE-'' @ [CHR 0x00, CHR 0x1E] @ ''---''), ''application/pgp''),
      (cstr (''-----BEGIN PGP SIGNATURE-'' @ [CHR 0x00, CHR 0x03] @ ''.'' @ [CHR 0x22]), ''application/pgp-signature''),
      (''.'' @ [CHR 0x22], ''text/troff''), (cstr (''.sd'' @ [CHR 0x00]), ''audio/x-dec-basic''),
      (''.snd'', ''audio/basic''), (''/* XPM */'', ''image/x-xpmi''), (''07070'', ''application/x-cpio''),
      (cstr (''1'' @ [CHR 0xBE, CHR 0x00, CHR 0x00]), ''application/msword''),
      (''7z'' @ [CHR 0xBC, CHR 0xAF, CHR 0x27, CHR 0x1C], ''application/x-7z-compressed''),
      (''8BPS Adobe Photoshop Image'', ''image/vnd.adobe.photoshop''), ('';ELC'', ''application/x-elc''),
      (''<!DOCTYPE HTML'', ''text/html''), (''<?xml version='', ''application/xml''),
      (''<Book '', ''application/x-mif''), (''<BookFile'', ''application/x-mif''),
      (''<MML'', ''application/x-mif''), (''<MIFFile'', ''application/x-mif''),
      (''<MakerDictionary'', ''application/x-mif''), (''<Maker'', ''application/x-mif''),
      (''<SCRIBUSUTF8'', ''application/x-scribus''), (''<map version'', ''application/x-freemind''),
      ([CHR 0x40] @ '' echo off'', ''text/x-msdos-batch''),
      ([CHR 0x40] @ ''echo off'', ''text/x-msdos-batch''), ([CHR 0x40] @ ''rem'', ''text/x-msdos-batch''),
      ([CHR 0x40] @ ''set'', ''text/x-msdos-batch''), (''ADIF'', ''audio/x-hx-aac-adif''),
      (''AT&TFORM'', ''image/vnd.djvu''), (''Article'', ''message/news''),
      (''BEGIN:VCALENDAR'', ''text/calendar''), (''BEGIN:VCARD'', ''text/x-vcard''),
      (cstr (''BM'' @ [CHR 0x00, CHR 0x03]), ''image/x-ms-bmp''), (''BZh'', ''application/x-bzip2''),
      (''CPC'' @ [CHR 0xB2], ''image/x-cpi''), (''CWS'', ''application/x-shockwave-flash''),
      (''DICM'', ''application/dicom''), (''EIM '', ''image/x-eim''), (''FGF95a'', ''image/x-unknown''),
      (''FLV'', ''video/x-flv''), (''FOVb'', ''image/x-x3f''), (''FWS'', ''application/x-shockwave-flash''),
      (''Forward to'', ''message/rfc822''), (''From:'', ''message/rfc822''), (''GIF8'', ''image/gif''),
      (''GIF94z'', ''image/x-unknown''), (''HEADER    '', ''chemical/x-pdb''),
      (''HWP Document File'', ''application/x-hwp''),
      (cstr (''II'' @ [CHR 0x1A, CHR 0x00, CHR 0x00, CHR 0x00] @ ''HEAPCCDR''), ''image/x-canon-crw''),
      (cstr (''II*'' @ [CHR 0x00]), ''image/tiff''),
      (cstr (''II*'' @ [CHR 0x00, CHR 0x10, CHR 0x00, CHR 0x00, CHR 0x0C] @ ''R''), ''image/x-canon-cr2''),
      (''IIN1'', ''image/x-niff''), (''IIRO'', ''image/x-olympus-orf''), (''IIRS'', ''image/x-olympus-orf''),
      (''LRZI'', ''application/x-lrzip''), (''LZIP'', ''application/x-lzip''),
      (''MAS_UTrack_V00'', ''audio/x-mod''), (cstr (''MM'' @ [CHR 0x00] @ ''*''), ''image/tiff''),
      (''MMOR'', ''image/x-olympus-orf''), (''MOVI'', ''video/x-sgi-movie''), (''MThd'', ''audio/midi''),
      (''MZ'', ''application/x-dosexec''), (''N#! rnews'', ''message/rfc822''),
      (''OTTO'', ''application/vnd.ms-opentype''), (''OggS'', ''application/ogg''),
      (cstr (''P4'' @ [CHR 0x00]), ''image/x-portable-bitmap''),
      (cstr (''P5'' @ [CHR 0x00]), ''image/x-portable-greymap''),
      (cstr (''P6'' @ [CHR 0x00]), ''image/x-portable-pixmap''),
      (cstr (''P7'' @ [CHR 0x00]), ''image/x-portable-pixmap''),
      (''P7'' @ [CHR 0x0A] @ ''#MTPAINT#'', ''image/x-portable-multimap''), (''PBF'', ''image/x-unknown''),
      (''PDN3'', ''image/x-paintnet''), (''PFS1'' @ [CHR 0x0A], ''image/x-pfs''),
      (''PK'' @ [CHR 0x03, CHR 0x04], ''application/zip''),
      (''PK'' @ [CHR 0x07, CHR 0x08] @ ''PK'' @ [CHR 0x03, CHR 0x04], ''application/zip''),
      (''PK00PK'' @ [CHR 0x03, CHR 0x04], ''application/zip''),
      (''PO^Q'' @ [CHR 0x60], ''application/msword''), (''Path:'', ''message/news''),
      (''Pipe to'', ''message/rfc822''),
      (''RF64'' @ [CHR 0xFF, CHR 0xFF, CHR 0xFF, CHR 0xFF] @ ''WAVEds64'', ''audio/x-wav''),
      (''Rar!'', ''application/x-rar''), (''Received:'', ''message/rfc822''),
      (''Relay-Version:'', ''message/rfc822''), (''Return-Path:'', ''message/rfc822''),
      (''SIT!'', ''application/x-stuffit''), (''SplineFontDB:'', ''application/vnd.font-fontforge-sfd''),
      (cstr (''StuffIt'' @ [CHR 0x00]), ''application/x-stuffit''), (''WARC'', ''application/warc''),
      (''Xcur'', ''image/x-xcursor''), (''Xref:'', ''message/news''),
      (''[KDE Desktop Entry]'', ''application/x-kdelnk''), (''d8:announce'', ''application/x-bittorrent''),
      (''drpm'', ''application/x-rpm''), (''fLaC'', ''audio/x-flac''),
      (''filedesc://'', ''application/x-ia-arc''),
      (cstr (''riff.'' @ [CHR 0x91, CHR 0xCF, CHR 0x11, CHR 0xA5, CHR 0xD6] @ ''('' @ [CHR 0xDB, CHR 0x04, CHR 0xC1, CHR 0x00, CHR 0x00]), ''audio/x-w64''),
      (cstr ([CHR 0x0D] @ ''tf'' @ [CHR 0x00]), ''text/rtf''),
      (cstr ([CHR 0x89] @ ''LZO'' @ [CHR 0x00, CHR 0x0D, CHR 0x0A, CHR 0x1A, CHR 0x0A]), ''application/x-lzop''),
      ([CHR 0x89] @ ''PNG'' @ [CHR 0x0D, CHR 0x0A, CHR 0x1A, CHR 0x0A], ''image/png''),
      ([CHR 0x8A] @ ''JNG'', ''video/x-jng''), ([CHR 0x8A] @ ''MNG'', ''video/x-mng''),
      ([CHR 0x89] @ ''HDF'' @ [CHR 0x0D, CHR 0x0A, CHR 0x1A, CHR 0x0A], ''application/x-hdf''),
      ([CHR 0xCE, CHR 0xCE, CHR 0xCE, CHR 0xCE], ''application/x-java-jce-keystore''),
      (cstr ([CHR 0xFD] @ ''7zXZ'' @ [CHR 0x00]), ''application/x-xz''),
      (cstr ([CHR 0xFE] @ ''7'' @ [CHR 0x00] @ ''#''), ''application/msword''),
      ([CHR 0xFF, CHR 0xD8], ''image/jpeg''), ([CHR 0xFF, CHR 0xD8, CHR 0xFF, CHR 0xE0], ''image/jpeg''),
      ([CHR 0xFF, CHR 0xD8, CHR 0xFF, CHR 0xEE], ''image/jpeg'')]"

definition g_signatures_offset4_init :: "(string \<times> string) list" where
  "g_signatures_offset4_init =
     [([CHR 0x0A] @ ''Version:Vivo'', ''video/vivo''), (''#VRML V'', ''model/vrml''),
      (''-BEGIN PGP PUBLIC KEY BLOCK-'', ''application/pgp-keys''),
      (''XPR3'', ''application/x-quark-xpress-3''), (''XPRa'', ''application/x-quark-xpress-3''),
      (''free'', ''video/quicktime''), (''ftyp3g2'', ''video/3gpp2''), (''ftyp3ge'', ''video/3gpp''),
      (''ftyp3gg'', ''video/3gpp''), (''ftyp3gp'', ''video/3gpp''), (''ftyp3gs'', ''video/3gpp''),
      (''ftypM4A'', ''audio/mp4''), (''ftypM4B'', ''video/quicktime''), (''ftypM4P'', ''video/quicktime''),
      (''ftypM4V'', ''video/mp4''), (''ftypavc1'', ''video/3gpp''), (''ftypiso2'', ''video/mp4''),
      (''ftypisom'', ''video/mp4''), (''ftypjp2'', ''image/jp2''), (''ftypmmp4'', ''video/mp4''),
      (''ftypmp41'', ''video/mp4''), (''ftypmp42'', ''video/mp4''), (''ftypmp7b'', ''video/mp4''),
      (''ftypmp7t'', ''video/mp4''), (''ftypqt'', ''video/quicktime''), (''idat'', ''video/quicktime''),
      (''idsc'', ''video/quicktime''), (''jP'', ''image/jp2''), (''mdat'', ''video/quicktime''),
      (''pckg'', ''application/x-quicktime-player''), (''skip'', ''video/quicktime''),
      (''wide'', ''video/quicktime'')]"

end
