(* ===== verification/Mime_Type.thy ===== *)
theory Mime_Type
  imports Mime_Tables Cxx_Strings
begin

text \<open>
  Detection of MIME types (\<^verbatim>\<open>libgs/core/algorithm/mime_type.cpp\<close> and
  \<^verbatim>\<open>detail/mime_type.h\<close>): by the suffix of a file name, and by signature from the first bytes
  of a file. Files are read through an input stream with the state bits of
  \<^verbatim>\<open>std::ifstream\<close>, which decide what a second read after a short one yields.
\<close>

section \<open>Input streams\<close>

record ifstream =
  is_open :: bool
  content :: string
  pos :: nat
  eofbit :: bool
  failbit :: bool

definition open_stream :: "string option \<Rightarrow> ifstream" where
  "open_stream c =
     (case c of None \<Rightarrow> \<lparr>is_open = False, content = [], pos = 0, eofbit = False, failbit = True\<rparr>
      | Some s \<Rightarrow> \<lparr>is_open = True, content = s, pos = 0, eofbit = False, failbit = False\<rparr>)"

text \<open>\<^verbatim>\<open>read(buf, n)\<close>: the bytes read, whose number is \<^verbatim>\<open>gcount()\<close>.\<close>

definition stream_read :: "nat \<Rightarrow> ifstream \<Rightarrow> string \<times> ifstream" where
  "stream_read n s =
     (if eofbit s \<or> failbit s then ([], s\<lparr>failbit := True\<rparr>)
      else
        let got = take n (drop (pos s) (content s));
            s = s\<lparr>pos := pos s + length got\<rparr>
        in (got, if length got < n then s\<lparr>eofbit := True, failbit := True\<rparr> else s))"

definition seekg :: "nat \<Rightarrow> ifstream \<Rightarrow> ifstream" where
  "seekg p s = (let s = s\<lparr>eofbit := False\<rparr> in if failbit s then s else s\<lparr>pos := p\<rparr>)"

text \<open>\<^verbatim>\<open>get(c)\<close> leaves \<open>c\<close> alone when there is nothing to read.\<close>

definition stream_get :: "char \<Rightarrow> ifstream \<Rightarrow> char \<times> ifstream" where
  "stream_get c s =
     (case stream_read 1 s of (got, s) \<Rightarrow> (case got of [] \<Rightarrow> c | x # _ \<Rightarrow> x, s))"

section \<open>Text files\<close>

definition byte_order_mark :: "string \<Rightarrow> bool" where
  "byte_order_mark d \<longleftrightarrow> starts_with [CHR 0xFE, CHR 0xFF] d \<or> starts_with [CHR 0xFF, CHR 0xFE] d"

definition control_char :: "char \<Rightarrow> bool" where
  "control_char c \<longleftrightarrow> schar c < 32 \<and> schar c \<noteq> 9 \<and> schar c \<noteq> 10 \<and> schar c \<noteq> 13"

definition is_text_file :: "ifstream \<Rightarrow> bool \<times> ifstream" where
  "is_text_file s =
     (let (buf, s) = stream_read 0x4000 s in
      if byte_order_mark buf then (True, s)
      else (list_all (\<lambda>c. \<not> control_char c) (take 128 buf), s))"

section \<open>Signatures\<close>

text \<open>
  A \<^verbatim>\<open>std::map\<close> of strings built from an initializer list: sorted by key (bytes compare
  unsigned), the first of several entries with one key.
\<close>

fun map_insert :: "string \<times> string \<Rightarrow> (string \<times> string) list \<Rightarrow> (string \<times> string) list" where
  "map_insert kv [] = [kv]"
| "map_insert kv (x # xs) =
     (if fst kv < fst x then kv # x # xs
      else if fst kv = fst x then x # xs
      else x # map_insert kv xs)"

definition std_map :: "(string \<times> string) list \<Rightarrow> (string \<times> string) list" where
  "std_map kvs = foldl (\<lambda>m kv. map_insert kv m) [] kvs"

definition signatures_map :: "(string \<times> string) list" where
  "signatures_map = std_map g_signatures_init"

definition signatures_map_offset4 :: "(string \<times> string) list" where
  "signatures_map_offset4 = std_map g_signatures_offset4_init"

text \<open>\<^verbatim>\<open>key[i]\<close>: the terminator at the end, undefined behind it (\<^const>\<open>None\<close>).\<close>

definition key_at :: "string \<Rightarrow> nat \<Rightarrow> char option" where
  "key_at key i =
     (if i < length key then Some (key ! i) else if i = length key then Some (CHR 0x00) else None)"

text \<open>The inner loop of \<^verbatim>\<open>mime_search\<close>, entered when the first characters agree.\<close>

function search_key :: "string \<Rightarrow> string \<Rightarrow> string \<Rightarrow> nat \<Rightarrow> string option" where
  "search_key key val buf index =
     (let index = index + 1 in
      if index = length key then Some val
      else if index = length buf then Some ''unknown''
      else
        case key_at key index of
          None \<Rightarrow> None
        | Some k \<Rightarrow>
            if schar k > schar (buf ! index) then Some ''unknown''
            else if k = buf ! index then search_key key val buf index
            else Some ''unknown'')"
  by pat_completeness auto
termination
  by (relation "measure (\<lambda>(key, val, buf, index). length key + 1 - index)")
    (auto simp: key_at_def split: if_splits)

declare search_key.simps [simp del]

fun mime_search_loop :: "(string \<times> string) list \<Rightarrow> string \<Rightarrow> string option" where
  "mime_search_loop [] buf = Some ''unknown''"
| "mime_search_loop ((key, val) # mimes) buf =
     (if key_at key 0 \<noteq> Some (buf ! 0) then mime_search_loop mimes buf
      else search_key key val buf 0)"

definition mime_search :: "(string \<times> string) list \<Rightarrow> string \<Rightarrow> string option" where
  "mime_search mimes buf = (if buf = [] then Some ''text/plain'' else mime_search_loop mimes buf)"

definition mime_from_magic :: "ifstream \<Rightarrow> string option" where
  "mime_from_magic s =
     (if \<not> is_open s then Some ''unknown''
      else
        let (buf, s) = stream_read 0xFF s;
            (text, s) = (if length buf < 0xFF then is_text_file (seekg 0 s) else (False, s))
        in if text then Some ''text/plain''
           else
             case mime_search signatures_map buf of
               None \<Rightarrow> None
             | Some t \<Rightarrow>
                 if t = [] \<and> 4 < length buf then mime_search signatures_map_offset4 (drop 4 buf)
                 else Some t)"

section \<open>By file name\<close>

text \<open>The lower-case suffix that is looked up, if the name has a dot.\<close>

definition suffix_key :: "string \<Rightarrow> string option" where
  "suffix_key path =
     (let name = file_name path in
      case rfind_char (CHR ''.'') name of
        None \<Rightarrow> None
      | Some p \<Rightarrow> Some (str_to_lower (drop p name)))"

definition suffix_find :: "string \<Rightarrow> string option" where
  "suffix_find path = (case suffix_key path of None \<Rightarrow> None | Some k \<Rightarrow> map_of g_suffix_hash k)"

definition mime_type :: "string \<Rightarrow> string option \<Rightarrow> bool \<Rightarrow> string option" where
  "mime_type path file magic_first =
     (if magic_first then
        (case mime_from_magic (open_stream file) of
           None \<Rightarrow> None
         | Some type \<Rightarrow>
             if type \<noteq> ''unknown'' then Some type
             else (case suffix_find path of None \<Rightarrow> Some type | Some t \<Rightarrow> Some t))
      else
        case suffix_find path of
          None \<Rightarrow> mime_from_magic (open_stream file)
        | Some t \<Rightarrow> Some t)"

section \<open>Encodings\<close>

definition text_file_encoding :: "ifstream \<Rightarrow> string" where
  "text_file_encoding s =
     (if \<not> is_open s then ''unknown''
      else
        let (b1, s) = stream_get (CHR 0x00) s;
            (b2, s) = (if eofbit s then (CHR ''A'', s) else stream_get (CHR 0x00) s);
            (b3, s) = (if eofbit s then (CHR ''A'', s) else stream_get (CHR 0x00) s);
            (b4, s) = (if eofbit s then (CHR ''A'', s) else stream_get (CHR 0x00) s)
        in
          if uchar b1 = 0xEF \<and> uchar b2 = 0xBB \<and> uchar b3 = 0xBF then ''UTF-8''
          else if uchar b1 = 0xFF \<and> uchar b2 = 0xFE then ''UTF-16LE''
          else if uchar b1 = 0xFE \<and> uchar b2 = 0xFF then ''UTF-16BE''
          else if uchar b1 = 0xFF \<and> uchar b2 = 0xFE \<and> uchar b3 = 0 \<and> uchar b4 = 0 then ''UTF-32LE''
          else if uchar b1 = 0 \<and> uchar b2 = 0 \<and> uchar b3 = 0xFE \<and> uchar b4 = 0xFF then ''UTF-32BE''
          else ''unknown'')"

section \<open>What a search finds\<close>

text \<open>Only the first key with the first byte of the buffer is ever compared with it.\<close>

definition first_key :: "(string \<times> string) list \<Rightarrow> string \<Rightarrow> (string \<times> string) option" where
  "first_key mimes buf = find (\<lambda>(k, v). key_at k 0 = Some (buf ! 0)) mimes"

lemma mime_search_loop_first:
  "mime_search_loop mimes buf =
     (case first_key mimes buf of None \<Rightarrow> Some ''unknown'' | Some (k, v) \<Rightarrow> search_key k v buf 0)"
  by (induction mimes) (auto simp: first_key_def)

lemma prefix_take_Suc:
  "prefix key buf \<longleftrightarrow> prefix (take n key) buf \<and> prefix (drop n key) (drop n buf)" if "n \<le> length key"
proof
  assume "prefix key buf"
  then obtain r where "buf = key @ r" by (auto simp: prefix_def)
  with that show "prefix (take n key) buf \<and> prefix (drop n key) (drop n buf)"
    by (metis append_take_drop_id append.assoc drop_append prefixI drop_eq_Nil length_drop diff_is_0_eq drop0)
next
  assume *: "prefix (take n key) buf \<and> prefix (drop n key) (drop n buf)"
  then have "take n buf = take n key" using that
    by (metis append_eq_conv_conj length_take min.absorb2 prefix_def)
  with * show "prefix key buf"
    by (metis append_take_drop_id same_prefix_prefix)
qed

lemma search_key_prefix:
  "index < length key \<Longrightarrow> index < length buf \<Longrightarrow> take (index + 1) key = take (index + 1) buf \<Longrightarrow>
   search_key key val buf index = Some (if prefix key buf then val else ''unknown'')"
proof (induction key val buf index rule: search_key.induct)
  case (1 key val buf index)
  consider "index + 1 = length key" | "index + 1 < length key" "index + 1 = length buf"
    | "index + 1 < length key" "index + 1 < length buf"
    using 1(2,3) by linarith
  then show ?case
  proof cases
    case 1
    then have "prefix key buf" using \<open>take (index + 1) key = take (index + 1) buf\<close>
      by (metis order_refl take_all take_is_prefix)
    with 1 show ?thesis by (simp add: search_key.simps [of key val buf index])
  next
    case 2
    then have "\<not> prefix key buf" using prefix_length_le [of key buf] by linarith
    with 2 show ?thesis by (simp add: search_key.simps [of key val buf index])
  next
    case 3
    then have at: "key_at key (index + 1) = Some (key ! (index + 1))" by (simp add: key_at_def)
    show ?thesis
    proof (cases "key ! (index + 1) = buf ! (index + 1)")
      case True
      have "take (index + 1 + 1) key = take (index + 1 + 1) buf"
        using 1(4) 3 True by (simp add: take_Suc_conv_app_nth)
      then show ?thesis
        using 1(1) [OF refl _ _ at] 3 True at by (simp add: search_key.simps [of key val buf index])
    next
      case False
      then have "\<not> prefix key buf"
        using 3 by (metis prefix_def nth_append)
      with False 3 at show ?thesis by (simp add: search_key.simps [of key val buf index])
    qed
  qed
qed

lemma mime_search_first:
  assumes "buf \<noteq> []"
  shows "mime_search mimes buf =
    (case first_key mimes buf of
       None \<Rightarrow> Some ''unknown''
     | Some (k, v) \<Rightarrow>
         if k \<noteq> [] then Some (if prefix k buf then v else ''unknown'')
         else if length buf = 1 then Some ''unknown'' else None)"
proof (cases "first_key mimes buf")
  case None
  with assms show ?thesis by (simp add: mime_search_def mime_search_loop_first)
next
  case (Some kv)
  obtain k v where kv: "kv = (k, v)" by fastforce
  then have at: "key_at k 0 = Some (buf ! 0)"
    using Some by (auto simp: first_key_def find_Some_iff)
  show ?thesis
  proof (cases "k = []")
    case True
    then show ?thesis
      using assms Some kv
      by (cases buf) (auto simp: mime_search_def mime_search_loop_first search_key.simps [of "[]"] key_at_def)
  next
    case False
    then have "take (0 + 1) k = take (0 + 1) buf"
      using at assms by (cases k; cases buf) (auto simp: key_at_def)
    then show ?thesis
      using search_key_prefix [of 0 k buf v] False assms Some kv
      by (simp add: mime_search_def mime_search_loop_first)
  qed
qed

section \<open>The signature tables\<close>

abbreviation sorted_map :: "(string \<times> string) list \<Rightarrow> bool" where
  "sorted_map m \<equiv> sorted_wrt (<) (map fst m)"

lemma map_insert_keys: "fst ` set (map_insert kv m) = insert (fst kv) (fst ` set m)"
  by (induction kv m rule: map_insert.induct) auto

lemma map_insert_sorted: "sorted_map m \<Longrightarrow> sorted_map (map_insert kv m)"
proof (induction kv m rule: map_insert.induct)
  case (2 kv x xs)
  consider "fst kv < fst x" | "fst kv = fst x" | "fst x < fst kv" by (rule linorder_cases)
  then show ?case
  proof cases
    case 3
    then have "\<forall>y \<in> fst ` set (map_insert kv xs). fst x < y"
      using 2(2) by (auto simp: map_insert_keys)
    then show ?thesis using 2 3 by auto
  qed (use 2 in auto)
qed simp

lemma std_map_sorted: "sorted_map (std_map kvs)"
proof -
  have "sorted_map m \<Longrightarrow> sorted_map (foldl (\<lambda>m kv. map_insert kv m) m kvs)" for m
    by (induction kvs arbitrary: m) (auto intro: map_insert_sorted)
  then show ?thesis by (simp add: std_map_def)
qed

lemma map_insert_filter:
  "sorted_map m \<Longrightarrow> filter (\<lambda>kv. P (fst kv)) (map_insert kv m) =
     (if P (fst kv) then map_insert kv (filter (\<lambda>kv. P (fst kv)) m) else filter (\<lambda>kv. P (fst kv)) m)"
proof (induction kv m rule: map_insert.induct)
  case (2 kv x xs)
  consider "fst kv < fst x" | "fst kv = fst x" | "fst x < fst kv" by (rule linorder_cases)
  then show ?case
  proof cases
    case 1
    have "\<forall>y \<in> set xs. fst kv < fst y" using 1 2(2) by (auto intro: less_trans)
    then have "map_insert kv (filter (\<lambda>kv. P (fst kv)) xs) = kv # filter (\<lambda>kv. P (fst kv)) xs"
      by (cases "filter (\<lambda>kv. P (fst kv)) xs") (auto dest: filter_eq_ConsD)
    with 1 show ?thesis by auto
  next
    case 3
    with 2 show ?thesis by auto
  qed auto
qed simp

lemma std_map_filter:
  "filter (\<lambda>kv. P (fst kv)) (std_map kvs) = std_map (filter (\<lambda>kv. P (fst kv)) kvs)"
proof -
  have "sorted_map m \<Longrightarrow> filter (\<lambda>kv. P (fst kv)) (foldl (\<lambda>m kv. map_insert kv m) m kvs) =
      foldl (\<lambda>m kv. map_insert kv m) (filter (\<lambda>kv. P (fst kv)) m) (filter (\<lambda>kv. P (fst kv)) kvs)" for m
    by (induction kvs arbitrary: m) (auto simp: map_insert_filter map_insert_sorted)
  from this [of "[]"] show ?thesis by (simp add: std_map_def)
qed

lemma first_key_filter:
  "first_key (std_map kvs) buf =
     (case std_map (filter (\<lambda>kv. key_at (fst kv) 0 = Some (buf ! 0)) kvs) of [] \<Rightarrow> None | kv # _ \<Rightarrow> Some kv)"
proof -
  have "find P xs = (case filter P xs of [] \<Rightarrow> None | x # _ \<Rightarrow> Some x)" for P and xs :: "(string \<times> string) list"
    by (induction xs) auto
  then show ?thesis
    using std_map_filter [of "\<lambda>k. key_at k 0 = Some (buf ! 0)" kvs]
    by (simp add: first_key_def case_prod_beta')
qed

lemma signatures_P:
  "filter (\<lambda>kv. key_at (fst kv) 0 = Some (CHR ''P'')) g_signatures_init =
   [(''P4'', ''image/x-portable-bitmap''), (''P5'', ''image/x-portable-greymap''),
    (''P6'', ''image/x-portable-pixmap''), (''P7'', ''image/x-portable-pixmap''),
    (''P7'' @ [CHR 0x0A] @ ''#MTPAINT#'', ''image/x-portable-multimap''), (''PBF'', ''image/x-unknown''),
    (''PDN3'', ''image/x-paintnet''), (''PFS1'' @ [CHR 0x0A], ''image/x-pfs''),
    (''PK'' @ [CHR 0x03, CHR 0x04], ''application/zip''),
    (''PK'' @ [CHR 0x07, CHR 0x08] @ ''PK'' @ [CHR 0x03, CHR 0x04], ''application/zip''),
    (''PK00PK'' @ [CHR 0x03, CHR 0x04], ''application/zip''), (''PO^Q'' @ [CHR 0x60], ''application/msword''),
    (''Path:'', ''message/news''), (''Pipe to'', ''message/rfc822'')]"
  by code_simp

lemma first_key_P: "first_key signatures_map (CHR ''P'' # r) = Some (''P4'', ''image/x-portable-bitmap'')"
  unfolding signatures_map_def first_key_filter nth_Cons_0 signatures_P
  by (simp add: std_map_def)

lemma std_map_subset: "set (std_map kvs) \<subseteq> set kvs"
proof -
  have ins: "set (map_insert kv m) \<subseteq> insert kv (set m)" for kv m
    by (induction kv m rule: map_insert.induct) auto
  have "set (foldl (\<lambda>m kv. map_insert kv m) m kvs) \<subseteq> set m \<union> set kvs" for m
  proof (induction kvs arbitrary: m)
    case (Cons kv kvs)
    have "set (foldl (\<lambda>m kv. map_insert kv m) (map_insert kv m) kvs) \<subseteq> set (map_insert kv m) \<union> set kvs"
      by (rule Cons.IH)
    then show ?case using ins [of kv m] by auto
  qed simp
  from this [of "[]"] show ?thesis by (simp add: std_map_def)
qed

lemma signature_types: "list_all (\<lambda>kv. snd kv \<noteq> []) g_signatures_init"
  by code_simp

lemma mime_search_signatures_not_empty: "mime_search signatures_map buf \<noteq> Some []"
proof (cases "buf = []")
  case True
  then show ?thesis by (simp add: mime_search_def)
next
  case False
  have "v \<noteq> []" if "first_key signatures_map buf = Some (k, v)" for k v
  proof -
    from that have "(k, v) \<in> set signatures_map"
      by (auto simp: first_key_def find_Some_iff intro: nth_mem dest: sym)
    then have "(k, v) \<in> set g_signatures_init"
      using std_map_subset unfolding signatures_map_def by blast
    then show ?thesis using signature_types by (auto simp: list_all_iff)
  qed
  then show ?thesis by (auto simp: mime_search_first [OF False] split: option.splits if_splits)
qed

section \<open>The suffix table\<close>

definition suffix_shape :: "string \<Rightarrow> bool" where
  "suffix_shape k \<longleftrightarrow>
     (case k of [] \<Rightarrow> False
      | c # cs \<Rightarrow> c = CHR ''.'' \<and> list_all (\<lambda>c. c \<noteq> CHR ''.'' \<and> c \<noteq> CHR ''/'' \<and> c \<noteq> CHR 0x5C) cs)"

lemma suffix_shapes_1: "list_all (\<lambda>kv. suffix_shape (fst kv)) suffix_table_1"
  unfolding suffix_table_1_def by (simp add: suffix_shape_def)

lemma suffix_shapes_2: "list_all (\<lambda>kv. suffix_shape (fst kv)) suffix_table_2"
  unfolding suffix_table_2_def by (simp add: suffix_shape_def)

lemma suffix_shapes_3: "list_all (\<lambda>kv. suffix_shape (fst kv)) suffix_table_3"
  unfolding suffix_table_3_def by (simp add: suffix_shape_def)

lemma suffix_shapes_4: "list_all (\<lambda>kv. suffix_shape (fst kv)) suffix_table_4"
  unfolding suffix_table_4_def by (simp add: suffix_shape_def)

lemma suffix_shapes_5: "list_all (\<lambda>kv. suffix_shape (fst kv)) suffix_table_5"
  unfolding suffix_table_5_def by (simp add: suffix_shape_def)

lemma suffix_shapes: "list_all (\<lambda>kv. suffix_shape (fst kv)) g_suffix_hash"
  by (simp add: g_suffix_hash_def suffix_shapes_1 suffix_shapes_2 suffix_shapes_3 suffix_shapes_4 suffix_shapes_5)

lemma rfind_char_None: "rfind_char c s = None \<longleftrightarrow> c \<notin> set s"
  by (simp add: rfind_char_def find_char_None)

lemma rfind_char_absent: "c \<notin> set s \<Longrightarrow> rfind_char c s = None"
  by (simp add: rfind_char_None)

lemma suffix_key_self:
  assumes "suffix_shape k"
  shows "suffix_key k = Some (str_to_lower k)"
proof -
  obtain cs where k: "k = CHR ''.'' # cs" "CHR ''.'' \<notin> set cs" "CHR ''/'' \<notin> set k" "CHR 0x5C \<notin> set k"
    using assms by (auto simp: suffix_shape_def list_all_iff split: list.splits)
  then have "file_name k = k" by (simp add: file_name_def rfind_char_absent)
  moreover have "rfind_char (CHR ''.'') k = Some 0"
    using k(1,2) find_char_append [of "CHR ''.''" "rev cs" "[CHR ''.'']"]
    by (simp add: rfind_char_def del: find_char_append)
  ultimately show ?thesis by (simp add: suffix_key_def)
qed

section \<open>Properties\<close>

text \<open>
  A search compares the file with one signature only, the first of the table with the same
  first byte: later ones are never tried, and an empty key is read behind its end.
\<close>

theorem mime_search_first_key:
  assumes "buf \<noteq> []"
  shows "mime_search mimes buf =
    (case first_key mimes buf of
       None \<Rightarrow> Some ''unknown''
     | Some (k, v) \<Rightarrow>
         if k \<noteq> [] then Some (if prefix k buf then v else ''unknown'')
         else if length buf = 1 then Some ''unknown'' else None)"
  by (rule mime_search_first [OF assms])

theorem mime_search_first_key_witness:
  "mime_search [(''PBF'', ''b''), (''PK'', ''zip'')] ''PK3'' = Some ''unknown'' \<and>
   mime_search [(''BM'', ''bmp''), (''PK'', ''zip'')] ''PK3'' = Some ''zip''"
  using mime_search_first_key [of "''PK3''" "[(''PBF'', ''b''), (''PK'', ''zip'')]"]
    mime_search_first_key [of "''PK3''" "[(''BM'', ''bmp''), (''PK'', ''zip'')]"]
  by (simp add: first_key_def key_at_def)

text \<open>
  With the table of the source a ZIP archive is never recognised by its content, although
  the table has its signature.
\<close>

theorem mime_search_misses_zip:
  "map_of g_signatures_init (''PK'' @ [CHR 0x03, CHR 0x04]) = Some ''application/zip'' \<and>
   mime_search signatures_map (''PK'' @ [CHR 0x03, CHR 0x04] @ r) = Some ''unknown''"
proof
  show "map_of g_signatures_init (''PK'' @ [CHR 0x03, CHR 0x04]) = Some ''application/zip''"
    by code_simp
  show "mime_search signatures_map (''PK'' @ [CHR 0x03, CHR 0x04] @ r) = Some ''unknown''"
    by (simp add: mime_search_first first_key_P)
qed

text \<open>
  A file shorter than the 255 bytes read for the signature is always a text file: the
  short read leaves the stream failed, so the second read finds nothing to object to.
\<close>

theorem mime_from_magic_short_file:
  assumes "length c < 255"
  shows "mime_from_magic (open_stream (Some c)) = Some ''text/plain''"
  using assms
  by (simp add: mime_from_magic_def open_stream_def stream_read_def seekg_def is_text_file_def
      byte_order_mark_def starts_with_def Let_def)

theorem mime_from_magic_short_file_witness:
  "mime_from_magic (open_stream (Some [CHR 0x1F, CHR 0x8B, CHR 0x08, CHR 0x00])) = Some ''text/plain''"
  by (rule mime_from_magic_short_file) simp

text \<open>
  Each suffix of the table that is in lower case finds an entry for the file of that name;
  one with an upper-case letter is found for no file, since names are lower-cased first.
\<close>

theorem suffix_reachable:
  assumes "map_of g_suffix_hash k = Some v"
  shows "if str_to_lower k = k then suffix_find k = Some v else \<forall>path. suffix_key path \<noteq> Some k"
proof -
  have "suffix_shape k"
    using map_of_SomeD [OF assms] suffix_shapes by (fastforce simp: list_all_iff)
  moreover have "str_to_lower k = k" if "suffix_key path = Some k" for path
    using that by (auto simp: suffix_key_def Let_def split: option.splits)
  ultimately show ?thesis using assms by (auto simp: suffix_find_def suffix_key_self)
qed

theorem suffix_reachable_witness:
  "suffix_find ''.7z'' = Some ''application/x-7z-compressed'' \<and> (\<forall>path. suffix_key path \<noteq> Some ''.TIF'')"
proof -
  have lower: "str_to_lower ''.7z'' = ''.7z''" "str_to_lower ''.TIF'' \<noteq> ''.TIF''" by code_simp+
  have "map_of g_suffix_hash ''.7z'' = Some ''application/x-7z-compressed''"
    "map_of g_suffix_hash ''.TIF'' = Some ''image/tiff''"
    by (simp_all add: g_suffix_hash_def suffix_table_1_def)
  from this [THEN suffix_reachable]
  have "suffix_find ''.7z'' = Some ''application/x-7z-compressed''"
    "\<forall>path. suffix_key path \<noteq> Some ''.TIF''"
    using lower by simp_all
  then show ?thesis ..
qed

text \<open>
  No file is ever reported as UTF-32LE: its byte order mark starts with that of UTF-16LE,
  which is tested before.
\<close>

theorem text_file_encoding_no_utf32le:
  "text_file_encoding s \<noteq> ''UTF-32LE''"
  by (simp add: text_file_encoding_def Let_def split_beta)

text \<open>
  The table of signatures at offset 4 is never consulted: the first search never answers
  with the empty type that the second one waits for.
\<close>

theorem mime_offset4_unused:
  "mime_from_magic s =
     (if \<not> is_open s then Some ''unknown''
      else
        let (buf, t) = stream_read 0xFF s
        in if length buf < 0xFF \<and> fst (is_text_file (seekg 0 t)) then Some ''text/plain''
           else mime_search signatures_map buf)"
  using mime_search_signatures_not_empty
  by (auto simp: mime_from_magic_def Let_def split_beta split: option.splits)

end
