(* ===== verification/Http_Range.thy ===== *)
theory Http_Range
  imports Http_Helper String_List Mime_Type
begin

text \<open>
  Partial content (\<^verbatim>\<open>libgs/http/server/detail/response.h\<close>): reading the Range header, checking
  the ranges of a caller against the file, and sending one range or a multipart body. The
  functions modelled are the coroutine versions; their blocking twins use members that do
  not exist. Writes to the connection succeed. A write past the end of the local buffer of
  0xFFFF bytes is \<open>None\<close>.
\<close>

section \<open>Ranges\<close>

record file_range =
  fr_begin :: nat
  fr_total :: nat

record range_value = file_range +
  cr_line :: string
  rg_end :: nat

definition range_line :: "nat \<Rightarrow> nat \<Rightarrow> nat \<Rightarrow> string" where
  "range_line b e file_size =
     ''Content-Range: bytes '' @ to_string b @ ''-'' @ to_string e @ ''/'' @ to_string file_size"

fun from_file_range :: "file_range list \<Rightarrow> nat \<Rightarrow> range_value list \<times> bool" where
  "from_file_range [] file_size = ([], False)"
| "from_file_range (v # vs) file_size =
     (let e = size_sub (size_add (fr_begin v) (fr_total v)) 1 in
      if fr_total v = 0 \<or> file_size \<le> e then ([], True)
      else
        let (list, error) = from_file_range vs file_size
        in (\<lparr>fr_begin = fr_begin v, fr_total = fr_total v,
              cr_line = range_line (fr_begin v) e file_size, rg_end = e\<rparr> # list, error))"

section \<open>The Range header\<close>

text \<open>The loop that erases spaces runs from the terminator down to the second character.\<close>

fun erase_spaces :: "nat \<Rightarrow> string \<Rightarrow> string" where
  "erase_spaces 0 s = s"
| "erase_spaces (Suc i) s =
     erase_spaces i
       (if Suc i < length s \<and> s ! Suc i = CHR '' '' then take (Suc i) s @ drop (Suc (Suc i)) s else s)"

text \<open>\<^verbatim>\<open>ston_or<size_t>\<close> with its default 0; with a default it does not throw.\<close>

definition size_or :: "stold_fn \<Rightarrow> string \<Rightarrow> nat" where
  "size_or stold s = (case stou64_or stold s 10 0 of Inr v \<Rightarrow> nat v | Inl _ \<Rightarrow> 0)"

definition make_range :: "nat \<Rightarrow> nat \<Rightarrow> nat \<Rightarrow> nat \<Rightarrow> range_value" where
  "make_range b count e file_size =
     \<lparr>fr_begin = b, fr_total = count, cr_line = range_line b e file_size, rg_end = e\<rparr>"

definition parse_range :: "stold_fn \<Rightarrow> nat \<Rightarrow> string \<Rightarrow> range_value option" where
  "parse_range stold file_size sub_range_str =
     (case from_string_char sub_range_str (CHR ''-'') False of
        Some [x, y] \<Rightarrow>
          if x = [] then
            (if y = [] then None
             else
               let count = size_or stold y in
               if count = 0 \<or> file_size < count then None
               else Some (make_range (size_sub file_size count) count (size_sub file_size 1) file_size))
          else if y = [] then
            (let b = size_or stold x; e = size_sub file_size 1 in
             if e < b then None else Some (make_range b (size_sub file_size b) e file_size))
          else
            (let b = size_or stold x; e = size_or stold y in
             if e < b \<or> file_size \<le> e then None
             else Some (make_range b (size_add (size_sub e b) 1) e file_size))
      | _ \<Rightarrow> None)"

fun parse_ranges :: "stold_fn \<Rightarrow> nat \<Rightarrow> string list \<Rightarrow> range_value list \<Rightarrow> status \<times> range_value list" where
  "parse_ranges stold file_size [] ranges = (200, ranges)"
| "parse_ranges stold file_size (s # ss) ranges =
     (case parse_range stold file_size s of
        None \<Rightarrow> (416, ranges)
      | Some r \<Rightarrow> parse_ranges stold file_size ss (ranges @ [r]))"

definition range_text_parsing :: "stold_fn \<Rightarrow> string \<Rightarrow> nat \<Rightarrow> status \<times> range_value list" where
  "range_text_parsing stold range_str_view file_size =
     (let range_str = erase_spaces (length range_str_view) range_str_view in
      if range_str = [] then (400, [])
      else if substr 0 6 range_str \<noteq> ''bytes='' then (416, [])
      else
        let cl_range_str = drop 6 range_str in
        if cl_range_str = [] then (416, [])
        else case from_string_char cl_range_str (CHR '','') True of
               Some subs \<Rightarrow> parse_ranges stold file_size subs []
             | None \<Rightarrow> (416, []))"

section \<open>Sending\<close>

definition buf_size :: nat where
  "buf_size = 0xFFFF"

text \<open>What is left to send of one range, on the stream that is positioned at it.\<close>

function single_loop :: "nat \<Rightarrow> ifstream \<Rightarrow> helper_base \<Rightarrow> string \<times> helper_base" where
  "single_loop count s h =
     (if eofbit s then ([], h)
      else if count \<le> buf_size then
        let (got, s) = stream_read count s in body_data got h
      else
        let (got, s) = stream_read buf_size s; (d, h) = body_data got h;
            (ds, h) = single_loop (count - buf_size) s h
        in (d @ ds, h))"
  by pat_completeness auto
termination by (relation "measure (\<lambda>(count, s, h). count)") (auto simp: buf_size_def)

declare single_loop.simps [simp del]

text \<open>A part of a multipart body ends with a line break, which is put into the same buffer.\<close>

function part_loop :: "nat \<Rightarrow> ifstream \<Rightarrow> helper_base \<Rightarrow> (string \<times> ifstream \<times> helper_base) option" where
  "part_loop count s h =
     (if eofbit s then Some ([], s, h)
      else if count \<le> buf_size then
        let (got, s) = stream_read count s in
        if got = [] then Some ([], s, h)
        else if buf_size < length got + 2 then None
        else let (d, h) = body_data (got @ CRLF) h in Some (d, s, h)
      else
        let (got, s) = stream_read buf_size s; (d, h) = body_data got h in
        (case part_loop (count - buf_size) s h of
           None \<Rightarrow> None
         | Some (ds, s, h) \<Rightarrow> Some (d @ ds, s, h)))"
  by pat_completeness auto
termination by (relation "measure (\<lambda>(count, s, h). count)") (auto simp: buf_size_def)

declare part_loop.simps [simp del]

definition part_head :: "string \<Rightarrow> string \<Rightarrow> range_value \<Rightarrow> string" where
  "part_head boundary ct_line v = ''--'' @ boundary @ CRLF @ ct_line @ CRLF @ cr_line v @ CRLF @ CRLF"

fun send_parts ::
    "string \<Rightarrow> string \<Rightarrow> range_value list \<Rightarrow> ifstream \<Rightarrow> helper_base \<Rightarrow> (string \<times> helper_base) option" where
  "send_parts boundary ct_line [] s h = Some (body_data (''--'' @ boundary @ ''--'' @ CRLF) h)"
| "send_parts boundary ct_line (v # vs) s h =
     (let (d, h) = body_data (part_head boundary ct_line v) h in
      case part_loop (fr_total v) (seekg (fr_begin v) s) h of
        None \<Rightarrow> None
      | Some (ds, s, h) \<Rightarrow>
          (case send_parts boundary ct_line vs s h of
             None \<Rightarrow> None
           | Some (rest, h) \<Rightarrow> Some (d @ ds @ rest, h)))"

text \<open>
  There has to be a range, which the source asserts. \<^const>\<open>None\<close> is what is not a transfer: the
  assertion that fails, or a line break that is written past the end of the buffer.
\<close>

definition co_send_range ::
    "stold_fn \<Rightarrow> ifstream \<Rightarrow> string \<Rightarrow> string \<Rightarrow> range_value list \<Rightarrow> response_helper \<Rightarrow> (string \<times> response_helper) option res" where
  "co_send_range stold s boundary ct_line ranges r =
     (if ranges = [] then Inr None
      else res_bind (response_header_data stold 0 r) (\<lambda>(head, r).
       Inr (case ranges of
              [v] \<Rightarrow>
                let (d, h) = single_loop (fr_total v) (seekg (fr_begin v) s) (rh_helper r)
                in Some (head @ d, r\<lparr>rh_helper := h\<rparr>)
            | _ \<Rightarrow>
                (case send_parts boundary ct_line ranges s (rh_helper r) of
                   None \<Rightarrow> None
                 | Some (d, h) \<Rightarrow> Some (head @ d, r\<lparr>rh_helper := h\<rparr>)))))"

definition content_length :: "string \<Rightarrow> string \<Rightarrow> range_value list \<Rightarrow> nat" where
  "content_length boundary ct_line ranges =
     size_add
       (foldl (\<lambda>n v. size_add n (2 + length boundary + 2 + length ct_line + 2 + length (cr_line v) + 2 + 2 +
          fr_total v + 2)) 0 ranges)
       (2 + length boundary + 2 + 2)"

text \<open>The boundary is made of a random identifier and the time; it is a parameter.\<close>

definition co_range_transfer ::
    "stold_fn \<Rightarrow> string \<Rightarrow> string \<Rightarrow> ifstream \<Rightarrow> range_value list \<Rightarrow> response_helper \<Rightarrow> (string \<times> response_helper) option res" where
  "co_range_transfer stold boundary mtype s ranges r =
     res_bind (set_status 206 r) (\<lambda>r.
       case ranges of
         [v] \<Rightarrow>
           co_send_range stold s [] [] ranges
             (response_set_header ''Content-Range''
                (to_string (fr_begin v) @ ''-'' @ to_string (rg_end v) @ ''/'' @ to_string (fr_total v))
                (response_set_header ''Content-Length'' (to_string (fr_total v))
                  (response_set_header ''Content-Type'' mtype
                    (response_set_header ''Accept-Ranges'' ''bytes'' r))))
       | _ \<Rightarrow>
           let ct_line = ''Content-Type: '' @ mtype in
           co_send_range stold s boundary ct_line ranges
             (response_set_header ''Accept-Ranges'' ''bytes''
               (response_set_header ''Content-Length'' (to_string (content_length boundary ct_line ranges))
                 (response_set_header ''Content-Type'' (''multipart/byteranges; boundary='' @ boundary) r))))"

text \<open>A whole file is read until a read yields nothing.\<close>

function default_loop :: "ifstream \<Rightarrow> helper_base \<Rightarrow> string \<times> helper_base" where
  "default_loop s h =
     (if eofbit s then ([], h)
      else
        let (got, s) = stream_read buf_size s in
        if got = [] then ([], h)
        else
          let (d, h) = body_data got h; (ds, h) = default_loop s h
          in (d @ ds, h))"
  by pat_completeness auto
termination
  by (relation "measure (\<lambda>(s, h). length (content s) - pos s)")
    (auto simp: stream_read_def Let_def split: if_splits)

declare default_loop.simps [simp del]

definition co_default_transfer :: "stold_fn \<Rightarrow> string \<Rightarrow> nat \<Rightarrow> ifstream \<Rightarrow> response_helper \<Rightarrow> (string \<times> response_helper) res" where
  "co_default_transfer stold mtype fsize s r =
     (if fsize = 0 then Inr ([], r)
      else
        res_bind (response_header_data stold fsize (response_set_header ''Content-Type'' mtype r)) (\<lambda>(head, r).
          Inr (let (d, h) = default_loop (seekg 0 s) (rh_helper r)
               in (head @ d, r\<lparr>rh_helper := h\<rparr>))))"

definition co_write :: "stold_fn \<Rightarrow> string \<Rightarrow> response_helper \<Rightarrow> (string \<times> response_helper) res" where
  "co_write stold body r =
     (if h_state (rh_helper r) = Finish then Inr ([], r)
      else
        res_bind
          (if h_state (rh_helper r) = Header then response_header_data stold (length body) r else Inr ([], r))
          (\<lambda>(head, r).
            Inr (if body = [] then (head, r)
                 else let (d, h) = body_data body (rh_helper r) in (head @ d, r\<lparr>rh_helper := h\<rparr>))))"

text \<open>
  The token, with its stream, the type and the size of its file, comes from \<open>File_Token\<close>. The
  result is the number of an error, that of an invalid seek or none, and what was sent.
\<close>

definition ESPIPE :: nat where
  "ESPIPE = 29"

definition co_send_file ::
    "stold_fn \<Rightarrow> string \<Rightarrow> string \<Rightarrow> nat \<Rightarrow> ifstream \<Rightarrow> file_range list \<Rightarrow> response_helper \<Rightarrow>
     nat \<times> (string \<times> response_helper) option res" where
  "co_send_file stold boundary mtype fsize s token_ranges r =
     (if h_state (rh_helper r) \<noteq> Header then (0, Inr (Some ([], r)))
      else if token_ranges \<noteq> [] then
        (case from_file_range token_ranges fsize of
           (ranges, error) \<Rightarrow>
             if error then (ESPIPE, Inr (Some ([], r)))
             else (0, co_range_transfer stold boundary mtype s ranges r))
      else
        case map_find (rh_request_headers r) ''Range'' of
          None \<Rightarrow> (0, res_bind (co_default_transfer stold mtype fsize s r) (\<lambda>x. Inr (Some x)))
        | Some v \<Rightarrow>
            (case range_text_parsing stold v fsize of
               (status, ranges) \<Rightarrow>
                 (0, if status \<noteq> 200 then
                   res_bind (set_status 416 r) (\<lambda>r.
                   res_bind (status_description status) (\<lambda>sd.
                   res_bind (co_write stold (sd @ '' ('' @ to_string status @ '')'') r) (\<lambda>x. Inr (Some x))))
                 else co_range_transfer stold boundary mtype s ranges r)))"

section \<open>What is emitted\<close>

text \<open>The helper still has \<open>n\<close> bytes of its content length to go.\<close>

definition to_go :: "nat \<Rightarrow> helper_base \<Rightarrow> bool" where
  "to_go n h \<longleftrightarrow> h_content_length h = n \<and> h_state h = (if n = 0 then Finish else Content_length)"

lemma body_data_to_go:
  assumes "to_go n h" "length b \<le> n" "0 < n"
  shows "fst (body_data b h) = b" "to_go (n - length b) (snd (body_data b h))"
  using assms by (auto simp: to_go_def body_data_def)

text \<open>A stream without error flags at a position inside the file.\<close>

definition good_stream :: "string \<Rightarrow> nat \<Rightarrow> ifstream \<Rightarrow> bool" where
  "good_stream c n s \<longleftrightarrow> content s = c \<and> pos s = n \<and> \<not> eofbit s \<and> \<not> failbit s"

lemma stream_read_good:
  assumes "good_stream c n s" "n + k \<le> length c"
  shows "\<exists>s'. stream_read k s = (take k (drop n c), s') \<and> good_stream c (n + k) s'"
  using assms by (auto simp: stream_read_def good_stream_def Let_def)

lemma seekg_good: "good_stream c n s \<Longrightarrow> good_stream c k (seekg k s)"
  by (simp add: good_stream_def seekg_def)

text \<open>The last read of a range leaves room for a line break in the buffer.\<close>

definition part_fits :: "nat \<Rightarrow> bool" where
  "part_fits count \<longleftrightarrow> 0 < count \<and> (count - 1) mod buf_size + 1 + 2 \<le> buf_size"

lemma part_loop_good:
  assumes "good_stream c n s" "n + count \<le> length c" "part_fits count" "to_go m h" "count + 2 \<le> m"
  shows "\<exists>s' h'. part_loop count s h = Some (take count (drop n c) @ CRLF, s', h') \<and>
    good_stream c (n + count) s' \<and> to_go (m - (count + 2)) h'"
  using assms
proof (induction count s h arbitrary: n m rule: part_loop.induct)
  case (1 count s h)
  show ?case
  proof (cases "count \<le> buf_size")
    case True
    obtain s' where s': "stream_read count s = (take count (drop n c), s')" "good_stream c (n + count) s'"
      using stream_read_good [OF 1(2,3)] by blast
    have len: "length (take count (drop n c)) = count" using 1(3) by simp
    have "count - 1 < buf_size" using True 1(4) by (auto simp: part_fits_def)
    then have "(count - 1) mod buf_size = count - 1" by simp
    then have "count + 2 \<le> buf_size" "0 < count" using 1(4) by (auto simp: part_fits_def)
    moreover have "take count (drop n c) \<noteq> []" using len \<open>0 < count\<close> by (metis list.size(3) less_irrefl)
    moreover obtain d h' where d: "body_data (take count (drop n c) @ CRLF) h = (d, h')" by fastforce
    moreover have "d = take count (drop n c) @ CRLF" "to_go (m - (count + 2)) h'"
      using body_data_to_go [OF 1(5), of "take count (drop n c) @ CRLF"] d len 1(6) by (simp_all add: CRLF_def)
    moreover have "\<not> eofbit s" using 1(2) by (simp add: good_stream_def)
    ultimately show ?thesis
      using s' True len by (simp add: part_loop.simps [of count s h])
  next
    case False
    obtain s' where s': "stream_read buf_size s = (take buf_size (drop n c), s')" "good_stream c (n + buf_size) s'"
      using stream_read_good [OF 1(2), of buf_size] False 1(3) by auto
    obtain d h' where d: "body_data (take buf_size (drop n c)) h = (d, h')" by fastforce
    have len: "length (take buf_size (drop n c)) = buf_size" using False 1(3) by simp
    have d': "d = take buf_size (drop n c)" "to_go (m - buf_size) h'"
      using body_data_to_go [OF 1(5), of "take buf_size (drop n c)"] d len False 1(6) by simp_all
    have fits: "part_fits (count - buf_size)"
    proof -
      have "count - 1 = (count - buf_size - 1) + buf_size" using False by simp
      then have "(count - 1) mod buf_size = (count - buf_size - 1) mod buf_size" by (metis mod_add_self2)
      then show ?thesis using 1(4) False by (simp add: part_fits_def)
    qed
    have eof: "\<not> eofbit s" using 1(2) by (simp add: good_stream_def)
    have enough: "count - buf_size + 2 \<le> m - buf_size" "n + buf_size + (count - buf_size) \<le> length c"
      using False 1(3,6) by auto
    obtain s2 h2 where rec: "part_loop (count - buf_size) s' h' =
        Some (take (count - buf_size) (drop (n + buf_size) c) @ CRLF, s2, h2)"
        "good_stream c (n + buf_size + (count - buf_size)) s2" "to_go (m - buf_size - (count - buf_size + 2)) h2"
      using 1(1) [OF eof False s'(1) [symmetric] refl d [symmetric] refl s'(2) enough(2) fits d'(2) enough(1)]
      by blast
    have "take count (drop n c) = take buf_size (drop n c) @ take (count - buf_size) (drop (n + buf_size) c)"
      using False by (metis add.commute drop_drop le_add_diff_inverse linear take_add)
    moreover have "n + buf_size + (count - buf_size) = n + count"
      "m - buf_size - (count - buf_size + 2) = m - (count + 2)" using False by auto
    ultimately show ?thesis
      using rec s'(1) d d' eof False by (simp add: part_loop.simps [of count s h])
  qed
qed

text \<open>A part that does not fit overruns the buffer with its last piece.\<close>

lemma part_loop_overruns:
  assumes "good_stream c n s" "n + count \<le> length c" "0 < count" "\<not> part_fits count"
  shows "part_loop count s h = None"
  using assms
proof (induction count s h arbitrary: n rule: part_loop.induct)
  case (1 count s h)
  have eof: "\<not> eofbit s" using 1(2) by (simp add: good_stream_def)
  show ?case
  proof (cases "count \<le> buf_size")
    case True
    obtain s' where s': "stream_read count s = (take count (drop n c), s')"
      using stream_read_good [OF 1(2,3)] by blast
    have "count - 1 < buf_size" using True 1(4) by (simp add: buf_size_def)
    then have "(count - 1) mod buf_size = count - 1" by simp
    then have "buf_size < length (take count (drop n c)) + 2" using 1(3-5) by (auto simp: part_fits_def)
    moreover have "take count (drop n c) \<noteq> []" using 1(3,4) by auto
    ultimately show ?thesis using s' True eof by (simp add: part_loop.simps [of count s h])
  next
    case False
    obtain s' where s': "stream_read buf_size s = (take buf_size (drop n c), s')" "good_stream c (n + buf_size) s'"
      using stream_read_good [OF 1(2), of buf_size] False 1(3) by auto
    obtain d h' where d: "body_data (take buf_size (drop n c)) h = (d, h')" by fastforce
    have "count - 1 = (count - buf_size - 1) + buf_size" using False by simp
    then have "(count - 1) mod buf_size = (count - buf_size - 1) mod buf_size" by (metis mod_add_self2)
    then have "\<not> part_fits (count - buf_size)" using 1(5) False by (simp add: part_fits_def)
    then have "part_loop (count - buf_size) s' h' = None"
      using 1(1) [OF eof False s'(1) [symmetric] refl d [symmetric] refl s'(2)] False 1(3) by simp
    then show ?thesis using s'(1) d eof False by (simp add: part_loop.simps [of count s h])
  qed
qed

lemma part_loop_stream:
  assumes "good_stream c n s" "n + count \<le> length c" "part_loop count s h = Some (d, s2, h2)"
  shows "\<exists>k. good_stream c k s2"
  using assms
proof (induction count s h arbitrary: n d rule: part_loop.induct)
  case (1 count s h)
  have eof: "\<not> eofbit s" using 1(2) by (simp add: good_stream_def)
  show ?case
  proof (cases "count \<le> buf_size")
    case True
    then show ?thesis using stream_read_good [OF 1(2,3)] 1(4) eof
      by (auto simp: part_loop.simps [of count s h] Let_def split: if_splits prod.splits)
  next
    case False
    obtain s' where s': "stream_read buf_size s = (take buf_size (drop n c), s')" "good_stream c (n + buf_size) s'"
      using stream_read_good [OF 1(2), of buf_size] False 1(3) by auto
    obtain e h' where e: "body_data (take buf_size (drop n c)) h = (e, h')" by fastforce
    obtain d' where "part_loop (count - buf_size) s' h' = Some (d', s2, h2)"
      using 1(4) s'(1) e eof False by (auto simp: part_loop.simps [of count s h] split: option.splits)
    then show ?thesis
      using 1(1) [OF eof False s'(1) [symmetric] refl e [symmetric] refl s'(2)] False 1(3) by simp
  qed
qed

text \<open>The body of a multipart response.\<close>

definition part_text :: "string \<Rightarrow> string \<Rightarrow> string \<Rightarrow> range_value \<Rightarrow> string" where
  "part_text boundary ct_line c v =
     part_head boundary ct_line v @ take (fr_total v) (drop (fr_begin v) c) @ CRLF"

definition multipart_text :: "string \<Rightarrow> string \<Rightarrow> string \<Rightarrow> range_value list \<Rightarrow> string" where
  "multipart_text boundary ct_line c vs =
     concat (map (part_text boundary ct_line c) vs) @ ''--'' @ boundary @ ''--'' @ CRLF"

definition inside :: "string \<Rightarrow> range_value \<Rightarrow> bool" where
  "inside c v \<longleftrightarrow> fr_begin v + fr_total v \<le> length c \<and> 0 < fr_total v"

definition in_file :: "string \<Rightarrow> range_value \<Rightarrow> bool" where
  "in_file c v \<longleftrightarrow> fr_begin v + fr_total v \<le> length c \<and> part_fits (fr_total v)"

lemma send_parts_good:
  assumes "good_stream c n s" "list_all (in_file c) vs" "to_go (length (multipart_text boundary ct_line c vs)) h"
  shows "\<exists>h'. send_parts boundary ct_line vs s h = Some (multipart_text boundary ct_line c vs, h') \<and> to_go 0 h'"
  using assms
proof (induction vs arbitrary: n s h)
  case Nil
  then show ?case
    using body_data_to_go [of "length (''--'' @ boundary @ ''--'' @ CRLF)" h "''--'' @ boundary @ ''--'' @ CRLF"]
    by (cases "body_data (''--'' @ boundary @ ''--'' @ CRLF) h") (simp add: multipart_text_def)
next
  case (Cons v vs)
  let ?rest = "length (multipart_text boundary ct_line c vs)" and ?head = "part_head boundary ct_line v"
  let ?data = "take (fr_total v) (drop (fr_begin v) c)"
  have v: "fr_begin v + fr_total v \<le> length c" "part_fits (fr_total v)" using Cons.prems(2) by (auto simp: in_file_def)
  have m: "length (multipart_text boundary ct_line c (v # vs)) = length ?head + (fr_total v + 2) + ?rest"
    using v(1) by (simp add: multipart_text_def part_text_def CRLF_def)
  have rest: "0 < ?rest" by (simp add: multipart_text_def)
  obtain d h1 where d: "body_data ?head h = (d, h1)" by fastforce
  have d': "d = ?head" "to_go (fr_total v + 2 + ?rest) h1"
    using body_data_to_go [OF Cons.prems(3), of ?head] d rest unfolding m by (auto simp: add.assoc)
  obtain s' h2 where loop: "part_loop (fr_total v) (seekg (fr_begin v) s) h1 = Some (?data @ CRLF, s', h2)"
      "good_stream c (fr_begin v + fr_total v) s'" "to_go ?rest h2"
    using part_loop_good [OF seekg_good [OF Cons.prems(1)] v d'(2)] by auto
  obtain h' where "send_parts boundary ct_line vs s' h2 = Some (multipart_text boundary ct_line c vs, h')" "to_go 0 h'"
    using Cons.IH [OF loop(2) _ loop(3)] Cons.prems(2) by auto
  then show ?case
    using d d' loop by (simp add: multipart_text_def part_text_def)
qed

lemma in_file_inside: "in_file c v \<longleftrightarrow> inside c v \<and> part_fits (fr_total v)"
  by (auto simp: in_file_def inside_def part_fits_def)

lemma send_parts_overruns:
  assumes "good_stream c n s" "list_all (inside c) vs" "\<not> list_all (\<lambda>v. part_fits (fr_total v)) vs"
  shows "send_parts boundary ct_line vs s h = None"
  using assms
proof (induction vs arbitrary: n s h)
  case (Cons v vs)
  obtain d h1 where d: "body_data (part_head boundary ct_line v) h = (d, h1)" by fastforce
  note v = seekg_good [OF Cons.prems(1), of "fr_begin v"]
  have in_v: "fr_begin v + fr_total v \<le> length c" "0 < fr_total v" using Cons.prems(2) by (simp_all add: inside_def)
  show ?case
  proof (cases "part_loop (fr_total v) (seekg (fr_begin v) s) h1")
    case (Some x)
    obtain ds s2 h2 where x: "x = (ds, s2, h2)" by (cases x)
    obtain k where "good_stream c k s2" using part_loop_stream [OF v in_v(1)] Some x by blast
    moreover have "part_fits (fr_total v)" using part_loop_overruns [OF v in_v] Some by fastforce
    ultimately have "send_parts boundary ct_line vs s2 h2 = None" using Cons.IH Cons.prems(2,3) by simp
    then show ?thesis using d Some x by simp
  qed (use d in simp)
qed simp

lemma part_length:
  "inside c v \<Longrightarrow> length (part_text boundary ct_line c v) =
     2 + length boundary + 2 + length ct_line + 2 + length (cr_line v) + 2 + 2 + fr_total v + 2"
  by (auto simp: part_text_def part_head_def CRLF_def inside_def min_def)

lemma foldl_size_add:
  "n + sum_list (map f xs) < 2 ^ 64 \<Longrightarrow> foldl (\<lambda>n v. size_add n (f v)) n xs = n + sum_list (map f xs)"
  by (induction xs arbitrary: n) (auto simp: add.assoc)

lemma content_length_exact:
  assumes "list_all (inside c) vs" "length (multipart_text boundary ct_line c vs) < 2 ^ 64"
  shows "content_length boundary ct_line vs = length (multipart_text boundary ct_line c vs)"
proof -
  let ?f = "\<lambda>v. 2 + length boundary + 2 + length ct_line + 2 + length (cr_line v) + 2 + 2 + fr_total v + 2"
  have "length (concat (map (part_text boundary ct_line c) vs)) = sum_list (map ?f vs)"
    using assms(1) by (induction vs) (simp_all add: part_length)
  then have len: "length (multipart_text boundary ct_line c vs) = sum_list (map ?f vs) + (2 + length boundary + 2 + 2)"
    by (simp add: multipart_text_def CRLF_def)
  with assms(2) foldl_size_add [of 0 ?f vs] show ?thesis by (simp add: content_length_def)
qed

lemma single_loop_good:
  assumes "good_stream c n s" "n + count \<le> length c" "0 < count" "to_go count h"
  shows "fst (single_loop count s h) = take count (drop n c)"
  using assms
proof (induction count s h arbitrary: n rule: single_loop.induct)
  case (1 count s h)
  have eof: "\<not> eofbit s" using 1(2) by (simp add: good_stream_def)
  show ?case
  proof (cases "count \<le> buf_size")
    case True
    obtain s' where s': "stream_read count s = (take count (drop n c), s')"
      using stream_read_good [OF 1(2,3)] by blast
    show ?thesis
      using body_data_to_go(1) [OF 1(5), of "take count (drop n c)"] s' True eof 1(3,4)
      by (simp add: single_loop.simps [of count s h])
  next
    case False
    obtain s' where s': "stream_read buf_size s = (take buf_size (drop n c), s')" "good_stream c (n + buf_size) s'"
      using stream_read_good [OF 1(2), of buf_size] False 1(3) by auto
    obtain d h' where d: "body_data (take buf_size (drop n c)) h = (d, h')" by fastforce
    have d': "d = take buf_size (drop n c)" "to_go (count - buf_size) h'"
      using body_data_to_go [OF 1(5), of "take buf_size (drop n c)"] d False 1(3,4) by simp_all
    have "fst (single_loop (count - buf_size) s' h') = take (count - buf_size) (drop (n + buf_size) c)"
      using 1(1) [OF eof False s'(1) [symmetric] refl d [symmetric] refl s'(2) _ _ d'(2)] False 1(3) by simp
    moreover have "take count (drop n c) = take buf_size (drop n c) @ take (count - buf_size) (drop (n + buf_size) c)"
      using False by (metis add.commute drop_drop le_add_diff_inverse linear take_add)
    ultimately show ?thesis
      using s'(1) d d' eof False
      by (cases "single_loop (count - buf_size) s' h'") (simp add: single_loop.simps [of count s h])
  qed
qed

text \<open>A response whose Content-Length was set before its head is printed.\<close>

definition sized :: "nat \<Rightarrow> response_helper \<Rightarrow> bool" where
  "sized n r \<longleftrightarrow> h_state (rh_helper r) = Header \<and> map_inv (h_headers (rh_helper r)) \<and>
     map_find (h_headers (rh_helper r)) ''Content-Length'' = Some (to_string n) \<and>
     (\<exists>vs. version_string (rh_version r) = Inr vs) \<and> (\<exists>sd. status_description (rh_status r) = Inr sd)"

lemma header_names [simp]:
  "str_to_lower ''Content-Length'' = ''content-length''" "str_to_lower ''Accept-Ranges'' = ''accept-ranges''"
  "str_to_lower ''Content-Type'' = ''content-type''" "str_to_lower ''Content-Range'' = ''content-range''"
  "str_to_lower ''Transfer-Encoding'' = ''transfer-encoding''" "str_to_lower ''set-cookie'' = ''set-cookie''"
  "str_to_lower ''content-length'' = ''content-length''" "str_to_lower ''transfer-encoding'' = ''transfer-encoding''"
  by code_simp+

lemma sized_head:
  assumes "sized n r" "0 < n" "n < 2 ^ 64"
  shows "\<exists>head r'. response_header_data stold k r = Inr (head, r') \<and> to_go n (rh_helper r')"
proof -
  have len: "ston_size stold (to_string n) 10 = Inr n"
    using ston_size_print [of 10 n stold] assms(3) by (simp add: to_string_def)
  obtain vs sd where names: "version_string (rh_version r) = Inr vs" "status_description (rh_status r) = Inr sd"
    using assms(1) by (auto simp: sized_def)
  define h where "h = (if request_chunked r then set_header ''Transfer-Encoding'' ''chunked'' (unset_header ''set-cookie'' (rh_helper r))
    else unset_header ''set-cookie'' (rh_helper r))"
  have "map_find (h_headers h) ''Content-Length'' = Some (to_string n)" "h_state h = Header"
    using assms(1) by (auto simp: h_def sized_def set_header_def unset_header_def set_map_def unset_map_def
        map_find_assign map_find_erase)
  then have "header_data stold v11 k h = Inr (header_lines (h_headers h), h\<lparr>h_content_length := n, h_state := Content_length\<rparr>)"
    by (simp add: header_data_def len)
  moreover have "h_state (rh_helper r) = Header" using assms(1) by (simp add: sized_def)
  ultimately show ?thesis
    using assms(2) by (simp add: response_header_data_def names to_go_def Let_def flip: h_def)
qed

lemma sized_set_header:
  "sized n r \<Longrightarrow> str_to_lower key \<noteq> ''content-length'' \<Longrightarrow> sized n (response_set_header key v r)"
  by (auto simp: sized_def response_set_header_def set_header_def set_map_def map_inv_assign map_find_assign)

definition ready :: "response_helper \<Rightarrow> bool" where
  "ready r \<longleftrightarrow> h_state (rh_helper r) = Header \<and> map_inv (h_headers (rh_helper r)) \<and>
     (\<exists>vs. version_string (rh_version r) = Inr vs) \<and> (\<exists>sd. status_description (rh_status r) = Inr sd)"

lemma ready_set_header: "ready r \<Longrightarrow> ready (response_set_header key v r)"
  by (auto simp: ready_def response_set_header_def set_header_def set_map_def map_inv_assign)

lemma sized_set_length: "ready r \<Longrightarrow> sized n (response_set_header ''Content-Length'' (to_string n) r)"
  by (auto simp: ready_def sized_def response_set_header_def set_header_def set_map_def map_inv_assign
      map_find_assign)

lemma set_status_206: "set_status 206 r = Inr (r\<lparr>rh_status := 206\<rparr>)"
  by (simp add: set_status_def status_check_def status_table_def)

lemma ready_206: "ready r \<Longrightarrow> ready (r\<lparr>rh_status := 206\<rparr>)"
  by (auto simp: ready_def status_description_def status_table_def)

lemma co_range_transfer_single:
  assumes "ready r" "good_stream c n s" "fr_begin v + fr_total v \<le> length c" "0 < fr_total v" "fr_total v < 2 ^ 64"
  shows "\<exists>r1 head r2 r'. sized (fr_total v) r1 \<and> response_header_data stold 0 r1 = Inr (head, r2) \<and>
    co_range_transfer stold boundary mtype s [v] r = Inr (Some (head @ take (fr_total v) (drop (fr_begin v) c), r'))"
proof -
  define r1 where "r1 = response_set_header ''Content-Range''
      (to_string (fr_begin v) @ ''-'' @ to_string (rg_end v) @ ''/'' @ to_string (fr_total v))
      (response_set_header ''Content-Length'' (to_string (fr_total v))
        (response_set_header ''Content-Type'' mtype (response_set_header ''Accept-Ranges'' ''bytes'' (r\<lparr>rh_status := 206\<rparr>))))"
  have sized: "sized (fr_total v) r1"
    unfolding r1_def by (intro sized_set_header sized_set_length ready_set_header ready_206 assms(1)) simp
  obtain head r2 where head: "response_header_data stold 0 r1 = Inr (head, r2)" "to_go (fr_total v) (rh_helper r2)"
    using sized_head [OF sized assms(4,5)] by blast
  obtain h where "single_loop (fr_total v) (seekg (fr_begin v) s) (rh_helper r2) =
      (take (fr_total v) (drop (fr_begin v) c), h)"
    using single_loop_good [OF seekg_good [OF assms(2)] assms(3,4) head(2)] by (metis prod.collapse)
  then have "co_range_transfer stold boundary mtype s [v] r =
      Inr (Some (head @ take (fr_total v) (drop (fr_begin v) c), r2\<lparr>rh_helper := h\<rparr>))"
    using head(1) unfolding r1_def by (simp add: co_range_transfer_def set_status_206 co_send_range_def)
  with sized head(1) show ?thesis by blast
qed

lemma co_range_transfer_multi:
  assumes "ready r" "good_stream c n s" "list_all (in_file c) vs" "length vs \<noteq> 1" "vs \<noteq> []"
    and "length (multipart_text boundary (''Content-Type: '' @ mtype) c vs) < 2 ^ 64"
  defines "body \<equiv> multipart_text boundary (''Content-Type: '' @ mtype) c vs"
  shows "\<exists>r1 head r2 r'. sized (length body) r1 \<and> response_header_data stold 0 r1 = Inr (head, r2) \<and>
    co_range_transfer stold boundary mtype s vs r = Inr (Some (head @ body, r'))"
proof -
  let ?ct = "''Content-Type: '' @ mtype"
  define r1 where "r1 = response_set_header ''Accept-Ranges'' ''bytes''
      (response_set_header ''Content-Length'' (to_string (content_length boundary ?ct vs))
        (response_set_header ''Content-Type'' (''multipart/byteranges; boundary='' @ boundary) (r\<lparr>rh_status := 206\<rparr>)))"
  have len: "content_length boundary ?ct vs = length body"
    unfolding body_def by (rule content_length_exact [OF _ assms(6)])
      (use assms(3) in \<open>auto simp: list_all_iff in_file_inside\<close>)
  have sized: "sized (length body) r1"
    unfolding r1_def len by (intro sized_set_header sized_set_length ready_set_header ready_206 assms(1)) simp
  have "0 < length body" by (simp add: body_def multipart_text_def)
  then obtain head r2 where head: "response_header_data stold 0 r1 = Inr (head, r2)" "to_go (length body) (rh_helper r2)"
    using sized_head [OF sized] assms(6) unfolding body_def by blast
  obtain h where h: "send_parts boundary ?ct vs s (rh_helper r2) = Some (body, h)"
    using send_parts_good [OF assms(2,3)] head(2) unfolding body_def by blast
  have send: "co_send_range stold s boundary ?ct vs r1 = Inr (Some (head @ body, r2\<lparr>rh_helper := h\<rparr>))"
    using head(1) h assms(4,5) unfolding co_send_range_def
    by (cases vs; cases "tl vs") (simp_all del: append.simps send_parts.simps)
  have "co_range_transfer stold boundary mtype s vs r = co_send_range stold s boundary ?ct vs r1"
    using assms(4) unfolding co_range_transfer_def r1_def set_status_206
    by (cases vs; cases "tl vs") (simp_all add: Let_def del: append.simps)
  with send sized head(1) show ?thesis by auto
qed

lemma co_range_transfer_overruns:
  assumes "ready r" "good_stream c n s" "list_all (inside c) vs" "1 < length vs"
    and "length (multipart_text boundary (''Content-Type: '' @ mtype) c vs) < 2 ^ 64"
    and "\<not> list_all (\<lambda>v. part_fits (fr_total v)) vs"
  shows "co_range_transfer stold boundary mtype s vs r = Inr None"
proof -
  let ?ct = "''Content-Type: '' @ mtype"
  define r1 where "r1 = response_set_header ''Accept-Ranges'' ''bytes''
      (response_set_header ''Content-Length'' (to_string (content_length boundary ?ct vs))
        (response_set_header ''Content-Type'' (''multipart/byteranges; boundary='' @ boundary) (r\<lparr>rh_status := 206\<rparr>)))"
  have len: "content_length boundary ?ct vs = length (multipart_text boundary ?ct c vs)"
    by (rule content_length_exact [OF assms(3,5)])
  have "sized (length (multipart_text boundary ?ct c vs)) r1"
    unfolding r1_def len by (intro sized_set_header sized_set_length ready_set_header ready_206 assms(1)) simp
  moreover have "0 < length (multipart_text boundary ?ct c vs)" by (simp add: multipart_text_def)
  ultimately obtain head r2 where head: "response_header_data stold 0 r1 = Inr (head, r2)"
    using sized_head assms(5) by blast
  have "co_send_range stold s boundary ?ct vs r1 = Inr None"
    using head assms(4) send_parts_overruns [OF assms(2,3,6)] unfolding co_send_range_def
    by (cases vs; cases "tl vs") (simp_all del: append.simps send_parts.simps)
  moreover have "co_range_transfer stold boundary mtype s vs r = co_send_range stold s boundary ?ct vs r1"
    using assms(4) unfolding co_range_transfer_def r1_def set_status_206
    by (cases vs; cases "tl vs") (simp_all add: Let_def del: append.simps)
  ultimately show ?thesis by simp
qed

section \<open>Reading ranges\<close>

lemma size_or_print: "n < 2 ^ 64 \<Longrightarrow> size_or stold (to_string n) = n"
proof -
  assume n: "n < 2 ^ 64"
  have "ston_size stold (to_string n) 10 = Inr n"
    using ston_size_print [of 10 n stold] n by (simp add: to_string_def)
  then show ?thesis
    by (auto simp: ston_size_def size_or_def stou64_or_def stou64_def sto_u_def try_stobtot_def Let_def
        split: sum.splits if_splits)
qed

definition range_ok :: "nat \<Rightarrow> range_value \<Rightarrow> bool" where
  "range_ok file_size r \<longleftrightarrow> fr_begin r \<le> rg_end r \<and> rg_end r < file_size \<and>
     fr_total r = rg_end r - fr_begin r + 1 \<and> cr_line r = range_line (fr_begin r) (rg_end r) file_size"

lemma parse_range_ok:
  assumes "parse_range stold file_size s = Some r" "0 < file_size" "file_size < 2 ^ 64"
  shows "range_ok file_size r"
proof -
  obtain x y where xy: "from_string_char s (CHR ''-'') False = Some [x, y]"
    using assms(1) by (auto simp: parse_range_def split: option.splits list.splits)
  show ?thesis
  proof (cases "x = []")
    case True
    then show ?thesis
      using assms xy by (auto simp: parse_range_def make_range_def range_ok_def Let_def split: if_splits)
  next
    case x: False
    show ?thesis
    proof (cases "y = []")
      case True
      then show ?thesis
        using assms xy x by (auto simp: parse_range_def make_range_def range_ok_def Let_def split: if_splits)
    next
      case False
      have "r = make_range (size_or stold x) (size_add (size_sub (size_or stold y) (size_or stold x)) 1)
          (size_or stold y) file_size" "size_or stold x \<le> size_or stold y" "size_or stold y < file_size"
        using assms(1) xy x False by (simp_all add: parse_range_def Let_def split: if_splits)
      then show ?thesis using assms(3) by (simp add: make_range_def range_ok_def)
    qed
  qed
qed

lemma parse_ranges_ok:
  "parse_ranges stold file_size ss rs = (st, rs') \<Longrightarrow> list_all (range_ok file_size) rs \<Longrightarrow>
   0 < file_size \<Longrightarrow> file_size < 2 ^ 64 \<Longrightarrow> list_all (range_ok file_size) rs'"
  by (induction stold file_size ss rs rule: parse_ranges.induct)
    (auto split: option.splits dest: parse_range_ok)

section \<open>Properties\<close>

lemma default_loop_good:
  assumes "good_stream c n s" "n \<le> length c" "to_go (length c - n) h"
  shows "fst (default_loop s h) = drop n c"
  using assms
proof (induction s h arbitrary: n rule: default_loop.induct)
  case (1 s h)
  have eof: "\<not> eofbit s" using 1(2) by (simp add: good_stream_def)
  obtain got s' where read: "stream_read buf_size s = (got, s')" by fastforce
  have got: "got = take buf_size (drop n c)" using 1(2) read by (auto simp: stream_read_def good_stream_def Let_def)
  show ?case
  proof (cases "n = length c")
    case True
    then show ?thesis using eof read got by (simp add: default_loop.simps [of s h])
  next
    case False
    obtain d h' where d: "body_data got h = (d, h')" by fastforce
    have ne: "got \<noteq> []" using got False 1(3) by (simp add: buf_size_def)
    have len: "length got \<le> length c - n" using got by simp
    then have d': "d = got" "to_go (length c - n - length got) h'"
      using body_data_to_go [OF 1(4), of got] d False 1(3) by auto
    show ?thesis
    proof (cases "n + buf_size \<le> length c")
      case True
      have s': "good_stream c (n + buf_size) s'" and lg: "length got = buf_size"
        using stream_read_good [OF 1(2) True] read got True by auto
      have "fst (default_loop s' h') = drop (n + buf_size) c"
        using 1(1) [OF eof read [symmetric] refl ne d [symmetric] refl s' True] d'(2) lg by simp
      moreover have "drop n c = take buf_size (drop n c) @ drop (n + buf_size) c"
        by (metis add.commute append_take_drop_id drop_drop)
      moreover have "fst (default_loop s h) = got @ fst (default_loop s' h')"
        using read d d'(1) ne eof by (simp add: default_loop.simps [of s h] split_beta)
      ultimately show ?thesis unfolding got by metis
    next
      case False
      then have "length c - n < buf_size" using 1(3) by simp
      then have "eofbit s'" "got = drop n c"
        using 1(2) read got by (auto simp: stream_read_def good_stream_def Let_def)
      moreover from this have "default_loop s' h' = ([], h')" by (simp add: default_loop.simps [of s' h'])
      ultimately show ?thesis
        using read d d' ne eof by (simp add: default_loop.simps [of s h])
    qed
  qed
qed

text \<open>A response that has not been given a length, to a request that does not ask for chunks.\<close>

definition unsized :: "response_helper \<Rightarrow> bool" where
  "unsized r \<longleftrightarrow> ready r \<and> map_find (h_headers (rh_helper r)) ''Content-Length'' = None \<and>
     map_find (h_headers (rh_helper r)) ''Transfer-Encoding'' = None \<and> \<not> request_chunked r"

lemma unsized_set_header:
  assumes "unsized r" "str_to_lower key \<noteq> ''content-length''" "str_to_lower key \<noteq> ''transfer-encoding''"
  shows "unsized (response_set_header key v r)"
  using assms ready_set_header [of r key v]
  by (auto simp: unsized_def ready_def response_set_header_def set_header_def set_map_def map_find_assign
      request_chunked_def)

lemma unsized_head:
  assumes "unsized r"
  shows "\<exists>head r'. response_header_data stold k r = Inr (head, r') \<and>
    map_find (h_headers (rh_helper r')) ''Content-Length'' = Some (to_string k) \<and>
    h_content_length (rh_helper r') = k \<and> h_state (rh_helper r') = Content_length"
proof -
  obtain vs sd where names: "version_string (rh_version r) = Inr vs" "status_description (rh_status r) = Inr sd"
    using assms by (auto simp: unsized_def ready_def)
  define h where "h = unset_header ''set-cookie'' (rh_helper r)"
  have inv: "map_inv (h_headers (rh_helper r))" using assms by (simp add: unsized_def ready_def)
  then have h: "map_find (h_headers h) ''Content-Length'' = None" "map_find (h_headers h) ''Transfer-Encoding'' = None"
      "h_state h = Header" "map_inv (h_headers h)"
    using assms by (auto simp: h_def unsized_def ready_def unset_header_def unset_map_def map_find_erase map_inv_erase)
  then have "header_data stold v11 k h =
      Inr (header_lines (h_headers (use_content_length k h)), use_content_length k h)"
    by (simp add: header_data_def)
  moreover have "h_state (rh_helper r) = Header" "\<not> request_chunked r"
    using assms by (simp_all add: unsized_def ready_def)
  ultimately show ?thesis
    using h by (simp add: response_header_data_def names use_content_length_def map_find_assign Let_def flip: h_def)
qed

lemma co_default_transfer_good:
  assumes "unsized r" "good_stream c n s" "c \<noteq> []"
  shows "\<exists>head r2 r'. response_header_data stold (length c) (response_set_header ''Content-Type'' mtype r) = Inr (head, r2) \<and>
    map_find (h_headers (rh_helper r2)) ''Content-Length'' = Some (to_string (length c)) \<and>
    co_default_transfer stold mtype (length c) s r = Inr (head @ c, r')"
proof -
  have "unsized (response_set_header ''Content-Type'' mtype r)" by (rule unsized_set_header) (use assms(1) in simp_all)
  from unsized_head [OF this, of stold "length c"]
  obtain head r2 where head: "response_header_data stold (length c) (response_set_header ''Content-Type'' mtype r) = Inr (head, r2)"
      "map_find (h_headers (rh_helper r2)) ''Content-Length'' = Some (to_string (length c))" "to_go (length c) (rh_helper r2)"
    using assms(3) by (auto simp: to_go_def)
  have "fst (default_loop (seekg 0 s) (rh_helper r2)) = c"
    using default_loop_good [OF seekg_good [OF assms(2)], of 0 "rh_helper r2"] head(3) by simp
  then have "\<exists>r'. co_default_transfer stold mtype (length c) s r = Inr (head @ c, r')"
    using head(1) assms(3) by (simp add: co_default_transfer_def split_beta)
  with head(1,2) show ?thesis by blast
qed

text \<open>
  Whatever text a client sends as Range header, the ranges taken from it lie inside the
  file: begin and end are ordered positions of it and the size is the number of bytes between.
\<close>

theorem range_text_in_file:
  assumes "0 < file_size" "file_size < 2 ^ 64"
  shows "list_all (range_ok file_size) (snd (range_text_parsing stold text file_size))"
proof -
  have "list_all (range_ok file_size) (snd (parse_ranges stold file_size subs []))" for subs
    using parse_ranges_ok [OF prod.collapse [symmetric] _ assms] by simp
  then show ?thesis by (simp add: range_text_parsing_def Let_def split: option.splits)
qed

theorem range_text_in_file_witness:
  "list_all (range_ok 10) (snd (range_text_parsing (\<lambda>s. Inl Invalid_argument) ''bytes=-3,2-4'' 10))"
  by (rule range_text_in_file) simp_all

text \<open>
  The sum that checks a range of the caller wraps around: a range that begins at the last
  position of \<^verbatim>\<open>size_t\<close> and ends behind it is accepted for every file of \<open>n\<close> bytes or more.
\<close>

theorem from_file_range_wraps:
  assumes "0 < n" "n \<le> file_size" "file_size < 2 ^ 64"
  shows "\<exists>l. from_file_range [\<lparr>fr_begin = 2 ^ 64 - 1, fr_total = n + 1\<rparr>] file_size =
    ([\<lparr>fr_begin = 2 ^ 64 - 1, fr_total = n + 1, cr_line = l, rg_end = n - 1\<rparr>], False)"
proof -
  have "(2 ^ 64 - 1 + (n + 1)) mod 2 ^ 64 = n" using assms by (simp add: mod_if)
  then have "size_sub (size_add (2 ^ 64 - 1) (n + 1)) 1 = n - 1"
    using assms unfolding size_add_def by simp
  then show ?thesis using assms by (auto simp: Let_def)
qed

theorem from_file_range_wraps_witness:
  "\<exists>l. from_file_range [\<lparr>fr_begin = 2 ^ 64 - 1, fr_total = 5 + 1\<rparr>] 10 =
    ([\<lparr>fr_begin = 2 ^ 64 - 1, fr_total = 5 + 1, cr_line = l, rg_end = 5 - 1\<rparr>], False)"
  by (rule from_file_range_wraps) simp_all

text \<open>C26.
  A partial response of ranges that are not empty and lie in the file: what follows its head is
  exactly the bytes it announces, the one range or the multipart body of all ranges, and the
  Content-Length is its length, unless it is no transfer at all. That is so exactly when there
  is no range, which fails an assertion, or when there are several and the last piece of one
  leaves no room for a line break in the buffer (\<^const>\<open>part_fits\<close>), which is written past its end.
\<close>

theorem range_transfer_exact:
  fixes boundary mtype :: string
  assumes "ready r" "good_stream c n s" "list_all (inside c) vs"
  defines "body \<equiv> (case vs of [v] \<Rightarrow> take (fr_total v) (drop (fr_begin v) c)
    | _ \<Rightarrow> multipart_text boundary (''Content-Type: '' @ mtype) c vs)"
  assumes "length body < 2 ^ 64"
  shows "if vs = [] \<or> 1 < length vs \<and> \<not> list_all (\<lambda>v. part_fits (fr_total v)) vs
    then co_range_transfer stold boundary mtype s vs r = Inr None
    else \<exists>r1 head r2 r'. sized (length body) r1 \<and> response_header_data stold 0 r1 = Inr (head, r2) \<and>
      co_range_transfer stold boundary mtype s vs r = Inr (Some (head @ body, r'))"
proof -
  consider "vs = []" | v where "vs = [v]" | "1 < length vs" by (cases vs; cases "tl vs") auto
  then show ?thesis
  proof cases
    case 1
    then show ?thesis by (simp add: co_range_transfer_def co_send_range_def set_status_206)
  next
    case (2 v)
    then have v: "fr_begin v + fr_total v \<le> length c" "0 < fr_total v" using assms(3) by (auto simp: inside_def)
    then have "length body = fr_total v" by (simp add: body_def 2)
    then show ?thesis
      using co_range_transfer_single [OF assms(1,2) v, of stold boundary mtype] assms(5) by (simp add: body_def 2)
  next
    case 3
    then have body: "body = multipart_text boundary (''Content-Type: '' @ mtype) c vs"
      by (auto simp: body_def split: list.splits)
    note len = assms(5) [unfolded body]
    show ?thesis
    proof (cases "list_all (\<lambda>v. part_fits (fr_total v)) vs")
      case True
      then have "list_all (in_file c) vs" using assms(3) by (auto simp: list_all_iff in_file_inside)
      moreover have "length vs \<noteq> 1" "vs \<noteq> []" using 3 by auto
      ultimately show ?thesis using co_range_transfer_multi [OF assms(1,2) _ _ _ len, of stold] True by (simp add: body)
    next
      case False
      then show ?thesis using co_range_transfer_overruns [OF assms(1-3) 3 len False] 3 by simp
    qed
  qed
qed

theorem range_transfer_exact_witness:
  "\<exists>head r'. co_range_transfer (\<lambda>s. Inl Invalid_argument) ''b'' ''text/plain'' (open_stream (Some ''0123456789''))
      [\<lparr>fr_begin = 2, fr_total = 3, cr_line = [], rg_end = 4\<rparr>] (new_response v11 []) = Inr (Some (head @ ''234'', r'))"
proof -
  have headers: "map_inv default_headers" by (simp add: default_headers_def map_inv_Cons)
  have names: "version_string v11 = Inr ''1.1''" "status_description 200 = Inr ''OK''" by code_simp+
  have ready: "ready (new_response v11 [])"
    using headers names by (simp add: ready_def new_response_def new_helper_def)
  have stream: "good_stream ''0123456789'' 0 (open_stream (Some ''0123456789''))"
    by (simp add: good_stream_def open_stream_def)
  have "list_all (inside ''0123456789'') [\<lparr>fr_begin = 2, fr_total = 3, cr_line = [], rg_end = 4\<rparr>]"
    by (simp add: inside_def)
  note exact = range_transfer_exact [OF ready stream this, of "''b''" "''text/plain''" "\<lambda>s. Inl Invalid_argument"]
  have "take 3 (drop 2 ''0123456789'') = ''234''" by (simp add: numeral_eq_Suc)
  with exact show ?thesis unfolding list.case range_value.simps file_range.simps by fastforce
qed

text \<open>
  A part whose last piece has 0xFFFE or 0xFFFF bytes writes its line break past the end
  of the buffer.
\<close>

theorem part_overruns:
  assumes "good_stream c n s" "n + count \<le> length c" "count = 0xFFFE \<or> count = 0xFFFF"
  shows "part_loop count s h = None"
proof -
  obtain s' where "stream_read count s = (take count (drop n c), s')"
    using stream_read_good [OF assms(1,2)] by blast
  moreover have "length (take count (drop n c)) = count" using assms(2) by simp
  moreover have "take count (drop n c) \<noteq> []" using assms(2,3) by auto
  moreover have "\<not> eofbit s" using assms(1) by (simp add: good_stream_def)
  ultimately show ?thesis
    using assms(3) by (auto simp: part_loop.simps [of count s h] buf_size_def)
qed

theorem part_overruns_witness:
  "part_loop 0xFFFE (open_stream (Some (replicate 0xFFFF (CHR ''x'')))) new_helper = None"
  by (rule part_overruns [of "replicate 0xFFFF (CHR ''x'')" 0])
    (simp_all add: good_stream_def open_stream_def del: replicate.simps)

end
