(* ===== verification/Std_Map.thy ===== *)
theory Std_Map
  imports Prelude
begin

text \<open>
  \<^verbatim>\<open>std::map\<close> with the standard order of its keys, as a list of pairs in iteration order.
  Strings compare bytewise, the bytes read as unsigned, which is the order of \<^typ>\<open>string\<close>
  here. Looking a key up is \<^const>\<open>map_of\<close>; inserting keeps the order.
\<close>

type_synonym ('k, 'v) std_map = "('k \<times> 'v) list"

fun map_put :: "('k :: linorder, 'v) std_map \<Rightarrow> 'k \<Rightarrow> 'v \<Rightarrow> ('k, 'v) std_map" where
  "map_put [] k v = [(k, v)]"
| "map_put ((k', v') # m) k v =
     (if k < k' then (k, v) # (k', v') # m
      else if k = k' then (k, v) # m
      else (k', v') # map_put m k v)"

text \<open>\<^verbatim>\<open>m[k]\<close> for a key that may be missing: a value-initialised element is inserted.\<close>

definition map_ensure :: "('k :: linorder, 'v) std_map \<Rightarrow> 'k \<Rightarrow> 'v \<Rightarrow> ('k, 'v) std_map" where
  "map_ensure m k v0 = (case map_of m k of Some v \<Rightarrow> m | None \<Rightarrow> map_put m k v0)"

definition sorted_keys :: "('k :: linorder, 'v) std_map \<Rightarrow> bool" where
  "sorted_keys m \<longleftrightarrow> sorted_wrt (<) (map fst m)"

lemma sorted_keys_simps [simp]:
  "sorted_keys []"
  "sorted_keys ((k, v) # m) \<longleftrightarrow> (\<forall>x \<in> set m. k < fst x) \<and> sorted_keys m"
  by (simp_all add: sorted_keys_def)

lemma sorted_keys_append:
  "sorted_keys (m @ m') \<longleftrightarrow> sorted_keys m \<and> sorted_keys m' \<and> (\<forall>x \<in> set m. \<forall>y \<in> set m'. fst x < fst y)"
  by (induction m) (auto, force)

lemma map_put_keys: "fst ` set (map_put m k v) = insert k (fst ` set m)"
  by (induction m k v rule: map_put.induct) auto

lemma map_put_elem: "x \<in> set (map_put m k v) \<Longrightarrow> x = (k, v) \<or> x \<in> set m"
  by (induction m k v rule: map_put.induct) (auto split: if_splits)

lemma sorted_keys_put [intro]: "sorted_keys m \<Longrightarrow> sorted_keys (map_put m k v)"
proof (induction m k v rule: map_put.induct)
  case (2 k' v' m k v)
  then show ?case by (auto dest!: map_put_elem)
qed simp

lemma map_of_put [simp]: "map_of (map_put m k v) = (map_of m)(k \<mapsto> v)"
  by (induction m k v rule: map_put.induct) auto

lemma map_put_above: "\<forall>x \<in> set m. fst x < k \<Longrightarrow> map_put m k v = m @ [(k, v)]"
  by (induction m) auto

lemma map_put_last: "\<forall>x \<in> set m. fst x < k \<Longrightarrow> map_put (m @ [(k, v')]) k v = m @ [(k, v)]"
  by (induction m) auto

lemma map_of_above:
  fixes k :: "'k :: linorder"
  shows "\<forall>x \<in> set m. fst x < k \<Longrightarrow> map_of m k = None"
  by (induction m) auto

lemma map_of_last:
  fixes k :: "'k :: linorder"
  shows "\<forall>x \<in> set m. fst x < k \<Longrightarrow> map_of (m @ [(k, v)]) k = Some v"
  by (simp add: map_of_above map_add_def)

lemma sorted_keys_ensure [intro]: "sorted_keys m \<Longrightarrow> sorted_keys (map_ensure m k v)"
  by (auto simp: map_ensure_def split: option.splits)

lemma map_ensure_above: "\<forall>x \<in> set m. fst x < k \<Longrightarrow> map_ensure m k v = m @ [(k, v)]"
  by (simp add: map_ensure_def map_of_above map_put_above)

lemma map_of_ensure:
  "map_of (map_ensure m k v) j =
   (if j = k then Some (case map_of m k of None \<Rightarrow> v | Some v' \<Rightarrow> v') else map_of m j)"
  by (auto simp: map_ensure_def split: option.splits)

section \<open>Stores\<close>

text \<open>
  What the clients of a store rely on: storing keeps the invariant and changes what is found
  at one key only. The lemmas follow for every sequence of stores.
\<close>

locale keyed_store =
  fixes inv :: "'s \<Rightarrow> bool" and look :: "'s \<Rightarrow> 'k \<Rightarrow> 'v option" and store :: "'s \<Rightarrow> 'k \<Rightarrow> 'v \<Rightarrow> 's"
  assumes inv_store: "inv s \<Longrightarrow> inv (store s k v)"
    and look_store: "inv s \<Longrightarrow> look (store s k v) = (look s)(k \<mapsto> v)"
begin

lemma inv_store_all: "inv s \<Longrightarrow> inv (foldl (\<lambda>s (k, v). store s k v) s kvs)"
  by (induction kvs arbitrary: s) (auto simp: inv_store)

lemma look_store_all:
  "inv s \<Longrightarrow> look (foldl (\<lambda>s (k, v). store s k v) s kvs) k =
   (case map_of (rev kvs) k of None \<Rightarrow> look s k | Some v \<Rightarrow> Some v)"
  by (induction kvs arbitrary: s) (auto simp: inv_store look_store map_add_def split: option.splits)

end

interpretation sm: keyed_store sorted_keys map_of "map_put :: ('k :: linorder, 'v) std_map \<Rightarrow> _"
  by unfold_locales auto

end
