(* ===== verification/Http_Server.thy ===== *)
theory Http_Server
  imports Http_Exchange Http_Range Std_Map
begin

text \<open>
  The server (\<^verbatim>\<open>libgs/http/server/detail/server.h\<close>): registering routes, choosing the route of
  a request, running its controller, the default reply, and the loop that serves the requests
  of one connection. It composes the request parser, the matching of paths and the response
  of the other theories. What the program that uses the library supplies (handlers, aspects,
  error handlers) are functions on the context: they may change it, write to the response and
  throw. The reads of the socket are a list of events; writing to it succeeds.
\<close>

section \<open>Contexts and what runs on them\<close>

record service_ctx =
  cx_parser :: request_parser
  cx_response :: response_helper
  cx_out :: string

type_synonym 'a effect = "service_ctx \<Rightarrow> 'a res \<times> service_ctx"

definition eff_return :: "'a \<Rightarrow> 'a effect" where
  "eff_return x = (\<lambda>c. (Inr x, c))"

definition eff_bind :: "'a effect \<Rightarrow> ('a \<Rightarrow> 'b effect) \<Rightarrow> 'b effect" where
  "eff_bind m f = (\<lambda>c. case m c of (Inl e, c) \<Rightarrow> (Inl e, c) | (Inr x, c) \<Rightarrow> f x c)"

definition eff_catch :: "'a effect \<Rightarrow> (exn \<Rightarrow> 'a effect) \<Rightarrow> 'a effect" where
  "eff_catch m h = (\<lambda>c. case m c of (Inl e, c) \<Rightarrow> h e c | (Inr x, c) \<Rightarrow> (Inr x, c))"

definition new_context :: "request_parser \<Rightarrow> service_ctx" where
  "new_context p =
     \<lparr>cx_parser = p, cx_response = new_response (p_version p) (p_headers p), cx_out = []\<rparr>"

definition cx_set_status :: "status \<Rightarrow> unit effect" where
  "cx_set_status s = (\<lambda>c. case set_status s (cx_response c) of
     Inl e \<Rightarrow> (Inl e, c) | Inr r \<Rightarrow> (Inr (), c\<lparr>cx_response := r\<rparr>))"

definition cx_set_header :: "string \<Rightarrow> string \<Rightarrow> unit effect" where
  "cx_set_header key v = (\<lambda>c. (Inr (), c\<lparr>cx_response := response_set_header key v (cx_response c)\<rparr>))"

definition cx_write :: "stold_fn \<Rightarrow> string \<Rightarrow> unit effect" where
  "cx_write stold body = (\<lambda>c. case co_write stold body (cx_response c) of
     Inl e \<Rightarrow> (Inl e, c) | Inr (d, r) \<Rightarrow> (Inr (), c\<lparr>cx_response := r, cx_out := cx_out c @ d\<rparr>))"

definition response_finished :: "service_ctx \<Rightarrow> bool" where
  "response_finished c \<longleftrightarrow> h_state (rh_helper (cx_response c)) = Finish"

section \<open>Controllers\<close>

record aop =
  aop_before :: "bool effect"
  aop_after :: "bool effect"
  aop_exception :: "exn \<Rightarrow> service_ctx \<Rightarrow> bool \<times> service_ctx"

record ctrlr_aop = aop +
  aop_service :: "unit effect"

text \<open>Aspects around a function: the first that answers true ends the round.\<close>

fun first_true :: "bool effect list \<Rightarrow> bool effect" where
  "first_true [] = eff_return False"
| "first_true (f # fs) = eff_bind f (\<lambda>b. if b then eff_return True else first_true fs)"

fun first_handles :: "aop list \<Rightarrow> exn \<Rightarrow> service_ctx \<Rightarrow> bool \<times> service_ctx" where
  "first_handles [] ex c = (False, c)"
| "first_handles (a # as) ex c =
     (case aop_exception a ex c of (b, c) \<Rightarrow> if b then (True, c) else first_handles as ex c)"

definition multi_ctrlr_aop :: "unit effect \<Rightarrow> aop list \<Rightarrow> ctrlr_aop" where
  "multi_ctrlr_aop func aops =
     \<lparr>aop_before = first_true (map aop_before aops), aop_after = first_true (map aop_after aops),
      aop_exception = first_handles aops, aop_service = func\<rparr>"

section \<open>The server\<close>

record route =
  tk_method :: nat
  tk_aop :: ctrlr_aop

record server =
  sv_routes :: "(string, route) std_map"
  sv_default :: "unit effect option"
  sv_server_error :: "(nat \<Rightarrow> bool) option"
  sv_service_error :: "(exn \<Rightarrow> service_ctx \<Rightarrow> bool \<times> service_ctx) option"
  sv_keepalive :: nat

definition new_server :: server where
  "new_server = \<lparr>sv_routes = [], sv_default = None, sv_server_error = None, sv_service_error = None, sv_keepalive = 5000\<rparr>"

definition rule_path_check :: "string \<Rightarrow> string" where
  "rule_path_check str =
     (let str = unique_slashes str in if \<not> starts_with ''/'' str then ''/'' @ str else str)"

definition bind_method :: "http_method list \<Rightarrow> nat" where
  "bind_method ms = (if ms = [] then all_methods else fold (OR) (map method_value ms) 0)"

text \<open>\<^verbatim>\<open>on_request\<close>: the routes registered before an exception stay.\<close>

fun on_request :: "string list \<Rightarrow> http_method list \<Rightarrow> unit effect \<Rightarrow> aop list \<Rightarrow> server \<Rightarrow> exn option \<times> server" where
  "on_request [] ms func aops sv = (None, sv)"
| "on_request (path_rule # paths) ms func aops sv =
     (if path_rule = [] then (Some Runtime_error, sv)
      else
        let rule = rule_path_check path_rule in
        if map_of (sv_routes sv) rule \<noteq> None then (Some Runtime_error, sv)
        else on_request paths ms func aops
               (sv\<lparr>sv_routes := map_put (sv_routes sv) rule
                  \<lparr>tk_method = bind_method ms, tk_aop = multi_ctrlr_aop func aops\<rparr>\<rparr>))"

definition unbound_request :: "string \<Rightarrow> server \<Rightarrow> server res" where
  "unbound_request path_rule sv =
     (if path_rule = [] then Inl Runtime_error
      else Inr (sv\<lparr>sv_routes := filter (\<lambda>x. fst x \<noteq> path_rule) (sv_routes sv)\<rparr>))"

definition on_default :: "unit effect \<Rightarrow> server \<Rightarrow> server" where
  "on_default func sv = sv\<lparr>sv_default := Some func\<rparr>"

definition on_server_error :: "(nat \<Rightarrow> bool) \<Rightarrow> server \<Rightarrow> server" where
  "on_server_error func sv = sv\<lparr>sv_server_error := Some func\<rparr>"

definition on_service_error :: "(exn \<Rightarrow> service_ctx \<Rightarrow> bool \<times> service_ctx) \<Rightarrow> server \<Rightarrow> server" where
  "on_service_error func sv = sv\<lparr>sv_service_error := Some func\<rparr>"

definition unbound_server_error :: "server \<Rightarrow> server" where
  "unbound_server_error sv = sv\<lparr>sv_server_error := None\<rparr>"

definition unbound_service_error :: "server \<Rightarrow> server" where
  "unbound_service_error sv = sv\<lparr>sv_service_error := None\<rparr>"

definition set_keepalive_time :: "nat \<Rightarrow> server \<Rightarrow> server" where
  "set_keepalive_time d sv = sv\<lparr>sv_keepalive := d\<rparr>"

section \<open>Choosing a route\<close>

text \<open>
  The loop over the routes. The path length it compares with is never updated and stays 0.
  Each match leaves the arguments of its rule in the request.
\<close>

fun route_loop ::
    "(string, route) std_map \<Rightarrow> route option \<Rightarrow> int \<Rightarrow> request \<Rightarrow> (route option \<times> request) res" where
  "route_loop [] handler weight r = Inr (handler, r)"
| "route_loop ((rule, h) # routes) handler weight r =
     res_bind (path_match rule r) (\<lambda>(w, r).
       if w = 0 then Inr (Some h, r)
       else if 0 < w \<and> (w < weight \<or> (w = weight \<and> 0 < length (rq_path r)))
       then route_loop routes (Some h) w r
       else route_loop routes handler weight r)"

definition select_route :: "server \<Rightarrow> request \<Rightarrow> (route option \<times> request) res" where
  "select_route sv r = route_loop (sv_routes sv) None (2 ^ 31 - 1) r"

section \<open>Serving one request\<close>

text \<open>The bits of the enumeration from the first to the last, doubling.\<close>

definition options_response_body :: "nat \<Rightarrow> string res" where
  "options_response_body method =
     foldl (\<lambda>sum i. res_bind sum (\<lambda>s.
         if method AND i \<noteq> 0 then res_bind (method_string i) (\<lambda>m. Inr (s @ m @ '';'')) else Inr s))
       (Inr []) (map (\<lambda>k. 2 ^ k) [0..<9])"

definition call_on_service_error :: "server \<Rightarrow> exn \<Rightarrow> unit effect" where
  "call_on_service_error sv ex =
     eff_bind (cx_set_status 500) (\<lambda>_ c.
       case sv_service_error sv of
         None \<Rightarrow> (Inl ex, c)
       | Some f \<Rightarrow> (case f ex c of (b, c) \<Rightarrow> if b then (Inr (), c) else (Inl ex, c)))"

definition run_ctrlr :: "server \<Rightarrow> ctrlr_aop \<Rightarrow> unit effect" where
  "run_ctrlr sv a =
     eff_catch
       (eff_bind (aop_before a) (\<lambda>stop.
          if stop then eff_return ()
          else eff_bind (aop_service a) (\<lambda>_. eff_bind (aop_after a) (\<lambda>_. eff_return ()))))
       (\<lambda>ex c. case aop_exception a ex c of
          (handled, c) \<Rightarrow> if handled then (Inr (), c) else call_on_service_error sv ex c)"

definition reject_method :: "stold_fn \<Rightarrow> http_method \<Rightarrow> nat \<Rightarrow> unit effect" where
  "reject_method stold method methods =
     eff_bind
       (if method = HEAD then eff_bind (cx_set_header ''Content-Type'' ''text/plain'') (\<lambda>_. cx_write stold [])
        else eff_return ())
       (\<lambda>_.
        if method = OPTIONS then
          eff_bind (cx_set_header ''Content-Type'' ''text/plain'') (\<lambda>_ c.
            case options_response_body methods of
              Inl e \<Rightarrow> (Inl e, c)
            | Inr body \<Rightarrow> cx_write stold (butlast body) c)
        else cx_set_status 405)"

definition call_on_request :: "stold_fn \<Rightarrow> server \<Rightarrow> unit effect" where
  "call_on_request stold sv = (\<lambda>c.
     case select_route sv (p_owner (cx_parser c)) of
       Inl e \<Rightarrow> (Inl e, c)
     | Inr (handler, r) \<Rightarrow>
         let c = c\<lparr>cx_parser := (cx_parser c)\<lparr>p_owner := r\<rparr>\<rparr> in
         (case handler of
            None \<Rightarrow> cx_set_status 404 c
          | Some h \<Rightarrow>
              if tk_method h AND method_value (rq_method r) = 0
              then reject_method stold (rq_method r) (tk_method h) c
              else run_ctrlr sv (tk_aop h) c))"

definition def_html :: "string \<Rightarrow> string \<Rightarrow> string" where
  "def_html title status =
     (let q = [CHR 0x22]; t = [CHR 0x09] in
      ''<!DOCTYPE html><html><head>'' @ t @ ''<meta charset='' @ q @ ''utf-8'' @ q @ ''>'' @
      t @ ''<title>'' @ title @ ''</title></head><body>'' @ t @ ''<h1>'' @ title @ ''</h1>'' @ status @
      t @ ''<p>[ This is the server'' @ [CHR 0x27] @ ''s default reply ]</p>'' @
      t @ ''<p>-----------------------------------------------</p>'' @
      t @ ''<p>This is an open source C++ (ASIO) server.</p>'' @
      t @ ''<a href='' @ q @ ''https://gitee.com/jin-xiaoqiang/libgs.git'' @ q @ '' target='' @ q @ ''_blank'' @ q @ ''>'' @
      t @ t @ ''Source code repository (Gitee)'' @ t @ ''</a></body></html>'')"

definition default_page :: "status \<Rightarrow> string res" where
  "default_page status =
     (if status = 200 then Inr (def_html ''Welcome to LIBGS'' [])
      else res_bind (status_description status) (\<lambda>sd.
        Inr (def_html ''LIBGS'' (''<h2>'' @ sd @ '' ('' @ to_string status @ '')</h2>''))))"

definition call_on_default :: "stold_fn \<Rightarrow> server \<Rightarrow> unit effect" where
  "call_on_default stold sv =
     eff_catch
       (eff_bind (case sv_default sv of None \<Rightarrow> eff_return () | Some f \<Rightarrow> f) (\<lambda>_ c.
          if sv_default sv \<noteq> None \<and> response_finished c then (Inr (), c)
          else case default_page (rh_status (cx_response c)) of
            Inl e \<Rightarrow> (Inl e, c)
          | Inr body \<Rightarrow> eff_bind (cx_set_header ''Content-Type'' ''text/html'') (\<lambda>_. cx_write stold body) c))
       (call_on_service_error sv)"

text \<open>What follows a request: the connection is kept, closed, or the process is killed.\<close>

datatype served = Keep request_parser | Close | Killed exn

definition serve_request :: "stold_fn \<Rightarrow> server \<Rightarrow> request_parser \<Rightarrow> served \<times> string" where
  "serve_request stold sv p =
     (case eff_bind (call_on_request stold sv)
             (\<lambda>_ c. if \<not> response_finished c then call_on_default stold sv c else (Inr (), c)) (new_context p) of
        (Inl e, c) \<Rightarrow> (Killed e, cx_out c)
      | (Inr _, c) \<Rightarrow>
          (if \<not> rq_keep_alive (p_owner (cx_parser c)) \<or> sv_keepalive sv = 0 then Close
           else Keep (request_reset (cx_parser c)), cx_out c))"

section \<open>Serving a connection\<close>

datatype read_event = Read_bytes string | Read_timeout | Read_error nat

definition errc_closed :: "nat set" where
  "errc_closed = {9, 2, 110}"

text \<open>An error of the read, or one the parser throws as such: serve nevertheless, or end.\<close>

definition on_read_error :: "server \<Rightarrow> nat \<Rightarrow> served option" where
  "on_read_error sv eno =
     (if eno \<in> errc_closed then Some Close
      else case sv_server_error sv of
             Some f \<Rightarrow> if f eno then None else Some (Killed (System_error eno))
           | None \<Rightarrow> Some (Killed (System_error eno)))"

text \<open>One round up to the request: how the connection ends, or the parser that is served.\<close>

definition read_step :: "stold_fn \<Rightarrow> server \<Rightarrow> request_parser \<Rightarrow> read_event \<Rightarrow> served + request_parser" where
  "read_step stold sv p e =
     (case e of
        Read_timeout \<Rightarrow> Inl Close
      | Read_error eno \<Rightarrow> (case on_read_error sv eno of None \<Rightarrow> Inr p | Some fin \<Rightarrow> Inl fin)
      | Read_bytes buf \<Rightarrow>
          if buf = [] then Inl Close
          else (case request_append stold buf p of
                  Inl (System_error eno) \<Rightarrow> (case on_read_error sv eno of None \<Rightarrow> Inr p | Some fin \<Rightarrow> Inl fin)
                | Inl ex \<Rightarrow> Inl (Killed ex)
                | Inr (_, error, p) \<Rightarrow> if error \<noteq> None then Inl Close else Inr p))"

text \<open>The end of the connection, or \<^const>\<open>None\<close> while it waits for more, and what was written.\<close>

fun do_tcp_service ::
    "stold_fn \<Rightarrow> server \<Rightarrow> request_parser \<Rightarrow> read_event list \<Rightarrow> served option \<times> string" where
  "do_tcp_service stold sv p [] = (None, [])"
| "do_tcp_service stold sv p (e # es) =
     (case read_step stold sv p e of
        Inl fin \<Rightarrow> (Some fin, [])
      | Inr p \<Rightarrow>
          (case serve_request stold sv p of
             (Keep p, out) \<Rightarrow> (case do_tcp_service stold sv p es of (fin, rest) \<Rightarrow> (fin, out @ rest))
           | (fin, out) \<Rightarrow> (Some fin, out)))"

section \<open>The best route\<close>

text \<open>The weight of a match depends on the rule and the path only.\<close>

definition match_weight :: "string \<Rightarrow> string \<Rightarrow> int res" where
  "match_weight rule path = res_bind (path_match rule (new_request\<lparr>rq_path := path\<rparr>)) (\<lambda>(w, r). Inr w)"

lemma path_match_same_path:
  "rq_path r' = rq_path r \<Longrightarrow>
   path_match rule r' =
   (case path_match rule r of
      Inl e \<Rightarrow> Inl e
    | Inr (w, q) \<Rightarrow> Inr (w, if w < 0 then r' else r'\<lparr>rq_path_args := rq_path_args q\<rparr>))"
  by (simp add: path_match_def Let_def res_bind_def split: sum.splits prod.splits)

lemma path_match_weight:
  assumes "match_weight rule (rq_path r) = Inr w"
  shows "\<exists>args. path_match rule r = Inr (w, r\<lparr>rq_path_args := args\<rparr>)"
proof -
  obtain q where "path_match rule (new_request\<lparr>rq_path := rq_path r\<rparr>) = Inr (w, q)"
    using assms by (auto simp: match_weight_def res_bind_Inr)
  then have "path_match rule r = Inr (w, if w < 0 then r else r\<lparr>rq_path_args := rq_path_args q\<rparr>)"
    using path_match_same_path [of r "new_request\<lparr>rq_path := rq_path r\<rparr>" rule] by simp
  then show ?thesis by (cases r) auto
qed

text \<open>
  The first route without any wildcard on the way, else the last of those with the least
  positive weight.
\<close>

definition best_route :: "(int \<times> 'a) list \<Rightarrow> 'a option" where
  "best_route ws =
     (case find (\<lambda>x. fst x = 0) ws of
        Some x \<Rightarrow> Some (snd x)
      | None \<Rightarrow>
          let pos = filter (\<lambda>x. 0 < fst x) ws in
          if pos = [] then None else Some (snd (last (filter (\<lambda>x. fst x = Min (fst ` set pos)) pos))))"

definition take_better :: "'a option \<times> int \<Rightarrow> int \<times> 'a \<Rightarrow> 'a option \<times> int" where
  "take_better st x = (if 0 < fst x \<and> fst x \<le> snd st then (Some (snd x), fst x) else st)"

lemma route_loop_fold:
  "(\<And>rule h. (rule, h) \<in> set routes \<Longrightarrow> match_weight rule (rq_path r) = Inr (wt rule)) \<Longrightarrow> rq_path r \<noteq> [] \<Longrightarrow>
   \<exists>args. route_loop routes handler weight r =
     Inr (case find (\<lambda>x. fst x = 0) (map (\<lambda>(rule, h). (wt rule, h)) routes) of
            Some x \<Rightarrow> Some (snd x)
          | None \<Rightarrow> fst (foldl take_better (handler, weight) (map (\<lambda>(rule, h). (wt rule, h)) routes)),
          r\<lparr>rq_path_args := args\<rparr>)"
proof (induction routes arbitrary: handler weight r)
  case Nil
  then show ?case by (cases r) auto
next
  case (Cons x routes)
  obtain rule h where x: "x = (rule, h)" by (cases x)
  obtain args where m: "path_match rule r = Inr (wt rule, r\<lparr>rq_path_args := args\<rparr>)"
    using path_match_weight [of rule r "wt rule"] Cons.prems(1) [of rule h] x by auto
  show ?case
  proof (cases "wt rule = 0")
    case True
    then show ?thesis using m x by auto
  next
    case False
    let ?r = "r\<lparr>rq_path_args := args\<rparr>"
    have IH: "\<exists>args'. route_loop routes handler' weight' ?r =
       Inr (case find (\<lambda>x. fst x = 0) (map (\<lambda>(rule, h). (wt rule, h)) routes) of
              Some x \<Rightarrow> Some (snd x)
            | None \<Rightarrow> fst (foldl take_better (handler', weight') (map (\<lambda>(rule, h). (wt rule, h)) routes)),
            ?r\<lparr>rq_path_args := args'\<rparr>)" for handler' weight'
      using Cons.prems by (intro Cons.IH) auto
    let ?ws = "map (\<lambda>(rule, h). (wt rule, h)) routes"
    define best where "best = take_better (handler, weight) (wt rule, h)"
    have next_one: "route_loop (x # routes) handler weight r = route_loop routes (fst best) (snd best) ?r"
      using m x False Cons.prems(2) by (auto simp: best_def take_better_def)
    have all: "(case find (\<lambda>x. fst x = 0) (map (\<lambda>(rule, h). (wt rule, h)) (x # routes)) of
        Some x \<Rightarrow> Some (snd x)
      | None \<Rightarrow> fst (foldl take_better (handler, weight) (map (\<lambda>(rule, h). (wt rule, h)) (x # routes)))) =
      (case find (\<lambda>x. fst x = 0) ?ws of Some x \<Rightarrow> Some (snd x) | None \<Rightarrow> fst (foldl take_better best ?ws))"
      using False by (simp add: best_def x split: option.split)
    show ?thesis using IH [of "fst best" "snd best", unfolded prod.collapse] unfolding next_one all by simp
  qed
qed

lemma foldl_take_better:
  assumes "\<forall>x \<in> set ws. fst x \<noteq> 0 \<and> fst x \<le> M"
  shows "foldl take_better (None, M) ws =
    (let pos = filter (\<lambda>x. 0 < fst x) ws in
     if pos = [] then (None, M)
     else (Some (snd (last (filter (\<lambda>x. fst x = Min (fst ` set pos)) pos))), Min (fst ` set pos)))"
  using assms
proof (induction ws rule: rev_induct)
  case (snoc x ws)
  let ?pos = "filter (\<lambda>x. 0 < fst x) ws"
  have IH: "foldl take_better (None, M) ws =
      (if ?pos = [] then (None, M)
       else (Some (snd (last (filter (\<lambda>x. fst x = Min (fst ` set ?pos)) ?pos))), Min (fst ` set ?pos)))"
    using snoc by (simp add: Let_def)
  have step: "foldl take_better (None, M) (ws @ [x]) =
      (if 0 < fst x \<and> fst x \<le> snd (foldl take_better (None, M) ws) then (Some (snd x), fst x)
       else foldl take_better (None, M) ws)"
    by (simp add: take_better_def)
  show ?case
  proof (cases "0 < fst x")
    case False
    then show ?thesis using IH by (simp add: step Let_def del: foldl_append)
  next
    case True
    show ?thesis
    proof (cases "?pos = []")
      case empty: True
      then show ?thesis using IH True snoc.prems by (simp add: step Let_def del: foldl_append)
    next
      case False
      let ?m = "Min (fst ` set ?pos)"
      have "fst ` set (?pos @ [x]) = insert (fst x) (fst ` set ?pos)" by (simp del: set_filter)
      moreover have "fst ` set ?pos \<noteq> {}" using False by (simp only: image_is_empty set_empty not_False_eq_True)
      ultimately have min: "Min (fst ` set (?pos @ [x])) = min (fst x) ?m"
        by (simp only: Min_insert finite_imageI List.finite_set not_False_eq_True)
      show ?thesis
      proof (cases "fst x \<le> ?m")
        case le: True
        then have "min (fst x) ?m = fst x" by simp
        then show ?thesis using IH True False le min by (simp add: step Let_def del: foldl_append)
      next
        case gt: False
        then have "min (fst x) ?m = ?m" by simp
        then show ?thesis using IH True False gt min by (simp add: step Let_def del: foldl_append)
      qed
    qed
  qed
qed simp

lemma best_route_selected:
  assumes "\<And>rule h. (rule, h) \<in> set (sv_routes sv) \<Longrightarrow> match_weight rule (rq_path r) = Inr (wt rule) \<and> wt rule < 2 ^ 31"
    and "rq_path r \<noteq> []"
  shows "\<exists>args. select_route sv r =
    Inr (best_route (map (\<lambda>(rule, h). (wt rule, h)) (sv_routes sv)), r\<lparr>rq_path_args := args\<rparr>)"
proof -
  let ?ws = "map (\<lambda>(rule, h). (wt rule, h)) (sv_routes sv)"
  obtain args where loop: "select_route sv r =
      Inr (case find (\<lambda>x. fst x = 0) ?ws of
             Some x \<Rightarrow> Some (snd x)
           | None \<Rightarrow> fst (foldl take_better (None, 2 ^ 31 - 1) ?ws), r\<lparr>rq_path_args := args\<rparr>)"
    using route_loop_fold [of "sv_routes sv" r wt None "2 ^ 31 - 1"] assms unfolding select_route_def by blast
  have "fst (foldl take_better (None, 2 ^ 31 - 1) ?ws) = best_route ?ws" if none: "find (\<lambda>x. fst x = 0) ?ws = None"
  proof -
    have "\<forall>x \<in> set ?ws. fst x \<noteq> 0" using none by (simp add: find_None_iff)
    moreover have "\<forall>x \<in> set ?ws. fst x \<le> 2 ^ 31 - 1" using assms(1) by fastforce
    ultimately show ?thesis
      using foldl_take_better [of ?ws "2 ^ 31 - 1"] none by (simp add: best_route_def Let_def)
  qed
  then show ?thesis using loop by (auto simp: best_route_def split: option.splits)
qed

section \<open>Properties\<close>

text \<open>C7.
  Which route serves a path: the first rule, in the order of the rules, that matches without
  a wildcard, and if there is none the last of those with the least weight; no route when
  no rule matches. It does not depend on what the request contains beside its path.
\<close>

theorem route_choice:
  assumes "\<And>rule h. (rule, h) \<in> set (sv_routes sv) \<Longrightarrow> match_weight rule (rq_path r) = Inr (wt rule) \<and> wt rule < 2 ^ 31"
    and "rq_path r \<noteq> []"
  shows "\<exists>args. select_route sv r =
    Inr (best_route (map (\<lambda>(rule, h). (wt rule, h)) (sv_routes sv)), r\<lparr>rq_path_args := args\<rparr>)"
  by (rule best_route_selected [OF assms])

text \<open>
  Two rules that both match with wildcards: the first is the better one and its handler is
  chosen, but the loop goes on and the second leaves its arguments in the request.
\<close>

lemma two_routes:
  assumes "path_match rule1 r = Inr (w1, r1)" "path_match rule2 r1 = Inr (w2, r2)" "0 < w1" "w1 < w2" "w1 < 2 ^ 31 - 1"
  shows "route_loop [(rule1, h1), (rule2, h2)] None (2 ^ 31 - 1) r = Inr (Some h1, r2)"
  using assms by simp

text \<open>A rule of segments without braces in front of one argument.\<close>

lemma rule_with_arg:
  assumes "split_char rule (CHR ''/'') = [lit, brace key]" "rule \<noteq> ''/''" "plain_key key" "\<not> braced lit"
    and "split_char (rq_path r) (CHR ''/'') = [a, b]" "length rule + length lit + length key < 2 ^ 31" "length a + length b < 2 ^ 31"
  shows "path_match rule r =
    (if wildcard_match lit a < 0 then Inr (- 1, r) else Inr (wildcard_match lit a, r\<lparr>rq_path_args := [(key, b)]\<rparr>))"
proof -
  have segs: "rule_segments rule = [lit] @ map brace [key]" "path_segments (rq_path r) = [a, b]"
    using assms(1,2,5) by (simp_all add: rule_segments_def path_segments_def)
  have "length (concat (map (\<lambda>s. s @ ''/'') ([lit] @ map brace [key]))) < 2 ^ 64"
    "length (concat (map (\<lambda>s. s @ ''/'') (path_segments (rq_path r)))) < 2 ^ 64"
    using assms(6,7) by (simp_all add: segs brace_def)
  from path_match_args [OF segs(1) _ _ this] show ?thesis
    using assms(3,4) by (simp add: segs(2))
qed

text \<open>
  The arguments a handler sees can be those of another rule: for the path \<^verbatim>\<open>/abc/7\<close> the rule
  \<^verbatim>\<open>/?bc/{id}\<close> is chosen, and the request has the argument of \<^verbatim>\<open>/a*/{other}\<close>, which matches
  with a greater weight and comes later.
\<close>

theorem route_args_of_other_rule:
  "select_route (new_server\<lparr>sv_routes := [(''/?bc/{id}'', h1), (''/a*/{other}'', h2)]\<rparr>) (new_request\<lparr>rq_path := ''/abc/7''\<rparr>) =
     Inr (Some h1, new_request\<lparr>rq_path := ''/abc/7'', rq_path_args := [(''other'', ''7'')]\<rparr>)"
proof -
  have segs: "split_char ''/?bc/{id}'' (CHR ''/'') = [''?bc'', brace ''id'']"
    "split_char ''/a*/{other}'' (CHR ''/'') = [''a*'', brace ''other'']"
    "split_char ''/abc/7'' (CHR ''/'') = [''abc'', ''7'']"
    unfolding split_char_pieces by code_simp+
  have keys: "plain_key ''id''" "plain_key ''other''" by (simp_all add: plain_key_def)
  have lits: "\<not> braced ''?bc''" "\<not> braced ''a*''" by (simp_all add: braced_def starts_with_def)
  have w: "wildcard_match ''?bc'' ''abc'' = 3" "wildcard_match ''a*'' ''abc'' = 6" by code_simp+
  let ?r = "new_request\<lparr>rq_path := ''/abc/7''\<rparr>"
  have "path_match ''/?bc/{id}'' ?r = Inr (3, ?r\<lparr>rq_path_args := [(''id'', ''7'')]\<rparr>)"
    using rule_with_arg [OF segs(1) _ keys(1) lits(1), of ?r "''abc''" "''7''"] segs(3) w(1) by simp
  moreover have "path_match ''/a*/{other}'' (?r\<lparr>rq_path_args := [(''id'', ''7'')]\<rparr>) =
      Inr (6, ?r\<lparr>rq_path_args := [(''other'', ''7'')]\<rparr>)"
    using rule_with_arg [OF segs(2) _ keys(2) lits(2), of "?r\<lparr>rq_path_args := [(''id'', ''7'')]\<rparr>" "''abc''" "''7''"] segs(3) w(2)
    by simp
  ultimately show ?thesis by (simp add: select_route_def two_routes)
qed

section \<open>From the client to the handler\<close>

lemma glob_self: "CHR ''*'' \<notin> set s \<Longrightarrow> glob s s"
  by (induction s) auto

lemma weight_self:
  assumes "CHR ''*'' \<notin> set s" "CHR ''?'' \<notin> set s"
  shows "wildcard_match s s = 0"
  using wildcard_match_weight [OF assms(1), of s] glob_self [OF assms(1)] assms
  by (simp add: rule_weight_def count_list_0_iff)

lemma split_plain:
  assumes "c \<noteq> CHR ''/''" "\<not> is_blank c"
  shows "split_char (CHR ''/'' # c # s) (CHR ''/'') \<noteq> []"
proof -
  obtain a b where ab: "s @ ''/'' = a @ CHR ''/'' # b" "CHR ''/'' \<notin> set a"
    using split_list_first [of "CHR ''/''" "s @ ''/''"] by auto
  have cut: "pieces ''/'' (u @ CHR ''/'' # v) = u # pieces ''/'' v" if "CHR ''/'' \<notin> set u" for u v
    using that by (simp add: pieces.simps [of "[CHR ''/'']" "u @ _"] find_sub_single)
  have "pieces ''/'' (CHR ''/'' # c # s @ ''/'') = [] # (c # a) # pieces ''/'' b"
    using cut [of "[]"] cut [of "c # a" b] ab assms(1) by simp
  moreover have "kept True (c # a)" using trim_nonblank [of c "c # a"] assms(2) by (simp add: kept_def)
  ultimately show ?thesis by (simp add: split_char_pieces)
qed

text \<open>The segments of a path are no longer than the path, and contain only its characters.\<close>

lemma segments_small:
  "length (concat (map (\<lambda>s. s @ ''/'') (split_char path (CHR ''/'')))) \<le> length path + 1"
  "a \<in> set (split_char path (CHR ''/'')) \<Longrightarrow> set a \<subseteq> set path"
proof -
  let ?l = "pieces ''/'' (path @ ''/'')"
  have l: "?l \<noteq> []" "intercalate ''/'' ?l = path" using pieces_single by auto
  have filter_less: "length (concat (map (\<lambda>s. s @ ''/'') (filter P l))) \<le> length (concat (map (\<lambda>s. s @ ''/'') l))" for P l
    by (induction l) auto
  have all: "l \<noteq> [] \<Longrightarrow> length (concat (map (\<lambda>s. s @ ''/'') l)) = length (intercalate ''/'' l) + 1" for l
    by (induction l rule: induct_list012) auto
  show "length (concat (map (\<lambda>s. s @ ''/'') (split_char path (CHR ''/'')))) \<le> length path + 1"
    using filter_less [of "kept True" ?l] all [OF l(1)] l(2) by (simp add: split_char_pieces)
  have sub: "a \<in> set l \<Longrightarrow> set a \<subseteq> set (intercalate ''/'' l)" for l
    by (induction l rule: induct_list012) auto
  show "a \<in> set (split_char path (CHR ''/'')) \<Longrightarrow> set a \<subseteq> set path"
    using sub [of ?l] l(2) by (auto simp: split_char_pieces split: if_splits)
qed

definition plain_path :: "string \<Rightarrow> bool" where
  "plain_path path \<longleftrightarrow> length path < 2 ^ 63 \<and>
     list_all (\<lambda>c. c \<notin> {CHR ''*'', CHR ''?'', CHR ''{'', CHR ''}''} \<and> \<not> is_blank c) path"

lemma no_segments: "split_char ''/'' (CHR ''/'') = []"
  unfolding split_char_pieces by code_simp

lemma own_segments:
  assumes "normal_path path" "plain_path path"
  shows "rule_segments path = path_segments path" "path_segments path \<noteq> []"
    "list_all (\<lambda>a. set a \<subseteq> set path) (path_segments path)"
    "length (concat (map (\<lambda>s. s @ ''/'') (path_segments path))) < 2 ^ 64"
proof -
  obtain t where t: "path = CHR ''/'' # t"
    using assms(1) by (cases path) (auto simp: normal_path_def starts_with_def)
  have "split_char path (CHR ''/'') \<noteq> []" if t_ne: "t \<noteq> []"
  proof -
    obtain c u where u: "t = c # u" using t_ne by (cases t) auto
    moreover have "c \<noteq> CHR ''/''" using assms(1) by (auto simp: normal_path_def find_double_Cons starts_with_def t u)
    ultimately show ?thesis using split_plain [of c u] assms(2) by (simp add: t plain_path_def)
  qed
  then have segs: "path_segments path = (if t = [] then [''/''] else split_char path (CHR ''/''))"
    by (auto simp: t path_segments_def no_segments)
  show "rule_segments path = path_segments path" using segs by (auto simp: rule_segments_def t)
  show "path_segments path \<noteq> []" by (auto simp: path_segments_def Let_def)
  show "list_all (\<lambda>a. set a \<subseteq> set path) (path_segments path)"
    unfolding segs list_all_iff using segments_small(2) [of _ path] by (cases "t = []") (simp_all add: t)
  show "length (concat (map (\<lambda>s. s @ ''/'') (path_segments path))) < 2 ^ 64"
    unfolding segs using segments_small(1) [of path] assms(2) by (cases "t = []") (simp_all add: plain_path_def)
qed

lemma set_intercalate: "set (intercalate sep l) \<subseteq> set sep \<union> \<Union> (set ` set l)"
  by (induction l rule: induct_list012) auto

lemma own_rule:
  assumes "normal_path (rq_path r)" "plain_path (rq_path r)"
  shows "path_match (rq_path r) r = Inr (0, r\<lparr>rq_path_args := []\<rparr>)"
proof -
  let ?segs = "path_segments (rq_path r)"
  note own = own_segments [OF assms]
  have "set (last ?segs) \<subseteq> set (rq_path r)" using own(2,3) last_in_set by (auto simp: list_all_iff)
  then have "\<not> braced (last ?segs)"
    using assms(2) by (cases "last ?segs") (auto simp: braced_def starts_with_def plain_path_def list_all_iff)
  moreover have "set (intercalate ''/'' ?segs) \<subseteq> insert (CHR ''/'') (set (rq_path r))"
    using set_intercalate [of "''/''" ?segs] own(3) by (force simp: list_all_iff)
  then have "wildcard_match (intercalate ''/'' ?segs) (intercalate ''/'' ?segs) = 0"
    using assms(2) by (intro weight_self) (auto simp: plain_path_def list_all_iff)
  ultimately show ?thesis
    using path_match_args [of "rq_path r" ?segs "[]" r] own by simp
qed

lemma route_loop_own:
  assumes "normal_path (rq_path r)" "plain_path (rq_path r)"
  shows "\<forall>rule \<in> fst ` set routes. match_weight rule (rq_path r) = Inr (wt rule) \<and> (wt rule = 0 \<longrightarrow> rule = rq_path r) \<Longrightarrow>
    map_of routes (rq_path r) = Some rt \<Longrightarrow>
    route_loop routes handler weight r = Inr (Some rt, r\<lparr>rq_path_args := []\<rparr>)"
  using assms
proof (induction routes arbitrary: handler weight r)
  case (Cons x routes)
  obtain rule h where x: "x = (rule, h)" by (cases x)
  show ?case
  proof (cases "rule = rq_path r")
    case True
    then show ?thesis using own_rule [OF Cons.prems(3,4)] Cons.prems(2) x by simp
  next
    case False
    have w: "match_weight rule (rq_path r) = Inr (wt rule)" "wt rule \<noteq> 0"
      using Cons.prems(1) x False by auto
    from path_match_weight [OF w(1)] obtain args where m: "path_match rule r = Inr (wt rule, r\<lparr>rq_path_args := args\<rparr>)"
      by blast
    have "route_loop routes handler' weight' (r\<lparr>rq_path_args := args\<rparr>) =
        Inr (Some rt, (r\<lparr>rq_path_args := args\<rparr>)\<lparr>rq_path_args := []\<rparr>)" for handler' weight'
      using Cons.prems False x by (intro Cons.IH) auto
    then show ?thesis using m w(2) x by simp
  qed
qed simp

lemma append_nothing: "request_append stold [] p = Inr (False, Some IDE, p)"
  by (simp add: request_append_def parser_append_def)

lemma request_dispatched:
  assumes "good_request arg" "length body < 2 ^ 64" "plain_path (ra_path arg)"
    and "map_of (sv_routes sv) (ra_path arg) = Some rt" "tk_method rt AND method_value m \<noteq> 0"
    and "\<forall>rule \<in> fst ` set (sv_routes sv).
      match_weight rule (ra_path arg) = Inr (wt rule) \<and> (wt rule = 0 \<longrightarrow> rule = ra_path arg)"
  shows "\<exists>head h q c. request_header_data stold v11 (method_value m) (length body) arg new_helper = Inr (head, h) \<and>
    read_step stold sv new_request_parser (Read_bytes (head @ fst (body_data body h))) = Inr q \<and>
    call_on_request stold sv (new_context q) = run_ctrlr sv (tk_aop rt) c \<and>
    p_body (cx_parser c) = body \<and> is_finished (cx_parser c) \<and>
    p_owner (cx_parser c) = (p_owner q)\<lparr>rq_method := m, rq_path := ra_path arg, rq_parameters := ra_parameters arg,
      rq_cookies := ra_cookies arg, rq_path_args := []\<rparr> \<and>
    cx_response c = new_response v11 (p_headers q) \<and> cx_out c = []"
proof -
  from request_crosses [OF assms(1,2), of stold m] obtain head h q where
    print: "request_header_data stold v11 (method_value m) (length body) arg new_helper = Inr (head, h)" and
    read: "request_append stold (head @ fst (body_data body h)) new_request_parser = Inr (True, None, q)" and
    q: "is_finished q" "p_version q = v11" "p_body q = body" "rq_method (p_owner q) = m"
      "rq_path (p_owner q) = ra_path arg" "rq_parameters (p_owner q) = ra_parameters arg"
      "rq_cookies (p_owner q) = ra_cookies arg"
    by blast
  have "head @ fst (body_data body h) \<noteq> []" using read append_nothing by (metis Pair_inject sum.inject(2))
  then have step: "read_step stold sv new_request_parser (Read_bytes (head @ fst (body_data body h))) = Inr q"
    using read by (simp add: read_step_def)
  have "normal_path (rq_path (p_owner q))" "plain_path (rq_path (p_owner q))"
    using assms(1,3) q(5) by (simp_all add: good_request_def good_path_def)
  from route_loop_own [OF this, of "sv_routes sv" wt rt None "2 ^ 31 - 1"] assms(4,6) q(5)
  have selected: "select_route sv (p_owner q) = Inr (Some rt, (p_owner q)\<lparr>rq_path_args := []\<rparr>)"
    by (simp add: select_route_def)
  let ?c = "(new_context q)\<lparr>cx_parser := q\<lparr>p_owner := (p_owner q)\<lparr>rq_path_args := []\<rparr>\<rparr>\<rparr>"
  have "call_on_request stold sv (new_context q) = run_ctrlr sv (tk_aop rt) ?c"
    using selected assms(5) q(4) by (simp add: call_on_request_def new_context_def)
  moreover have "(p_owner q)\<lparr>rq_path_args := []\<rparr> = (p_owner q)\<lparr>rq_method := m, rq_path := ra_path arg,
      rq_parameters := ra_parameters arg, rq_cookies := ra_cookies arg, rq_path_args := []\<rparr>"
    using q(4-7) by (cases "p_owner q") simp
  ultimately show ?thesis using print step q(1-3)
    by (intro exI [of _ head] exI [of _ h] exI [of _ q] exI [of _ ?c])
      (simp add: new_context_def is_finished_def)
qed

text \<open>
  A request crosses from the client to the handler: what the client prints for a path without
  wildcards, read by the server in one piece, runs the controller registered for that path
  and method, and the controller sees the method, path, parameters, cookies and body that the
  client was given, no path arguments and a response that has not begun; whatever other rules
  there are, as long as none matches the path without a wildcard.
\<close>

theorem client_request_reaches_handler:
  assumes "good_request arg" "length body < 2 ^ 64" "plain_path (ra_path arg)"
    and "map_of (sv_routes sv) (ra_path arg) = Some rt" "tk_method rt AND method_value m \<noteq> 0"
    and "\<forall>rule \<in> fst ` set (sv_routes sv).
      match_weight rule (ra_path arg) = Inr (wt rule) \<and> (wt rule = 0 \<longrightarrow> rule = ra_path arg)"
  shows "\<exists>head h q c. request_header_data stold v11 (method_value m) (length body) arg new_helper = Inr (head, h) \<and>
    read_step stold sv new_request_parser (Read_bytes (head @ fst (body_data body h))) = Inr q \<and>
    call_on_request stold sv (new_context q) = run_ctrlr sv (tk_aop rt) c \<and>
    p_body (cx_parser c) = body \<and> is_finished (cx_parser c) \<and>
    p_owner (cx_parser c) = (p_owner q)\<lparr>rq_method := m, rq_path := ra_path arg, rq_parameters := ra_parameters arg,
      rq_cookies := ra_cookies arg, rq_path_args := []\<rparr> \<and>
    cx_response c = new_response v11 (p_headers q) \<and> cx_out c = []"
  by (rule request_dispatched [OF assms])

text \<open>Two routes for the path \<^verbatim>\<open>/a/b\<close>, the first with a wildcard.\<close>

definition idle_route :: "http_method \<Rightarrow> route" where
  "idle_route m = \<lparr>tk_method = method_value m, tk_aop = multi_ctrlr_aop (eff_return ()) []\<rparr>"

definition two_routes_server :: server where
  "two_routes_server = new_server\<lparr>sv_routes := [(''/?/{x}'', idle_route GET), (''/a/b'', idle_route POST)]\<rparr>"

definition own_weight :: "string \<Rightarrow> int" where
  "own_weight rule = (if rule = ''/a/b'' then 0 else 1)"

lemma own_path: "normal_path ''/a/b''" "plain_path ''/a/b''"
  by (simp_all add: normal_path_def plain_path_def starts_with_def ends_with_def is_blank_def schar_def uchar_def)

lemma two_routes_weights:
  assumes "(rule, h) \<in> set (sv_routes two_routes_server)"
  shows "match_weight rule ''/a/b'' = Inr (own_weight rule) \<and> own_weight rule < 2 ^ 31 \<and>
    (own_weight rule = 0 \<longrightarrow> rule = ''/a/b'')"
proof -
  have segs: "split_char ''/?/{x}'' (CHR ''/'') = [''?'', brace ''x'']" "split_char ''/a/b'' (CHR ''/'') = [''a'', ''b'']"
    unfolding split_char_pieces by code_simp+
  have "plain_key ''x''" "\<not> braced ''?''" by (simp_all add: plain_key_def braced_def starts_with_def)
  moreover have "wildcard_match ''?'' ''a'' = 1" by code_simp
  ultimately have "match_weight ''/?/{x}'' ''/a/b'' = Inr 1"
    using rule_with_arg [OF segs(1), of "new_request\<lparr>rq_path := ''/a/b''\<rparr>"] segs(2)
    by (simp add: match_weight_def)
  moreover have "match_weight ''/a/b'' ''/a/b'' = Inr 0"
    using own_rule [of "new_request\<lparr>rq_path := ''/a/b''\<rparr>"] own_path by (simp add: match_weight_def)
  ultimately show ?thesis using assms by (auto simp: two_routes_server_def own_weight_def)
qed

definition sample_arg :: request_arg where
  "sample_arg = \<lparr>ra_path = ''/a/b'', ra_parameters = [(''q'', ''x y'')], ra_headers = [(''Host'', ''h'')],
     ra_cookies = [(''id'', ''7'')]\<rparr>"

lemma sample_arg_good: "good_request sample_arg" "ra_path sample_arg = ''/a/b''"
proof -
  have "str_to_lower ''Host'' = ''host''" by code_simp
  then show "good_request sample_arg"
    using own_path(1)
    by (simp add: sample_arg_def good_request_def good_path_def map_inv_Cons good_parameter_def good_cookie_def
        plain_header_def good_header_def trim_id is_blank_def schar_def uchar_def)
qed (simp add: sample_arg_def)

theorem client_request_reaches_handler_witness:
  "\<exists>head h q c. request_header_data (\<lambda>s. Inl Invalid_argument) v11 (method_value POST) (length ''hello'')
      sample_arg new_helper = Inr (head, h) \<and>
    read_step (\<lambda>s. Inl Invalid_argument) two_routes_server new_request_parser
      (Read_bytes (head @ fst (body_data ''hello'' h))) = Inr q \<and>
    call_on_request (\<lambda>s. Inl Invalid_argument) two_routes_server (new_context q) =
      run_ctrlr two_routes_server (tk_aop (idle_route POST)) c \<and>
    p_body (cx_parser c) = ''hello''"
proof -
  have path: "plain_path (ra_path sample_arg)" and small: "length ''hello'' < 2 ^ 64"
    using own_path(2) sample_arg_good(2) by simp_all
  have route: "map_of (sv_routes two_routes_server) (ra_path sample_arg) = Some (idle_route POST)"
    by (simp add: two_routes_server_def sample_arg_good(2))
  have tk: "tk_method (idle_route POST) AND method_value POST \<noteq> 0"
    unfolding idle_route_def by code_simp
  have weights: "\<forall>rule \<in> fst ` set (sv_routes two_routes_server).
      match_weight rule (ra_path sample_arg) = Inr (own_weight rule) \<and>
      (own_weight rule = 0 \<longrightarrow> rule = ra_path sample_arg)"
    using two_routes_weights by (auto simp: sample_arg_good(2))
  from client_request_reaches_handler [where stold = "\<lambda>s. Inl Invalid_argument",
      OF sample_arg_good(1) small path route tk weights]
  show ?thesis by blast
qed

theorem route_choice_witness:
  "\<exists>args. select_route two_routes_server (new_request\<lparr>rq_path := ''/a/b''\<rparr>) =
    Inr (Some (idle_route POST), new_request\<lparr>rq_path := ''/a/b'', rq_path_args := args\<rparr>)"
proof -
  have weights: "(rule, h) \<in> set (sv_routes two_routes_server) \<Longrightarrow>
      match_weight rule (rq_path (new_request\<lparr>rq_path := ''/a/b''\<rparr>)) = Inr (own_weight rule) \<and>
      own_weight rule < 2 ^ 31" for rule h
    using two_routes_weights by simp
  from route_choice [of two_routes_server "new_request\<lparr>rq_path := ''/a/b''\<rparr>" own_weight, OF weights]
  show ?thesis by (simp add: two_routes_server_def best_route_def own_weight_def)
qed

section \<open>Fragments of a head\<close>

text \<open>
  The service ignores that the parser wants more: what has been read of a request line is
  served as it is.
\<close>

lemma fragment_read:
  assumes "s \<noteq> []" "find_sub CRLF s = None" "length s < 1024" "awaits_request p"
  shows "request_append stold s p = Inr (False, None, derive_attributes (p\<lparr>p_src := s\<rparr>))"
  using assms
  by (simp add: request_append_def parser_append_def parse_header_def awaits_request_def head_loop.simps Let_def res_bind_def)

lemma kept_is_reset: "serve_request stold sv q = (Keep p, out) \<Longrightarrow> \<exists>c :: service_ctx. p = request_reset (cx_parser c)"
  by (auto simp: serve_request_def split: prod.splits sum.splits if_splits)

text \<open>C25.
  A request whose first line arrives in two pieces is lost, on a new connection or a kept one,
  with any server: the first piece, if it has no line break, is served as a complete request
  with an empty path and no parameters, cookies, headers or body, whatever the piece is; and if
  the connection is kept, the parser has forgotten it, so that the second piece is read as the
  beginning of another request.
\<close>

theorem fragment_lost:
  assumes "s \<noteq> []" "find_sub CRLF s = None" "length s < 1024" "awaits_request p" "rq_path (p_owner p) = []"
  shows "\<exists>q. do_tcp_service stold sv p (Read_bytes s # es) =
      (case serve_request stold sv q of
         (Keep p', out) \<Rightarrow> (case do_tcp_service stold sv p' es of (fin, rest) \<Rightarrow> (fin, out @ rest))
       | (fin, out) \<Rightarrow> (Some fin, out)) \<and>
    rq_path (p_owner q) = [] \<and> rq_parameters (p_owner q) = [] \<and> rq_cookies (p_owner q) = [] \<and>
    p_headers q = [] \<and> p_body q = [] \<and> \<not> is_finished q \<and>
    (\<forall>p' out. serve_request stold sv q = (Keep p', out) \<longrightarrow>
       p_state p' = Waiting_request \<and> p_src p' = [] \<and> p_headers p' = [] \<and> rq_path (p_owner p') = [])"
proof (intro exI [of _ "derive_attributes (p\<lparr>p_src := s\<rparr>)"] conjI allI impI, goal_cases)
  case 1
  show ?case using fragment_read [OF assms(1-4)] assms(1) by (simp add: read_step_def)
next
  case (8 p' out)
  then show ?case using kept_is_reset [OF 8] by (auto simp: request_reset_def reset_def Let_def)
next
  case (9 p' out)
  then show ?case using kept_is_reset [OF 9] by (auto simp: request_reset_def reset_def Let_def)
next
  case (10 p' out)
  then show ?case using kept_is_reset [OF 10] by (auto simp: request_reset_def reset_def Let_def)
next
  case (11 p' out)
  then show ?case using kept_is_reset [OF 11] by (auto simp: request_reset_def reset_def Let_def)
qed (use assms(4,5) in \<open>simp_all add: derive_attributes_def awaits_request_def is_finished_def Let_def\<close>)

theorem fragment_lost_witness:
  "\<exists>q. snd (do_tcp_service (\<lambda>s. Inl Invalid_argument) new_server new_request_parser [Read_bytes ''GET / HTT'']) =
      snd (serve_request (\<lambda>s. Inl Invalid_argument) new_server q) \<and> rq_path (p_owner q) = [] \<and> \<not> is_finished q"
proof -
  have "find_sub CRLF ''GET / HTT'' = None" by (simp add: CRLF_def starts_with_def)
  moreover have "rq_path (p_owner new_request_parser) = []"
    by (simp add: new_request_parser_def new_parser_def on_parse_begin_def on_parse_cookie_def new_request_def)
  ultimately obtain q where q: "do_tcp_service (\<lambda>s. Inl Invalid_argument) new_server new_request_parser [Read_bytes ''GET / HTT''] =
      (case serve_request (\<lambda>s. Inl Invalid_argument) new_server q of
         (Keep p', out) \<Rightarrow> (case do_tcp_service (\<lambda>s. Inl Invalid_argument) new_server p' [] of (fin, rest) \<Rightarrow> (fin, out @ rest))
       | (fin, out) \<Rightarrow> (Some fin, out))" "rq_path (p_owner q) = []" "\<not> is_finished q"
    using fragment_lost [of "''GET / HTT''" new_request_parser "\<lambda>s. Inl Invalid_argument" new_server "[]"] by auto
  then have "snd (do_tcp_service (\<lambda>s. Inl Invalid_argument) new_server new_request_parser [Read_bytes ''GET / HTT'']) =
      snd (serve_request (\<lambda>s. Inl Invalid_argument) new_server q)"
    unfolding q(1) by (simp split: prod.split served.split)
  with q(2,3) show ?thesis by blast
qed

section \<open>Registering routes\<close>

definition routes_ok :: "server \<Rightarrow> bool" where
  "routes_ok sv \<longleftrightarrow> sorted_keys (sv_routes sv) \<and>
     (\<forall>rule \<in> fst ` set (sv_routes sv). starts_with ''/'' rule \<and> find_sub ''//'' rule = None)"

lemma rule_path_checked: "starts_with ''/'' (rule_path_check str) \<and> find_sub ''//'' (rule_path_check str) = None"
proof (cases "starts_with ''/'' str")
  case False
  then have "rule_path_check str = CHR ''/'' # unique_slashes str" "\<not> starts_with ''/'' (unique_slashes str)"
    by (simp_all add: rule_path_check_def)
  then show ?thesis using unique_slashes_none [of str]
    by (cases "unique_slashes str") (simp_all add: find_double_Cons starts_with_def)
qed (simp add: rule_path_check_def unique_slashes_none)

lemma routes_ok_put:
  "routes_ok sv \<Longrightarrow> routes_ok (sv\<lparr>sv_routes := map_put (sv_routes sv) (rule_path_check path) rt\<rparr>)"
  using rule_path_checked [of path] by (auto simp: routes_ok_def map_put_keys)

text \<open>C33.
  Registering handlers keeps the routes in order, every rule beginning with a slash and without
  two slashes in a row, and never replaces a route; when it does not throw, all its paths lead
  to the handler.
\<close>

theorem on_request_spec:
  assumes "routes_ok sv" "on_request paths ms func aops sv = (err, sv')"
  shows "routes_ok sv' \<and>
    (\<forall>rule h. map_of (sv_routes sv) rule = Some h \<longrightarrow> map_of (sv_routes sv') rule = Some h) \<and>
    (err = None \<longrightarrow> (\<forall>path \<in> set paths. map_of (sv_routes sv') (rule_path_check path) =
       Some \<lparr>tk_method = bind_method ms, tk_aop = multi_ctrlr_aop func aops\<rparr>))"
  using assms
proof (induction paths ms func aops sv rule: on_request.induct)
  case (2 path_rule paths ms func aops sv)
  let ?rule = "rule_path_check path_rule"
  let ?rt = "\<lparr>tk_method = bind_method ms, tk_aop = multi_ctrlr_aop func aops\<rparr>"
  show ?case
  proof (cases "path_rule = [] \<or> map_of (sv_routes sv) ?rule \<noteq> None")
    case True
    then have "err \<noteq> None \<and> sv' = sv" using "2.prems"(2) by (auto simp: Let_def split: if_splits)
    then show ?thesis using "2.prems"(1) by auto
  next
    case False
    let ?sv = "sv\<lparr>sv_routes := map_put (sv_routes sv) ?rule ?rt\<rparr>"
    have "on_request paths ms func aops ?sv = (err, sv')" using "2.prems"(2) False by (simp add: Let_def)
    note next_paths = "2.IH" [OF _ refl _ routes_ok_put [OF "2.prems"(1)] this]
    have "map_of (sv_routes sv) rule = Some h \<Longrightarrow> map_of (sv_routes sv') rule = Some h" for rule h
      using next_paths False by (cases "rule = ?rule") auto
    then show ?thesis using next_paths False by auto
  qed
qed simp

theorem on_request_spec_witness:
  "routes_ok (snd (on_request [''a//b''] [GET] (eff_return ()) [] new_server))"
proof -
  have ok: "routes_ok new_server" by (simp add: routes_ok_def new_server_def)
  obtain err sv' where on: "on_request [''a//b''] [GET] (eff_return ()) [] new_server = (err, sv')"
    by fastforce
  show ?thesis using on_request_spec [OF ok on] unfolding on by simp
qed

text \<open>Removing a handler takes the rule as it is written, without the checks of registering it.\<close>

lemma unbound_request_keeps:
  "routes_ok sv \<Longrightarrow> unbound_request path sv = Inr sv' \<Longrightarrow> routes_ok sv'"
  by (auto simp: unbound_request_def routes_ok_def sorted_keys_def sorted_wrt_map sorted_wrt_filter split: if_splits)

end
