(* ===== verification/Request_Body.thy ===== *)
theory Request_Body
  imports Http_Server
begin

text \<open>
  Reading the body of a request (\<^verbatim>\<open>libgs/http/server/detail/request.h\<close>), in the coroutine
  versions: into a buffer of the caller, into a string, and into a file. What the parser has
  already is taken first, then the socket is read and the parser fed. A buffer is a string of
  fixed length; a write past its end is \<open>Overflow\<close>. The socket is the list of the read events
  to come, and a read with none left waits. What the parser throws reaches the caller. The
  timer of thirty seconds does not fire, and the file accepts what is written to it.
\<close>

datatype 'a reading = Waits | Overflow | Throws exn | Returns 'a

definition reading_bind :: "'a reading \<Rightarrow> ('a \<Rightarrow> 'b reading) \<Rightarrow> 'b reading" where
  "reading_bind m f =
     (case m of Waits \<Rightarrow> Waits | Overflow \<Rightarrow> Overflow | Throws e \<Rightarrow> Throws e | Returns x \<Rightarrow> f x)"

section \<open>The socket\<close>

text \<open>At most \<open>cap\<close> bytes of the next segment; an interrupted read (4) is repeated.\<close>

fun sock_read :: "nat \<Rightarrow> read_event list \<Rightarrow> ((nat + string) \<times> read_event list) option" where
  "sock_read cap [] = None"
| "sock_read cap (Read_bytes s # net) =
     (if length s \<le> cap then Some (Inr s, net) else Some (Inr (take cap s), Read_bytes (drop cap s) # net))"
| "sock_read cap (Read_error eno # net) = (if eno = 4 then sock_read cap net else Some (Inl eno, net))"
| "sock_read cap (Read_timeout # net) = sock_read cap net"

definition event_size :: "read_event \<Rightarrow> nat" where
  "event_size e = (case e of Read_bytes s \<Rightarrow> length s + 1 | _ \<Rightarrow> 1)"

definition to_come :: "read_event list \<Rightarrow> nat" where
  "to_come net = sum_list (map event_size net)"

lemma to_come_simps [simp]:
  "to_come [] = 0" "to_come (Read_bytes s # net) = length s + 1 + to_come net"
  "to_come (Read_error eno # net) = 1 + to_come net" "to_come (Read_timeout # net) = 1 + to_come net"
  by (simp_all add: to_come_def event_size_def)

lemma sock_read_less: "sock_read cap net = Some (Inr s, net') \<Longrightarrow> s \<noteq> [] \<Longrightarrow> to_come net' < to_come net"
  by (induction cap net rule: sock_read.induct) (auto split: if_splits)

section \<open>Reading into a buffer\<close>

text \<open>Reads until the parser has more of the body; an error ends it.\<close>

function fill ::
    "stold_fn \<Rightarrow> nat \<Rightarrow> request_parser \<Rightarrow> read_event list \<Rightarrow> (nat option \<times> request_parser \<times> read_event list) reading" where
  "fill stold rcv p net =
     (case sock_read rcv net of
        None \<Rightarrow> Waits
      | Some (Inl eno, net) \<Rightarrow> Returns (Some eno, p, net)
      | Some (Inr buf, net) \<Rightarrow>
          (case request_append stold buf p of
             Inl ex \<Rightarrow> Throws ex
           | Inr (r, Some e, p) \<Rightarrow> Returns (Some (errno_value e), p, net)
           | Inr (r, None, p) \<Rightarrow> if r then Returns (None, p, net) else fill stold rcv p net))"
  by pat_completeness auto

lemma append_some: "request_append stold buf p = Inr (r, None, p') \<Longrightarrow> buf \<noteq> []"
  using append_nothing by (metis option.distinct(1) prod.inject sum.inject(2))

termination fill
  by (relation "measure (\<lambda>(stold, rcv, p, net). to_come net)") (auto dest: append_some intro: sock_read_less)

declare fill.simps [simp del]

lemma fill_less: "fill stold rcv p net = Returns (None, p', net') \<Longrightarrow> to_come net' < to_come net"
proof (induction stold rcv p net rule: fill.induct)
  case (1 stold rcv p net)
  from "1.prems" obtain buf net1 r p1 where read: "sock_read rcv net = Some (Inr buf, net1)"
    and app: "request_append stold buf p = Inr (r, None, p1)"
    and res: "if r then p1 = p' \<and> net1 = net' else fill stold rcv p1 net1 = Returns (None, p', net')"
    by (subst (asm) fill.simps) (auto split: option.splits sum.splits if_splits)
  have less: "to_come net1 < to_come net" using sock_read_less [OF read append_some [OF app]] .
  show ?case
  proof (cases r)
    case True
    then show ?thesis using res less by simp
  next
    case False
    then have "to_come net' < to_come net1" using "1.IH" [OF read refl refl app refl refl] res by simp
    then show ?thesis using less by simp
  qed
qed

text \<open>\<^verbatim>\<open>memcpy(dst + pos, src, src.size())\<close>, within the buffer or not.\<close>

definition memcpy_at :: "string \<Rightarrow> nat \<Rightarrow> string \<Rightarrow> string option" where
  "memcpy_at dst i src =
     (if i + length src \<le> length dst then Some (take i dst @ src @ drop (i + length src) dst)
      else if src = [] then Some dst else None)"

type_synonym read_result = "nat \<times> nat option \<times> string \<times> request_parser \<times> read_event list"

text \<open>
  The loop takes as much of the body as the whole buffer holds each time, adds its length to
  the sum and copies it behind the sum.
\<close>

function read_task ::
    "stold_fn \<Rightarrow> nat \<Rightarrow> nat \<Rightarrow> string \<Rightarrow> request_parser \<Rightarrow> read_event list \<Rightarrow> read_result reading" where
  "read_task stold rcv n dst p net =
     (let (body, p) = take_partial_body (length dst) p; n = n + length body in
      case memcpy_at dst n body of
        None \<Rightarrow> Overflow
      | Some dst \<Rightarrow>
          if n = length dst \<or> \<not> can_read_from_device p then Returns (n, None, dst, p, net)
          else (case fill stold rcv p net of
                  Waits \<Rightarrow> Waits
                | Overflow \<Rightarrow> Overflow
                | Throws ex \<Rightarrow> Throws ex
                | Returns (Some eno, p, net) \<Rightarrow> Returns (n, Some eno, dst, p, net)
                | Returns (None, p, net) \<Rightarrow> read_task stold rcv n dst p net))"
  by pat_completeness auto

termination read_task
  by (relation "measure (\<lambda>(stold, rcv, n, dst, p, net). to_come net)") (auto intro: fill_less)

declare read_task.simps [simp del]

definition co_read :: "stold_fn \<Rightarrow> nat \<Rightarrow> string \<Rightarrow> request_parser \<Rightarrow> read_event list \<Rightarrow> read_result reading" where
  "co_read stold rcv dst p net =
     (if dst = [] then Returns (0, None, dst, p, net)
      else if is_eof p then Returns (0, Some 2, dst, p, net)
      else read_task stold rcv 0 dst p net)"

section \<open>Progress\<close>

lemma memcpy_at_length: "memcpy_at dst i src = Some dst' \<Longrightarrow> length dst' = length dst"
  by (auto simp: memcpy_at_def split: if_splits)

lemma memcpy_at_fits: "memcpy_at dst i src = Some dst' \<Longrightarrow> i + length src \<le> length dst \<or> src = []"
  by (simp add: memcpy_at_def split: if_splits)

lemma take_partial_less:
  "take_partial_body sz p = (body, p') \<Longrightarrow> sz \<noteq> 0 \<Longrightarrow> length (p_body p') + length body = length (p_body p) \<and> length body \<le> sz \<and>
     (p_body p \<noteq> [] \<longrightarrow> body \<noteq> []) \<and> p_state p' = p_state p"
  by (auto simp: take_partial_body_def Let_def split: if_splits)

text \<open>How a round of the loop that returns has gone.\<close>

lemma read_task_Returns:
  assumes "read_task stold rcv n dst p net = Returns result"
  obtains (stopped) body p1 dst1 where "take_partial_body (length dst) p = (body, p1)"
      "memcpy_at dst (n + length body) body = Some dst1" "result = (n + length body, None, dst1, p1, net)"
      "n + length body = length dst \<or> \<not> can_read_from_device p1"
  | (failed) body p1 dst1 eno p2 net2 where "take_partial_body (length dst) p = (body, p1)"
      "memcpy_at dst (n + length body) body = Some dst1" "fill stold rcv p1 net = Returns (Some eno, p2, net2)"
      "result = (n + length body, Some eno, dst1, p2, net2)"
  | (again) body p1 dst1 p2 net2 where "take_partial_body (length dst) p = (body, p1)"
      "memcpy_at dst (n + length body) body = Some dst1" "fill stold rcv p1 net = Returns (None, p2, net2)"
      "n + length body \<noteq> length dst1" "can_read_from_device p1"
      "read_task stold rcv (n + length body) dst1 p2 net2 = Returns result"
proof -
  obtain body p1 where body: "take_partial_body (length dst) p = (body, p1)" by fastforce
  note step = assms [unfolded read_task.simps [of stold rcv n dst p net] body Let_def prod.case]
  from step obtain dst1 where copied: "memcpy_at dst (n + length body) body = Some dst1"
    by (cases "memcpy_at dst (n + length body) body") auto
  note step = step [unfolded copied option.case]
  show thesis
  proof (cases "n + length body = length dst1 \<or> \<not> can_read_from_device p1")
    case True
    then show ?thesis using step stopped [OF body copied] memcpy_at_length [OF copied] by auto
  next
    case False
    then show ?thesis
      using step failed [OF body copied] again [OF body copied]
      by (auto split: reading.splits option.splits)
  qed
qed

lemma sock_read_le: "sock_read cap net = Some (x, net') \<Longrightarrow> to_come net' \<le> to_come net"
  by (induction cap net rule: sock_read.induct) (auto split: if_splits)

lemma fill_le: "fill stold rcv p net = Returns (e, p', net') \<Longrightarrow> to_come net' \<le> to_come net"
proof (induction "to_come net" arbitrary: p net rule: less_induct)
  case less
  from less.prems obtain x net1 where read: "sock_read rcv net = Some (x, net1)"
    by (subst (asm) fill.simps) (auto split: option.splits)
  note step = less.prems [unfolded fill.simps [of stold rcv p net] read option.case prod.case]
  show ?case
  proof (cases x)
    case (Inl eno)
    then show ?thesis using step sock_read_le [OF read] by simp
  next
    case (Inr buf)
    note read' = read [unfolded Inr]
    show ?thesis
    proof (cases "\<exists>p1. request_append stold buf p = Inr (False, None, p1)")
      case True
      then obtain p1 where app: "request_append stold buf p = Inr (False, None, p1)" by blast
      note less1 = sock_read_less [OF read' append_some [OF app]]
      have "fill stold rcv p1 net1 = Returns (e, p', net')" using step Inr app by simp
      from less.hyps [OF less1 this] less1 show ?thesis by simp
    next
      case False
      then have "net1 = net'" using step Inr by (auto split: sum.splits option.splits if_splits)
      then show ?thesis using sock_read_le [OF read] by simp
    qed
  qed
qed

text \<open>What one call of the reading loop does: it stays in the buffer, and the socket never gains.\<close>

lemma read_task_bounds:
  "read_task stold rcv n dst p net = Returns (n', e, dst', p', net') \<Longrightarrow> n \<le> length dst \<Longrightarrow>
   length dst' = length dst \<and> n \<le> n' \<and> n' \<le> length dst \<and> to_come net' \<le> to_come net"
proof (induction "to_come net" arbitrary: n dst p net rule: less_induct)
  case less
  have inside: "n + length body \<le> length dst \<and> length dst1 = length dst"
    if "memcpy_at dst (n + length body) body = Some dst1" for body dst1
    using memcpy_at_fits [OF that] memcpy_at_length [OF that] less.prems(2) by auto
  from less.prems(1) show ?case
  proof (cases rule: read_task_Returns)
    case (stopped body p1 dst1)
    then show ?thesis using inside [OF stopped(2)] by simp
  next
    case (failed body p1 dst1 eno p2 net2)
    then show ?thesis using inside [OF failed(2)] fill_le [OF failed(3)] by simp
  next
    case (again body p1 dst1 p2 net2)
    have "length dst' = length dst1 \<and> n + length body \<le> n' \<and> n' \<le> length dst1 \<and> to_come net' \<le> to_come net2"
      using less.hyps [OF fill_less [OF again(3)] again(6)] inside [OF again(2)] by simp
    then show ?thesis using inside [OF again(2)] fill_le [OF again(3)] by simp
  qed
qed

lemma co_read_bounds:
  "co_read stold rcv dst p net = Returns (n, e, dst', p', net') \<Longrightarrow> length dst' = length dst \<and> n \<le> length dst \<and> to_come net' \<le> to_come net"
  using read_task_bounds [of stold rcv 0 dst p net] by (auto simp: co_read_def split: if_splits)

lemma co_read_less:
  assumes "co_read stold rcv dst p net = Returns (n, None, dst', p', net')" "dst \<noteq> []"
  shows "to_come net' < to_come net \<or> net' = net \<and> length (p_body p') < length (p_body p)"
proof -
  have eof: "\<not> is_eof p" and task: "read_task stold rcv 0 dst p net = Returns (n, None, dst', p', net')"
    using assms by (simp_all add: co_read_def split: if_splits)
  from task show ?thesis
  proof (cases rule: read_task_Returns)
    case (stopped body p1 dst1)
    note taken = take_partial_less [OF stopped(1)]
    show ?thesis
    proof (cases "p_body p = []")
      case True
      then have "p_state p1 = p_state p" "length body = 0" using taken assms(2) by auto
      then show ?thesis using stopped(4) eof True assms(2) by (simp add: is_eof_def can_read_from_device_def)
    next
      case False
      then have "length (p_body p1) < length (p_body p)" using taken assms(2) by (cases body) auto
      then show ?thesis using stopped(3) by simp
    qed
  next
    case (failed body p1 dst1 eno p2 net2)
    then show ?thesis by simp
  next
    case (again body p1 dst1 p2 net2)
    have "0 + length body \<le> length dst1"
      using memcpy_at_fits [OF again(2)] memcpy_at_length [OF again(2)] by auto
    from read_task_bounds [OF again(6) this] fill_less [OF again(3)] show ?thesis by simp
  qed
qed

section \<open>Reading all of it\<close>

definition zeros :: "nat \<Rightarrow> string" where
  "zeros n = replicate n (CHR 0x00)"

function read_all_loop ::
    "stold_fn \<Rightarrow> nat \<Rightarrow> string \<Rightarrow> request_parser \<Rightarrow> read_event list \<Rightarrow> (string \<times> nat option \<times> request_parser \<times> read_event list) reading" where
  "read_all_loop stold rcv acc p net =
     (case co_read stold rcv (zeros buf_size) p net of
        Waits \<Rightarrow> Waits
      | Overflow \<Rightarrow> Overflow
      | Throws ex \<Rightarrow> Throws ex
      | Returns (n, Some eno, dst, p, net) \<Rightarrow> Returns (acc @ take n dst, Some eno, p, net)
      | Returns (n, None, dst, p, net) \<Rightarrow>
          if is_eof p then Returns (acc @ take n dst, None, p, net)
          else read_all_loop stold rcv (acc @ take n dst) p net)"
  by pat_completeness auto

lemma zeros_buf: "zeros buf_size \<noteq> []" "length (zeros n) = n"
  by (simp_all add: zeros_def buf_size_def)

termination read_all_loop
proof (relation "measures [\<lambda>(stold, rcv, acc, p, net). to_come net, \<lambda>(stold, rcv, acc, p, net). length (p_body p)]", goal_cases)
  case (2 stold rcv acc p net x n y e dst z p' net')
  then show ?case using co_read_less [of stold rcv "zeros buf_size" p net] zeros_buf by auto
qed simp

declare read_all_loop.simps [simp del]

definition read_all ::
    "stold_fn \<Rightarrow> nat \<Rightarrow> request_parser \<Rightarrow> read_event list \<Rightarrow> (string \<times> nat option \<times> request_parser \<times> read_event list) reading" where
  "read_all stold rcv p net = read_all_loop stold rcv [] p net"

section \<open>Saving it to a file\<close>

text \<open>
  The buffer is cleared once, before the first read: it holds \<open>old\<close>, what the reads so far have
  left, and zeros where there was none. A range that is not empty limits what is read;
  \<open>remaining\<close> is what is left of it, and \<^const>\<open>None\<close> without a limit.
\<close>

function save_loop ::
    "stold_fn \<Rightarrow> nat \<Rightarrow> nat option \<Rightarrow> string \<Rightarrow> string \<Rightarrow> request_parser \<Rightarrow> read_event list \<Rightarrow>
     (string \<times> nat option \<times> request_parser \<times> read_event list) reading" where
  "save_loop stold rcv remaining out old p net =
     (if is_eof p then Returns (out, None, p, net)
      else
        let buf = take buf_size (old @ zeros buf_size);
            cap = (case remaining of None \<Rightarrow> buf_size | Some k \<Rightarrow> min buf_size k) in
        case co_read stold rcv (take cap buf) p net of
          Waits \<Rightarrow> Waits
        | Overflow \<Rightarrow> Overflow
        | Throws ex \<Rightarrow> Throws ex
        | Returns (n, Some eno, dst, p, net) \<Rightarrow> Returns (out, Some eno, p, net)
        | Returns (n, None, dst, p, net) \<Rightarrow>
            if remaining = Some n then Returns (out @ take n dst, None, p, net)
            else save_loop stold rcv (map_option (\<lambda>k. k - n) remaining) (out @ take n dst) (dst @ drop cap buf) p net)"
  by pat_completeness auto

termination save_loop
proof (relation "measures [\<lambda>(stold, rcv, remaining, out, old, p, net). to_come net,
    \<lambda>(stold, rcv, remaining, out, old, p, net). length (p_body p)]", goal_cases)
  case (2 stold rcv remaining out old p net buf cap x n y e dst z p' net')
  have "take cap buf \<noteq> []"
  proof
    assume empty: "take cap buf = []"
    have "length buf = buf_size" by (simp add: 2(2) zeros_buf)
    then have "cap = 0" using empty zeros_buf by (auto simp: zeros_def)
    then have "remaining = Some 0" using 2(3) by (auto simp: buf_size_def split: option.splits)
    moreover have "n = 0" using 2 empty by (auto simp: co_read_def)
    ultimately show False using 2 by simp
  qed
  then show ?case using 2 co_read_less [of stold rcv "take cap buf" p net] by auto
qed simp

declare save_loop.simps [simp del]

definition co_save_file ::
    "stold_fn \<Rightarrow> nat \<Rightarrow> nat \<Rightarrow> request_parser \<Rightarrow> read_event list \<Rightarrow>
     (string \<times> nat option \<times> request_parser \<times> read_event list) reading" where
  "co_save_file stold rcv limit p net = save_loop stold rcv (if limit = 0 then None else Some limit) [] [] p net"

section \<open>Path arguments\<close>

fun path_arg :: "(string \<times> string) list \<Rightarrow> string \<Rightarrow> string res" where
  "path_arg [] key = Inl Runtime_error"
| "path_arg ((k, v) # args) key = (if k = key then Inr v else path_arg args key)"

definition path_arg_at :: "(string \<times> string) list \<Rightarrow> nat \<Rightarrow> string res" where
  "path_arg_at args i = (if length args \<le> i then Inl Runtime_error else Inr (snd (args ! i)))"

fun path_arg_or :: "(string \<times> string) list \<Rightarrow> string \<Rightarrow> string \<Rightarrow> string" where
  "path_arg_or [] key def_value = def_value"
| "path_arg_or ((k, v) # args) key def_value = (if k = key then v else path_arg_or args key def_value)"

definition path_arg_at_or :: "(string \<times> string) list \<Rightarrow> nat \<Rightarrow> string \<Rightarrow> string" where
  "path_arg_at_or args i def_value = (if length args \<le> i then def_value else snd (args ! i))"

section \<open>Properties\<close>

lemma co_read_at_once:
  assumes "dst \<noteq> []" "p_body p \<noteq> []" "\<not> can_read_from_device p"
  shows "co_read stold rcv dst p net =
    (let n = length (p_body p) in
     if 2 * n \<le> length dst then Returns (n, None, take n dst @ p_body p @ drop (2 * n) dst, p\<lparr>p_body := []\<rparr>, net)
     else Overflow)"
proof (cases "length dst < length (p_body p)")
  case True
  then show ?thesis using assms
    by (simp add: co_read_def is_eof_def read_task.simps take_partial_body_def memcpy_at_def Let_def)
next
  case False
  have "can_read_from_device (p\<lparr>p_body := []\<rparr>) = can_read_from_device p"
    by (simp add: can_read_from_device_def)
  then show ?thesis using assms False
    by (auto simp: co_read_def is_eof_def read_task.simps take_partial_body_def memcpy_at_def Let_def mult_2)
qed

text \<open>
  A read that has some of the body at hand writes past the end of the buffer as soon as the
  buffer is shorter than twice that, and so always when there is enough to fill it.
\<close>

theorem read_overruns:
  assumes "dst \<noteq> []" "p_body p \<noteq> []" "length dst < 2 * length (p_body p)"
  shows "co_read stold rcv dst p net = Overflow"
  using assms
  by (auto simp: co_read_def is_eof_def read_task.simps take_partial_body_def memcpy_at_def Let_def)

theorem read_overruns_witness:
  "co_read (\<lambda>s. Inl Invalid_argument) 1 ''????'' ((new_parser new_request)\<lparr>p_body := ''abc''\<rparr>) [] = Overflow"
  by (rule read_overruns) simp_all

text \<open>C8.
  Reading the whole body of a request that has arrived never yields the body: a client sends
  one that is not empty, the server has it, and the handler that reads it gets as many zero
  bytes, or writes past the buffer when the body has more than 32767 bytes.
\<close>

theorem body_read_as_zeros:
  assumes "good_request arg" "length body < 2 ^ 64" "body \<noteq> []"
  shows "\<exists>head h q. request_header_data stold v11 (method_value m) (length body) arg new_helper = Inr (head, h) \<and>
    request_append stold (head @ fst (body_data body h)) new_request_parser = Inr (True, None, q) \<and> p_body q = body \<and>
    read_all stold rcv q net =
      (if 2 * length body \<le> buf_size then Returns (zeros (length body), None, q\<lparr>p_body := []\<rparr>, net) else Overflow)"
proof -
  from request_crosses [OF assms(1,2), of stold m] obtain head h q where
    q: "request_header_data stold v11 (method_value m) (length body) arg new_helper = Inr (head, h)"
      "request_append stold (head @ fst (body_data body h)) new_request_parser = Inr (True, None, q)"
      "is_finished q" "p_body q = body"
    by blast
  let ?n = "length body"
  have "\<not> can_read_from_device q" using q(3) by (simp add: is_finished_def can_read_from_device_def)
  note read = co_read_at_once [OF zeros_buf(1) _ this, of stold rcv net, unfolded q(4) zeros_buf Let_def, OF assms(3)]
  have "read_all stold rcv q net =
      (if 2 * ?n \<le> buf_size then Returns (zeros ?n, None, q\<lparr>p_body := []\<rparr>, net) else Overflow)"
    using q(3) by (simp add: read_all_def read_all_loop.simps [of stold rcv "[]" q net] read is_eof_def is_finished_def
        can_read_from_device_def) (simp add: zeros_def)
  then show ?thesis using q(1,2,4) by blast
qed

theorem body_read_as_zeros_witness:
  "\<exists>q. read_all (\<lambda>s. Inl Invalid_argument) 1 q [] = Returns (zeros 2, None, q\<lparr>p_body := []\<rparr>, []) \<and> p_body q = ''ab''"
  using body_read_as_zeros [OF sample_arg_good(1), of "''ab''" "\<lambda>s. Inl Invalid_argument" POST 1 "[]"]
  by (simp add: buf_size_def numeral_2_eq_2 [symmetric]) blast

lemma save_loop_bounded:
  "save_loop stold rcv remaining out old p net = Returns (out', e, p', net') \<Longrightarrow> remaining = Some k \<Longrightarrow>
   length out' \<le> length out + k"
proof (induction stold rcv remaining out old p net arbitrary: k rule: save_loop.induct)
  case (1 stold rcv remaining out old p net)
  define buf where "buf = take buf_size (old @ zeros buf_size)"
  define cap where "cap = (case remaining of None \<Rightarrow> buf_size | Some k \<Rightarrow> min buf_size k)"
  have cap: "cap \<le> k" using "1.prems"(2) by (simp add: cap_def)
  show ?case
  proof (cases "is_eof p")
    case True
    then show ?thesis using "1.prems"(1) by (simp add: save_loop.simps [of stold rcv remaining out old p net])
  next
    case False
    note step = "1.prems"(1) [unfolded save_loop.simps [of stold rcv remaining out old p net] if_not_P [OF False] Let_def,
        folded cap_def buf_def]
    then obtain n e1 dst p1 net1 where read: "co_read stold rcv (take cap buf) p net = Returns (n, e1, dst, p1, net1)"
      by (cases "co_read stold rcv (take cap buf) p net") auto
    have n: "n \<le> k" using co_read_bounds [OF read] cap by simp
    show ?thesis
    proof (cases "e1 = None \<and> remaining \<noteq> Some n")
      case True
      then have "save_loop stold rcv (map_option (\<lambda>k. k - n) remaining) (out @ take n dst) (dst @ drop cap buf) p1 net1 =
          Returns (out', e, p', net')"
        using step read by simp
      from "1.IH" [OF False buf_def cap_def read refl refl conjunct1 [OF True] refl refl conjunct2 [OF True] this, of "k - n"]
        "1.prems"(2) n
      show ?thesis by auto
    next
      case False
      then show ?thesis using n step read by (auto split: if_splits option.splits)
    qed
  qed
qed

text \<open>
  Saving a part of the body never writes more bytes to the file than the part has.
\<close>

theorem save_bounded:
  assumes "co_save_file stold rcv limit p net = Returns (out, e, p', net')" "limit \<noteq> 0"
  shows "length out \<le> limit"
  using save_loop_bounded [of stold rcv "Some limit" "[]"] assms by (simp add: co_save_file_def)

theorem save_bounded_witness:
  "\<exists>p' net'. co_save_file (\<lambda>s. Inl Invalid_argument) 1 4 ((new_parser new_request)\<lparr>p_body := ''ab''\<rparr>) [] =
     Returns (zeros 2, None, p', net') \<and> length (zeros 2) \<le> 4"
proof -
  let ?p = "(new_parser new_request)\<lparr>p_body := ''ab''\<rparr>"
  have state: "\<not> can_read_from_device ?p" "p_body ?p = ''ab''" "p_state (?p\<lparr>p_body := []\<rparr>) = Waiting_request"
    by (simp_all add: can_read_from_device_def new_parser_def)
  have zeros4: "take 4 (take buf_size (zeros buf_size)) = zeros 4"
    by (simp add: zeros_def buf_size_def)
  have zeros2: "take 2 (zeros 4) = zeros 2" by (simp add: zeros_def)
  have "co_read (\<lambda>s. Inl Invalid_argument) 1 (zeros 4) ?p [] =
      Returns (2, None, take 2 (zeros 4) @ ''ab'' @ drop 4 (zeros 4), ?p\<lparr>p_body := []\<rparr>, [])"
    using co_read_at_once [of "zeros 4" ?p] state by (auto simp: zeros_def eval_nat_numeral)
  then have saved: "co_save_file (\<lambda>s. Inl Invalid_argument) 1 4 ?p [] = Returns (zeros 2, None, ?p\<lparr>p_body := []\<rparr>, [])"
    using state zeros4 zeros2 zeros_buf(2) by (simp add: co_save_file_def save_loop.simps is_eof_def can_read_from_device_def buf_size_def)
  then show ?thesis using save_bounded [OF saved] by auto
qed

end
