(* ===== verification/Http_Url.thy ===== *)
theory Http_Url
  imports Request_Parser
begin

text \<open>
  URLs of the client (\<^verbatim>\<open>libgs/http/client/detail/url.h\<close>): cutting a text into protocol,
  address, port, path and parameters, changing the parts and printing them. Whether the
  library is built with OpenSSL is the parameter \<open>ssl\<close>. Setting may throw half way; the
  members assigned before keep their new values.
\<close>

record url =
  u_protocol :: string
  u_path :: string
  u_address :: string
  u_port :: nat
  u_parameters :: "string http_map"

definition blank_url :: url where
  "blank_url = \<lparr>u_protocol = ''http'', u_path = ''/'', u_address = ''127.0.0.1'', u_port = 80, u_parameters = []\<rparr>"

section \<open>Setting\<close>

text \<open>The protocol in front, of which the sixth character is not looked at for \<^verbatim>\<open>https\<close>.\<close>

definition cut_protocol :: "bool \<Rightarrow> string \<Rightarrow> url \<Rightarrow> (string \<times> url) res" where
  "cut_protocol ssl line u =
     (if 8 \<le> length line \<and> str_to_lower (substr 0 4 line) = ''http'' then
        if line ! 4 = CHR 0x73 \<and> 8 < length line then
          if line ! 6 = CHR 0x2F \<and> line ! 7 = CHR 0x2F
          then (if ssl then Inr (drop 8 line, u\<lparr>u_protocol := ''https''\<rparr>) else Inl Runtime_error)
          else Inr (line, u)
        else if line ! 4 = CHR 0x3A \<and> line ! 5 = CHR 0x2F \<and> line ! 6 = CHR 0x2F
        then Inr (drop 7 line, u\<lparr>u_protocol := ''http''\<rparr>)
        else Inr (line, u)
      else Inr (line, u))"

definition cut_parameters :: "string \<Rightarrow> url \<Rightarrow> string \<times> url" where
  "cut_parameters line u =
     (case find_char (CHR ''?'') line of
        None \<Rightarrow> (line, u)
      | Some i \<Rightarrow>
          (substr 0 i line,
           u\<lparr>u_parameters := foldl add_parameter (u_parameters u) (split_char (drop (i + 1) line) (CHR ''&''))\<rparr>))"

definition set_place :: "string \<Rightarrow> url \<Rightarrow> url" where
  "set_place addpth u =
     (case find_char (CHR ''/'') addpth of
        None \<Rightarrow> u\<lparr>u_address := addpth, u_path := ''/''\<rparr>
      | Some i \<Rightarrow> u\<lparr>u_address := substr 0 i addpth, u_path := drop i addpth\<rparr>)"

definition cut_port :: "stold_fn \<Rightarrow> url \<Rightarrow> exn option \<times> url" where
  "cut_port stold u =
     (if u_address u = [] then (None, u\<lparr>u_address := ''127.0.0.1''\<rparr>)
      else
        case rfind_char (CHR '':'') (u_address u) of
          None \<Rightarrow> (None, u\<lparr>u_port := if u_protocol u = ''https'' then 443 else 80\<rparr>)
        | Some i \<Rightarrow>
            (case stou16 stold (drop (i + 1) (u_address u)) 10 None of
               Inl e \<Rightarrow> (Some e, u)
             | Inr n \<Rightarrow> (None, u\<lparr>u_port := nat n, u_address := substr 0 i (u_address u)\<rparr>)))"

definition url_set :: "bool \<Rightarrow> stold_fn \<Rightarrow> string \<Rightarrow> url \<Rightarrow> exn option \<times> url" where
  "url_set ssl stold text u =
     (if text = [] then (None, u)
      else
        case cut_protocol ssl (str_trimmed text) u of
          Inl e \<Rightarrow> (Some e, u)
        | Inr (line, u) \<Rightarrow> (case cut_parameters line u of (addpth, u) \<Rightarrow> cut_port stold (set_place addpth u)))"

definition new_url :: "bool \<Rightarrow> stold_fn \<Rightarrow> string \<Rightarrow> url res" where
  "new_url ssl stold text = (case url_set ssl stold text blank_url of (Some e, u) \<Rightarrow> Inl e | (None, u) \<Rightarrow> Inr u)"

definition set_address :: "string \<Rightarrow> url \<Rightarrow> url" where
  "set_address addr u = u\<lparr>u_address := addr\<rparr>"

definition set_port :: "nat \<Rightarrow> url \<Rightarrow> url" where
  "set_port port u = u\<lparr>u_port := port\<rparr>"

text \<open>A path is set as a whole URL would be.\<close>

definition set_path :: "bool \<Rightarrow> stold_fn \<Rightarrow> string \<Rightarrow> url \<Rightarrow> exn option \<times> url" where
  "set_path ssl stold path u = url_set ssl stold path u"

definition set_parameter :: "string \<Rightarrow> string \<Rightarrow> url \<Rightarrow> url" where
  "set_parameter key v u = u\<lparr>u_parameters := set_map (u_parameters u) key v\<rparr>"

definition unset_parameter :: "string \<Rightarrow> url \<Rightarrow> url" where
  "unset_parameter key u = u\<lparr>u_parameters := unset_map (u_parameters u) key\<rparr>"

definition clear_parameter :: "url \<Rightarrow> url" where
  "clear_parameter u = u\<lparr>u_parameters := []\<rparr>"

section \<open>Printing\<close>

definition query_text :: "string http_map \<Rightarrow> string" where
  "query_text m = (if m = [] then [] else ''?'' @ butlast (concat (map (\<lambda>(k, v). k @ ''='' @ v @ ''&'') m)))"

definition url_to_string :: "url \<Rightarrow> string" where
  "url_to_string u =
     (let buf = u_protocol u @ ''://'' @ u_path u @ to_string (u_port u) in
      if u_parameters u = [] then buf
      else butlast (buf @ ''?'' @ concat (map (\<lambda>(k, v). k @ ''='' @ v @ ''&'') (u_parameters u))))"

section \<open>Reading a whole URL\<close>

text \<open>The usual text of a URL, which is not what \<open>url_to_string\<close> prints.\<close>

definition url_text :: "url \<Rightarrow> string" where
  "url_text u = u_protocol u @ ''://'' @ u_address u @ '':'' @ to_string (u_port u) @ u_path u @ query_text (u_parameters u)"

definition good_address :: "string \<Rightarrow> bool" where
  "good_address a \<longleftrightarrow> a \<noteq> [] \<and> CHR ''/'' \<notin> set a \<and> CHR ''?'' \<notin> set a"

definition good_url :: "url \<Rightarrow> bool" where
  "good_url u \<longleftrightarrow> u_protocol u = ''http'' \<and> good_address (u_address u) \<and> u_port u < 2 ^ 16 \<and>
     starts_with ''/'' (u_path u) \<and> CHR ''?'' \<notin> set (u_path u) \<and>
     map_inv (u_parameters u) \<and> list_all good_parameter (u_parameters u) \<and> \<not> is_blank (last (url_text u))"

lemma cut_parameters_target:
  "cut_parameters line u =
    (let r = set_target line (new_request\<lparr>rq_parameters := u_parameters u\<rparr>) in (rq_path r, u\<lparr>u_parameters := rq_parameters r\<rparr>))"
  by (simp add: cut_parameters_def set_target_def Let_def split: option.split)

lemma cut_query:
  assumes "CHR ''?'' \<notin> set path" "map_inv m" "list_all good_parameter m" "u_parameters u = []"
  shows "cut_parameters (path @ query_text m) u = (path, u\<lparr>u_parameters := m\<rparr>)"
  using set_target_parameters [OF assms(1-3), of new_request]
  by (simp add: cut_parameters_target assms(4) query_text_def new_request_def split: if_splits)

lemma rfind_char_last: "c \<notin> set t \<Longrightarrow> rfind_char c (s @ c # t) = Some (length s)"
  by (simp add: rfind_char_def)

lemma port_chars: "\<forall>c \<in> set (to_string n). c \<noteq> CHR ''/'' \<and> c \<noteq> CHR ''?'' \<and> c \<noteq> CHR '':''"
proof -
  have digits: "map digit_char [0..<10] = ''0123456789''" by code_simp
  have image: "digit_char ` {..<10} = set (map digit_char [0..<10])" by (auto simp: atLeast0LessThan)
  have "set (to_string n) \<subseteq> digit_char ` {..<10}"
    using print_base_chars [of 10 n] by (simp add: to_string_def)
  then show ?thesis unfolding image digits by auto
qed

lemma trim_url:
  assumes "u_protocol u = ''http''" "\<not> is_blank (last (url_text u))"
  shows "str_trimmed (url_text u) = url_text u"
proof -
  have "hd (url_text u) = CHR ''h''" by (simp add: url_text_def assms(1))
  moreover have "\<not> is_blank (CHR ''h'')" by (simp add: is_blank_def schar_def uchar_def)
  ultimately show ?thesis using assms(2) by (simp add: str_trimmed_trim trim_id)
qed

lemma cut_http:
  assumes "rest \<noteq> []"
  shows "cut_protocol ssl (''http://'' @ rest) u = Inr (rest, u\<lparr>u_protocol := ''http''\<rparr>)"
proof -
  have "str_to_lower ''http'' = ''http''" by code_simp
  then show ?thesis using assms by (cases rest) (auto simp: cut_protocol_def substr_def eval_nat_numeral)
qed

section \<open>Properties\<close>

lemma url_set_whole:
  assumes "good_url u" "u_parameters u0 = []"
  shows "url_set ssl stold (url_text u) u0 = (None, u)"
proof -
  let ?rest = "u_address u @ '':'' @ to_string (u_port u) @ u_path u @ query_text (u_parameters u)"
  let ?place = "u_address u @ '':'' @ to_string (u_port u)"
  note good = assms(1) [unfolded good_url_def good_address_def]
  obtain path where path: "u_path u = CHR ''/'' # path" using good by (cases "u_path u") (auto simp: starts_with_def)
  have whole: "url_text u = ''http://'' @ ?rest" "?rest \<noteq> []" using good by (auto simp: url_text_def)
  have "CHR ''?'' \<notin> set (?place @ u_path u)" using good port_chars [of "u_port u"] by auto
  then have query: "cut_parameters ?rest (u0\<lparr>u_protocol := ''http''\<rparr>) =
      (?place @ u_path u, u0\<lparr>u_protocol := ''http'', u_parameters := u_parameters u\<rparr>)"
    using cut_query [of "?place @ u_path u" "u_parameters u" "u0\<lparr>u_protocol := ''http''\<rparr>"] good assms(2) by simp
  have "CHR ''/'' \<notin> set ?place" using good port_chars [of "u_port u"] by auto
  then have place: "set_place (?place @ u_path u) v = v\<lparr>u_address := ?place, u_path := u_path u\<rparr>" for v
    by (simp add: set_place_def path substr_def)
  have "stou16 stold (to_string (u_port u)) 10 None = Inr (int (u_port u))"
    using sto_u_print [of 10 "u_port u" stold 16 None] good by (simp add: stou16_def to_string_def)
  moreover have "rfind_char (CHR '':'') ?place = Some (length (u_address u))"
    using rfind_char_last [of "CHR '':''" "to_string (u_port u)"] port_chars [of "u_port u"] by auto
  ultimately have port: "cut_port stold (v\<lparr>u_address := ?place, u_path := w\<rparr>) =
      (None, v\<lparr>u_address := u_address u, u_path := w, u_port := u_port u\<rparr>)" for v w
    using good by (cases v) (simp add: cut_port_def substr_def)
  have trimmed: "str_trimmed (''http://'' @ ?rest) = ''http://'' @ ?rest"
    using trim_url [of u] good unfolding whole(1) by blast
  have "url_set ssl stold (''http://'' @ ?rest) u0 =
      (None, u0\<lparr>u_protocol := ''http'', u_parameters := u_parameters u, u_address := u_address u, u_path := u_path u, u_port := u_port u\<rparr>)"
    unfolding url_set_def trimmed cut_http [OF whole(2)] sum.case prod.case query place port by simp
  then show ?thesis unfolding whole(1) using good by (cases u; cases u0) simp
qed

text \<open>C28.
  Setting a URL to the usual text of one with protocol, address, port, path and parameters
  yields exactly these parts, if it had no parameters before.
\<close>

theorem url_set_reads:
  assumes "good_url u" "u_parameters u0 = []"
  shows "url_set ssl stold (url_text u) u0 = (None, u)"
  by (rule url_set_whole [OF assms])

theorem url_set_reads_witness:
  "url_set False (\<lambda>s. Inl Invalid_argument) ''http://h:81/a?k=v'' blank_url =
     (None, \<lparr>u_protocol = ''http'', u_path = ''/a'', u_address = ''h'', u_port = 81, u_parameters = [(''k'', ''v'')]\<rparr>)"
proof -
  let ?u = "\<lparr>u_protocol = ''http'', u_path = ''/a'', u_address = ''h'', u_port = 81, u_parameters = [(''k'', ''v'')]\<rparr>"
  have "to_string 81 = ''81''" by code_simp
  then have whole: "url_text ?u = ''http://h:81/a?k=v''" by (simp add: url_text_def query_text_def)
  have "good_url ?u"
    unfolding good_url_def whole by (simp add: good_address_def starts_with_def good_parameter_def map_inv_Cons is_blank_def schar_def uchar_def)
  from url_set_reads [OF this, of blank_url] show ?thesis by (simp add: whole blank_url_def)
qed

text \<open>
  The text that a URL prints says nothing about its address: it is the protocol, the path
  and, without anything between, the port.
\<close>

theorem url_prints_no_address:
  "url_to_string (set_address a u) = url_to_string u"
  "u_parameters u = [] \<Longrightarrow> url_to_string u = u_protocol u @ ''://'' @ u_path u @ to_string (u_port u)"
  by (simp_all add: url_to_string_def set_address_def Let_def)

text \<open>
  Setting the path of a URL makes its address that of the local host.
\<close>

theorem set_path_resets_address:
  assumes "starts_with ''/'' path" "CHR ''?'' \<notin> set path" "\<not> is_blank (last path)"
  shows "set_path ssl stold path u = (None, u\<lparr>u_path := path, u_address := ''127.0.0.1''\<rparr>)"
proof -
  obtain t where path: "path = CHR ''/'' # t" using assms(1) by (cases path) (auto simp: starts_with_def)
  have "\<not> is_blank (CHR ''/'')" by (simp add: is_blank_def schar_def uchar_def)
  then have "str_trimmed path = path" using assms(3) by (simp add: str_trimmed_trim trim_id path)
  moreover have "str_to_lower (substr 0 4 path) \<noteq> ''http''"
  proof -
    have "tolower (CHR ''/'') \<noteq> CHR ''h''" by code_simp
    then show ?thesis by (simp add: path substr_def str_to_lower_def eval_nat_numeral)
  qed
  moreover have "cut_parameters path u = (path, u)"
    using assms(2) by (simp add: cut_parameters_def iffD2 [OF find_char_None])
  moreover have "set_place path u = u\<lparr>u_address := [], u_path := path\<rparr>"
    by (simp add: set_place_def path substr_def)
  ultimately show ?thesis
    by (cases u) (simp add: set_path_def url_set_def path cut_protocol_def cut_port_def)
qed

theorem set_path_resets_address_witness:
  "u_address (snd (set_path False (\<lambda>s. Inl Invalid_argument) ''/a'' (blank_url\<lparr>u_address := ''h''\<rparr>))) = ''127.0.0.1''"
  using set_path_resets_address [of "''/a''"] by (simp add: starts_with_def is_blank_def schar_def uchar_def)

end
