(* ===== verification/Http_Session.thy ===== *)
theory Http_Session
  imports Std_Map
begin

text \<open>
  Sessions of the server (\<^verbatim>\<open>libgs/http/server/detail/session.h\<close> and \<^verbatim>\<open>session_set.h\<close>). Each
  session has a coroutine that waits on a timer; touching the session cancels the wait and
  asks the coroutine to start it again, and when the wait ends without that the session is
  taken out of the set. The clock counts seconds, the executor resumes a coroutine at any
  time after its wait has ended, and the identifiers that are generated are new. Values of
  attributes (\<^verbatim>\<open>std::any\<close>) are of any type. The lifecycle is the word of 64 bits the code
  keeps, so that expanding it wraps; that the timer cannot hold more than \<open>2\<^sup>63\<close> nanoseconds,
  292 years, is left out.

  The constructor of a session dispatches its coroutine, which begins with
  \<^verbatim>\<open>shared_from_this\<close>. Where the coroutine begins before the constructor has returned, as it
  does on a thread that runs the library's executor, there is no shared pointer yet: the
  coroutine throws and is gone, and the session is made without one. Whether this happens is
  the argument \<open>early\<close> of what makes sessions.
\<close>

section \<open>One session\<close>

text \<open>
  The coroutine has been dispatched and has not run, or waits until a time, or its wait was
  cancelled and it is about to go on, or it has ended by the exception of its first line.
\<close>

datatype session_wait = Dispatched | Waiting nat | Cancelled | Died

record 'a session =
  s_id :: string
  s_attributes :: "(string, 'a) std_map"
  s_second :: "64 word"
  s_valid :: bool
  s_restart :: bool
  s_wait :: session_wait

definition new_session :: "bool \<Rightarrow> string \<Rightarrow> 64 word \<Rightarrow> 'a session" where
  "new_session early i seconds =
     \<lparr>s_id = i, s_attributes = [], s_second = seconds, s_valid = False, s_restart = False,
      s_wait = (if early then Died else Dispatched)\<rparr>"

definition timer_cancel :: "'a session \<Rightarrow> 'a session" where
  "timer_cancel s = (case s_wait s of Waiting t \<Rightarrow> s\<lparr>s_wait := Cancelled\<rparr> | _ \<Rightarrow> s)"

text \<open>\<^verbatim>\<open>start\<close> when a restart is asked for; the only call without is that of the constructor.\<close>

definition expand :: "'a session \<Rightarrow> 'a session" where
  "expand s = timer_cancel (s\<lparr>s_restart := True\<rparr>)"

definition expand_by :: "64 word \<Rightarrow> 'a session \<Rightarrow> 'a session" where
  "expand_by d s = expand (s\<lparr>s_second := s_second s + d\<rparr>)"

definition set_lifecycle :: "64 word \<Rightarrow> 'a session \<Rightarrow> 'a session" where
  "set_lifecycle d s = expand (s\<lparr>s_second := (if d = 0 then 1 else d)\<rparr>)"

definition invalidate :: "'a session \<Rightarrow> 'a session" where
  "invalidate s = timer_cancel (s\<lparr>s_valid := False\<rparr>)"

definition session_attribute :: "'a session \<Rightarrow> string \<Rightarrow> 'a res" where
  "session_attribute s key = (case map_of (s_attributes s) key of None \<Rightarrow> Inl Runtime_error | Some v \<Rightarrow> Inr v)"

definition session_attribute_or :: "'a session \<Rightarrow> string \<Rightarrow> 'a \<Rightarrow> 'a" where
  "session_attribute_or s key d = (case map_of (s_attributes s) key of None \<Rightarrow> d | Some v \<Rightarrow> v)"

definition session_set_attribute :: "string \<Rightarrow> 'a \<Rightarrow> 'a session \<Rightarrow> 'a session" where
  "session_set_attribute key v s = s\<lparr>s_attributes := map_put (s_attributes s) key v\<rparr>"

text \<open>The coroutine goes on at time \<open>now\<close>: it waits again, or the session has timed out.\<close>

definition can_resume :: "nat \<Rightarrow> 'a session \<Rightarrow> bool" where
  "can_resume now s \<longleftrightarrow> (case s_wait s of Waiting t \<Rightarrow> t \<le> now | Died \<Rightarrow> False | _ \<Rightarrow> True)"

definition wait_again :: "nat \<Rightarrow> 'a session \<Rightarrow> 'a session" where
  "wait_again now s = s\<lparr>s_restart := False, s_wait := Waiting (now + unat (s_second s))\<rparr>"

definition resume :: "nat \<Rightarrow> 'a session \<Rightarrow> 'a session option" where
  "resume now s =
     (if s_wait s = Died then Some s
      else if s_wait s = Dispatched \<or> s_restart s then Some (wait_again now s) else None)"

section \<open>The set of sessions\<close>

record 'a session_set =
  ss_lifecycle :: "64 word"
  ss_cookie_key :: string
  ss_map :: "(string, 'a session) std_map"

definition new_session_set :: "'a session_set" where
  "new_session_set = \<lparr>ss_lifecycle = 60, ss_cookie_key = ''session'', ss_map = []\<rparr>"

definition find_session :: "string \<Rightarrow> 'a session_set \<Rightarrow> 'a session option \<times> 'a session_set" where
  "find_session i ss =
     (case map_of (ss_map ss) i of
        None \<Rightarrow> (None, ss)
      | Some s \<Rightarrow> (Some (expand s), ss\<lparr>ss_map := map_put (ss_map ss) i (expand s)\<rparr>))"

definition emplace_session :: "'a session \<Rightarrow> 'a session_set \<Rightarrow> 'a session_set" where
  "emplace_session s ss =
     (if map_of (ss_map ss) (s_id s) = None then ss\<lparr>ss_map := map_put (ss_map ss) (s_id s) s\<rparr> else ss)"

definition erase_session :: "string \<Rightarrow> 'a session_set \<Rightarrow> 'a session_set" where
  "erase_session i ss = ss\<lparr>ss_map := filter (\<lambda>x. fst x \<noteq> i) (ss_map ss)\<rparr>"

text \<open>A session that was created with sixty seconds gets the lifecycle of the set.\<close>

definition make_session :: "bool \<Rightarrow> string \<Rightarrow> 'a session_set \<Rightarrow> 'a session \<times> 'a session_set" where
  "make_session early i ss =
     (let s = set_lifecycle (ss_lifecycle ss) (new_session early i 60) in (s, emplace_session s ss))"

definition get_session :: "string \<Rightarrow> 'a session_set \<Rightarrow> 'a session res \<times> 'a session_set" where
  "get_session i ss =
     (case find_session i ss of (None, ss) \<Rightarrow> (Inl Runtime_error, ss) | (Some s, ss) \<Rightarrow> (Inr s, ss))"

text \<open>The argument \<open>fresh\<close> is the identifier a new session would get.\<close>

definition get_or_make :: "bool \<Rightarrow> string \<Rightarrow> string \<Rightarrow> 'a session_set \<Rightarrow> 'a session \<times> 'a session_set" where
  "get_or_make early fresh i ss =
     (case find_session i ss of (None, ss) \<Rightarrow> make_session early fresh ss | (Some s, ss) \<Rightarrow> (s, ss))"

definition set_cookie_key :: "string \<Rightarrow> 'a session_set \<Rightarrow> 'a session_set res" where
  "set_cookie_key key ss = (if key = [] then Inl Runtime_error else Inr (ss\<lparr>ss_cookie_key := key\<rparr>))"

text \<open>A coroutine is resumed; when its session has timed out, the handler erases it.\<close>

definition resume_session :: "nat \<Rightarrow> string \<Rightarrow> 'a session_set \<Rightarrow> 'a session_set" where
  "resume_session now i ss =
     (case map_of (ss_map ss) i of
        None \<Rightarrow> ss
      | Some s \<Rightarrow>
          (case resume now s of
             Some s \<Rightarrow> ss\<lparr>ss_map := map_put (ss_map ss) i s\<rparr>
           | None \<Rightarrow> erase_session i ss))"

definition change_session :: "string \<Rightarrow> ('a session \<Rightarrow> 'a session) \<Rightarrow> 'a session_set \<Rightarrow> 'a session_set" where
  "change_session i f ss =
     (case map_of (ss_map ss) i of None \<Rightarrow> ss | Some s \<Rightarrow> ss\<lparr>ss_map := map_put (ss_map ss) i (f s)\<rparr>)"

section \<open>Runs\<close>

text \<open>
  The states that can be reached, with the time, the time each session was touched last
  (made, found, expanded or given a lifecycle), and the sessions that were invalidated and
  not touched since.
\<close>

inductive sessions_run :: "nat \<Rightarrow> 'a session_set \<Rightarrow> (string \<Rightarrow> nat) \<Rightarrow> string set \<Rightarrow> bool" where
  run_start: "sessions_run 0 (new_session_set\<lparr>ss_lifecycle := n\<rparr>) (\<lambda>_. 0) {}"
| run_make: "sessions_run now ss touched dropped \<Longrightarrow> map_of (ss_map ss) i = None \<Longrightarrow>
    sessions_run now (snd (make_session early i ss)) (touched(i := now)) (dropped - {i})"
| run_find: "sessions_run now ss touched dropped \<Longrightarrow>
    sessions_run now (snd (find_session i ss)) (touched(i := now)) (dropped - {i})"
| run_expand_by: "sessions_run now ss touched dropped \<Longrightarrow>
    sessions_run now (change_session i (expand_by d) ss) (touched(i := now)) (dropped - {i})"
| run_lifecycle: "sessions_run now ss touched dropped \<Longrightarrow>
    sessions_run now (change_session i (set_lifecycle d) ss) (touched(i := now)) (dropped - {i})"
| run_attribute: "sessions_run now ss touched dropped \<Longrightarrow>
    sessions_run now (change_session i (session_set_attribute key v) ss) touched dropped"
| run_invalidate: "sessions_run now ss touched dropped \<Longrightarrow>
    sessions_run now (change_session i invalidate ss) touched (insert i dropped)"
| run_resume: "sessions_run now ss touched dropped \<Longrightarrow> map_of (ss_map ss) i = Some s \<Longrightarrow> can_resume now s \<Longrightarrow>
    sessions_run now (resume_session now i ss) touched dropped"
| run_tick: "sessions_run now ss touched dropped \<Longrightarrow> sessions_run (now + d) ss touched dropped"

text \<open>What holds of a session in the set.\<close>

definition session_ok :: "nat \<Rightarrow> (string \<Rightarrow> nat) \<Rightarrow> string set \<Rightarrow> string \<Rightarrow> 'a session \<Rightarrow> bool" where
  "session_ok now touched dropped i s \<longleftrightarrow>
     s_id s = i \<and> \<not> s_valid s \<and> touched i \<le> now \<and>
     (s_restart s \<or> i \<in> dropped \<or>
      (case s_wait s of Waiting t \<Rightarrow> touched i + unat (s_second s) \<le> t | Cancelled \<Rightarrow> False | _ \<Rightarrow> True))"

definition set_ok :: "nat \<Rightarrow> 'a session_set \<Rightarrow> (string \<Rightarrow> nat) \<Rightarrow> string set \<Rightarrow> bool" where
  "set_ok now ss touched dropped \<longleftrightarrow>
     sorted_keys (ss_map ss) \<and> (\<forall>i s. map_of (ss_map ss) i = Some s \<longrightarrow> session_ok now touched dropped i s)"

lemma touch_ok:
  "s_id s = i \<Longrightarrow> \<not> s_valid s \<Longrightarrow> session_ok now (touched(i := now)) dropped i (expand s)"
  by (simp add: session_ok_def expand_def timer_cancel_def split: session_wait.split)

lemma session_ok_cong:
  "session_ok now touched dropped i s \<Longrightarrow> touched' i = touched i \<Longrightarrow> (i \<in> dropped \<Longrightarrow> i \<in> dropped') \<Longrightarrow>
   session_ok now touched' dropped' i s"
  by (cases "s_wait s") (auto simp: session_ok_def)

lemma set_ok_put:
  assumes "set_ok now ss touched dropped" "session_ok now touched' dropped' i s"
    and "\<And>j. j \<noteq> i \<Longrightarrow> touched' j = touched j \<and> (j \<in> dropped \<longrightarrow> j \<in> dropped')"
  shows "set_ok now (ss\<lparr>ss_map := map_put (ss_map ss) i s\<rparr>) touched' dropped'"
  using assms by (auto simp: set_ok_def intro: session_ok_cong)

lemma set_ok_other:
  "set_ok now ss touched dropped \<Longrightarrow> map_of (ss_map ss) i = None \<Longrightarrow> (\<And>j. j \<noteq> i \<Longrightarrow> touched' j = touched j) \<Longrightarrow>
   (\<And>j. j \<noteq> i \<Longrightarrow> j \<in> dropped \<Longrightarrow> j \<in> dropped') \<Longrightarrow> set_ok now ss touched' dropped'"
  unfolding set_ok_def by (metis option.distinct(1) session_ok_cong)

lemma set_ok_change:
  assumes "set_ok now ss touched dropped"
    and "\<And>s. map_of (ss_map ss) i = Some s \<Longrightarrow> session_ok now touched dropped i s \<Longrightarrow> session_ok now touched' dropped' i (f s)"
    and "\<And>j. j \<noteq> i \<Longrightarrow> touched' j = touched j" "\<And>j. j \<noteq> i \<Longrightarrow> j \<in> dropped \<Longrightarrow> j \<in> dropped'"
  shows "set_ok now (change_session i f ss) touched' dropped'"
proof (cases "map_of (ss_map ss) i")
  case None
  then show ?thesis using set_ok_other [OF assms(1) None, of touched' dropped'] assms(3,4)
    by (simp add: change_session_def)
next
  case (Some s)
  moreover have "session_ok now touched dropped i s" using assms(1) Some by (simp add: set_ok_def)
  ultimately show ?thesis
    using set_ok_put [OF assms(1) assms(2)] assms(3,4) by (simp add: change_session_def)
qed

lemma map_of_erase: "map_of (filter (\<lambda>x. fst x \<noteq> i) m) j = (if j = i then None else map_of m j)"
  by (induction m) auto

lemma set_ok_erase: "set_ok now ss touched dropped \<Longrightarrow> set_ok now (erase_session i ss) touched dropped"
  by (auto simp: set_ok_def erase_session_def map_of_erase sorted_keys_def sorted_wrt_map sorted_wrt_filter split: if_splits)

lemma session_okD:
  "session_ok now touched dropped i s \<Longrightarrow> s_id s = i \<and> \<not> s_valid s"
  by (simp add: session_ok_def)

lemma find_change: "snd (find_session i ss) = change_session i expand ss"
  by (simp add: find_session_def change_session_def split: option.split)

lemma set_ok_touch:
  assumes "set_ok now ss touched dropped"
    and "\<And>s. s_id (f s) = s_id s \<and> s_valid (f s) = s_valid s"
  shows "set_ok now (change_session i (\<lambda>s. expand (f s)) ss) (touched(i := now)) (dropped - {i})"
proof (rule set_ok_change [OF assms(1)])
  fix s :: "'a session"
  assume "session_ok now touched dropped i s"
  from session_okD [OF this] show "session_ok now (touched(i := now)) (dropped - {i}) i (expand (f s))"
    using assms(2) [of s] by (intro touch_ok) auto
qed simp_all

lemma set_ok_run: "sessions_run now ss touched dropped \<Longrightarrow> set_ok now ss touched dropped"
proof (induction rule: sessions_run.induct)
  case (run_start n)
  then show ?case by (simp add: set_ok_def new_session_set_def sorted_keys_def)
next
  case (run_make now ss touched dropped i early)
  let ?s = "set_lifecycle (ss_lifecycle ss) (new_session early i 60) :: 'a session"
  have s: "s_id ?s = i" and "session_ok now (touched(i := now)) (dropped - {i}) i ?s"
    by (simp_all add: set_lifecycle_def expand_def timer_cancel_def new_session_def session_ok_def)
  from set_ok_put [OF run_make.IH this(2)] show ?case
    using run_make.hyps(2) s by (simp add: make_session_def emplace_session_def Let_def fun_upd_def)
next
  case (run_find now ss touched dropped i)
  then show ?case unfolding find_change using set_ok_touch [of now ss touched dropped "\<lambda>s. s"] by (simp add: fun_upd_def)
next
  case (run_expand_by now ss touched dropped i d)
  then show ?case
    using set_ok_touch [of now ss touched dropped "\<lambda>s. s\<lparr>s_second := s_second s + d\<rparr>"] by (simp add: expand_by_def [abs_def] fun_upd_def)
next
  case (run_lifecycle now ss touched dropped i d)
  then show ?case
    using set_ok_touch [of now ss touched dropped "\<lambda>s. s\<lparr>s_second := (if d = 0 then 1 else d)\<rparr>"]
    by (simp add: set_lifecycle_def [abs_def] fun_upd_def)
next
  case (run_attribute now ss touched dropped i key v)
  show ?case
    by (rule set_ok_change [OF run_attribute.IH]) (auto simp: session_ok_def session_set_attribute_def split: session_wait.splits)
next
  case (run_invalidate now ss touched dropped i)
  show ?case
    by (rule set_ok_change [OF run_invalidate.IH])
      (auto simp: session_ok_def invalidate_def timer_cancel_def split: session_wait.split)
next
  case (run_resume now ss touched dropped i s)
  then have "session_ok now touched dropped i s" by (simp add: set_ok_def)
  then have "session_ok now touched dropped i (wait_again now s)"
    by (auto simp: session_ok_def wait_again_def)
  then show ?case
    using \<open>session_ok now touched dropped i s\<close> run_resume set_ok_put [OF run_resume.IH] set_ok_erase [OF run_resume.IH, of i]
    by (auto simp: resume_session_def resume_def)
next
  case (run_tick now ss touched dropped d)
  then show ?case by (fastforce simp: set_ok_def session_ok_def)
qed

text \<open>A set with one session, which has just been made.\<close>

definition sample_session :: "nat session" where
  "sample_session = \<lparr>s_id = ''a'', s_attributes = [], s_second = 60, s_valid = False, s_restart = True, s_wait = Dispatched\<rparr>"

definition sample_sessions :: "nat session_set" where
  "sample_sessions = \<lparr>ss_lifecycle = 60, ss_cookie_key = ''session'', ss_map = [(''a'', sample_session)]\<rparr>"

lemma sample_sessions:
  "map_of (ss_map sample_sessions) ''a'' = Some sample_session"
  "sessions_run 0 sample_sessions ((\<lambda>_. 0)(''a'' := 0)) ({} - {''a''})"
proof -
  show "map_of (ss_map sample_sessions) ''a'' = Some sample_session" by (simp add: sample_sessions_def)
  have "snd (make_session False ''a'' ((new_session_set :: nat session_set)\<lparr>ss_lifecycle := 60\<rparr>)) = sample_sessions"
    by (simp add: make_session_def new_session_set_def emplace_session_def set_lifecycle_def new_session_def expand_def
        timer_cancel_def sample_sessions_def sample_session_def Let_def)
  then show "sessions_run 0 sample_sessions ((\<lambda>_. 0)(''a'' := 0)) ({} - {''a''})"
    using run_make [OF run_start [where n = 60 and 'a = nat], where i = "''a''" and early = False] by (simp add: new_session_set_def)
qed

section \<open>Properties\<close>

text \<open>C21.
  A session that is not invalidated lives as long as it should: when its coroutine takes it
  out of the set, its lifecycle has passed since it was last touched.
\<close>

theorem session_kept:
  assumes "sessions_run now ss touched dropped" "map_of (ss_map ss) i = Some s" "can_resume now s"
    and "map_of (ss_map (resume_session now i ss)) i = None" "i \<notin> dropped"
  shows "touched i + unat (s_second s) \<le> now"
proof -
  have ok: "session_ok now touched dropped i s" using set_ok_run [OF assms(1)] assms(2) by (simp add: set_ok_def)
  have "\<not> s_restart s" "s_wait s \<noteq> Dispatched"
    using assms(2,4) by (auto simp: resume_session_def resume_def split: if_splits)
  then show ?thesis using ok assms(3,5) by (cases "s_wait s") (auto simp: session_ok_def can_resume_def)
qed

theorem session_kept_witness:
  "map_of (ss_map (resume_session 60 ''a'' (resume_session 0 ''a'' sample_sessions))) ''a'' = None \<and> (0::nat) + 60 \<le> 60"
proof -
  let ?ss = "resume_session 0 ''a'' sample_sessions" and ?s = "wait_again 0 sample_session"
  have find: "map_of (ss_map ?ss) ''a'' = Some ?s"
    by (simp add: resume_session_def sample_sessions(1) resume_def sample_session_def)
  have "sessions_run 0 ?ss ((\<lambda>_. 0)(''a'' := 0)) ({} - {''a''})"
    using run_resume [OF sample_sessions(2,1)] by (simp add: can_resume_def sample_session_def)
  from run_tick [OF this, of 60] have run: "sessions_run 60 ?ss ((\<lambda>_. 0)(''a'' := 0)) ({} - {''a''})" by simp
  have gone: "map_of (ss_map (resume_session 60 ''a'' ?ss)) ''a'' = None"
    using find by (simp add: resume_session_def resume_def wait_again_def erase_session_def map_of_erase)
  have "s_second ?s = 60" "can_resume 60 ?s" by (simp_all add: wait_again_def sample_session_def can_resume_def)
  then show ?thesis using session_kept [OF run find _ gone] gone by simp
qed

text \<open>
  A session that is not touched times out if it has a coroutine: once that has gone on
  and the lifecycle has passed after that, the coroutine takes it out of the set.
\<close>

theorem session_expires:
  assumes "map_of (ss_map ss) i = Some s" "s_wait s \<noteq> Died"
  shows "map_of (ss_map (resume_session (now + unat (s_second s)) i (resume_session now i ss))) i = None \<and>
    (\<forall>s'. map_of (ss_map (resume_session now i ss)) i = Some s' \<longrightarrow> can_resume (now + unat (s_second s)) s')"
  using assms
  by (auto simp: resume_session_def resume_def wait_again_def erase_session_def map_of_erase can_resume_def)

theorem session_expires_witness:
  "map_of (ss_map (resume_session 60 ''a'' (resume_session 0 ''a'' sample_sessions))) ''a'' = None"
  using session_expires [OF sample_sessions(1), of 0] by (simp add: sample_session_def)

text \<open>
  No session is ever valid: the flag that \<^verbatim>\<open>is_valid\<close> reads is never set.
\<close>

theorem session_never_valid:
  assumes "sessions_run now ss touched dropped" "map_of (ss_map ss) i = Some s"
  shows "\<not> s_valid s"
  using set_ok_run [OF assms(1)] assms(2) by (auto simp: set_ok_def session_ok_def)

theorem session_never_valid_witness: "\<not> s_valid sample_session"
  by (rule session_never_valid [OF sample_sessions(2,1)])

text \<open>
  Invalidating a session that has just been touched does nothing: the coroutine sees that it
  should wait again.
\<close>

lemma invalidate_lost: "s_wait s \<noteq> Died \<Longrightarrow> resume now (invalidate (expand s)) = Some (wait_again now (invalidate (expand s)))"
  by (auto simp: resume_def invalidate_def expand_def timer_cancel_def split: session_wait.splits)

end
