(* ===== verification/Lock_Free_Queue.thy ===== *)
theory Lock_Free_Queue
  imports Prelude
begin

text \<open>
  The lock-free queue (\<^verbatim>\<open>libgs/core/detail/lock_free_queue.h\<close>): a linked list whose first node
  is a dummy, with atomic pointers to its two ends. Every atomic access of a thread is one
  step; a thread is where it stands in \<^verbatim>\<open>emplace\<close> or \<^verbatim>\<open>dequeue\<close> with its local variables.
  A step is a function of the thread that makes it, so a schedule is a list of threads.
  Memory is a map from addresses to the nodes that are alive; \<^verbatim>\<open>new\<close> takes an address that
  was never used. An access to a node that is not alive sets \<open>q_fault\<close>. What \<^verbatim>\<open>std::move\<close>
  leaves behind depends on the type of the elements and is the parameter \<open>moved\<close>.
  \<^verbatim>\<open>compare_exchange_weak\<close> does not fail spuriously here: that would only repeat its loop.
\<close>

section \<open>Nodes and threads\<close>

record 'a node =
  nd_data :: 'a
  nd_next :: "nat option"

datatype 'a thread =
    Idle
  | Enq_load_tail nat
  | Enq_load_next nat nat
  | Enq_link nat nat
  | Enq_swing nat nat
  | Enq_help nat nat nat
  | Enq_done
  | Deq_load_head "'a option"
  | Deq_load_tail "'a option" nat
  | Deq_load_next "'a option" nat nat
  | Deq_check "'a option" nat nat "nat option"
  | Deq_help "'a option" nat nat
  | Deq_move "'a option" nat "nat option"
  | Deq_cas "'a option" nat nat
  | Deq_delete "'a option" nat
  | Deq_done "'a option"

record 'a lfq =
  q_heap :: "nat \<Rightarrow> 'a node option"
  q_alloc :: nat
  q_head :: nat
  q_tail :: nat
  q_threads :: "nat \<Rightarrow> 'a thread"
  q_fault :: bool

definition new_queue :: "'a \<Rightarrow> 'a lfq" where
  "new_queue d =
     \<lparr>q_heap = (\<lambda>_. None)(0 := Some \<lparr>nd_data = d, nd_next = None\<rparr>), q_alloc = 1, q_head = 0, q_tail = 0,
      q_threads = (\<lambda>_. Idle), q_fault = False\<rparr>"

section \<open>Operations\<close>

definition goto :: "nat \<Rightarrow> 'a thread \<Rightarrow> 'a lfq \<Rightarrow> 'a lfq" where
  "goto i t s = s\<lparr>q_threads := (q_threads s)(i := t)\<rparr>"

text \<open>A call of \<^verbatim>\<open>emplace\<close> allocates the node; a call of \<^verbatim>\<open>dequeue\<close> starts with no data.\<close>

definition emplace :: "nat \<Rightarrow> 'a \<Rightarrow> 'a lfq \<Rightarrow> 'a lfq" where
  "emplace i v s =
     goto i (Enq_load_tail (q_alloc s))
       (s\<lparr>q_heap := (q_heap s)(q_alloc s := Some \<lparr>nd_data = v, nd_next = None\<rparr>), q_alloc := q_alloc s + 1\<rparr>)"

definition dequeue :: "nat \<Rightarrow> 'a lfq \<Rightarrow> 'a lfq" where
  "dequeue i s = goto i (Deq_load_head None) s"

definition at_node :: "nat \<Rightarrow> ('a node \<Rightarrow> 'a lfq) \<Rightarrow> 'a lfq \<Rightarrow> 'a lfq" where
  "at_node a f s = (case q_heap s a of None \<Rightarrow> s\<lparr>q_fault := True\<rparr> | Some nd \<Rightarrow> f nd)"

fun emplace_step :: "nat \<Rightarrow> 'a thread \<Rightarrow> 'a lfq \<Rightarrow> 'a lfq" where
  "emplace_step i (Enq_load_tail n) s = goto i (Enq_load_next n (q_tail s)) s"
| "emplace_step i (Enq_load_next n tail) s =
     at_node tail (\<lambda>nd. case nd_next nd of
         None \<Rightarrow> goto i (Enq_link n tail) s
       | Some next \<Rightarrow> goto i (Enq_help n tail next) s) s"
| "emplace_step i (Enq_link n tail) s =
     at_node tail (\<lambda>nd. case nd_next nd of
         None \<Rightarrow> goto i (Enq_swing n tail) (s\<lparr>q_heap := (q_heap s)(tail := Some (nd\<lparr>nd_next := Some n\<rparr>))\<rparr>)
       | Some _ \<Rightarrow> goto i (Enq_load_next n tail) s) s"
| "emplace_step i (Enq_swing n tail) s =
     goto i Enq_done (if q_tail s = tail then s\<lparr>q_tail := n\<rparr> else s)"
| "emplace_step i (Enq_help n tail next) s =
     (if q_tail s = tail then goto i (Enq_load_next n tail) (s\<lparr>q_tail := next\<rparr>)
      else goto i (Enq_load_next n (q_tail s)) s)"
| "emplace_step i _ s = s"

fun dequeue_step :: "('a \<Rightarrow> 'a) \<Rightarrow> nat \<Rightarrow> 'a thread \<Rightarrow> 'a lfq \<Rightarrow> 'a lfq" where
  "dequeue_step moved i (Deq_load_head d) s = goto i (Deq_load_tail d (q_head s)) s"
| "dequeue_step moved i (Deq_load_tail d head) s = goto i (Deq_load_next d head (q_tail s)) s"
| "dequeue_step moved i (Deq_load_next d head tail) s =
     at_node head (\<lambda>nd. goto i (Deq_check d head tail (nd_next nd)) s) s"
| "dequeue_step moved i (Deq_check d head tail next) s =
     (if head \<noteq> q_head s then goto i (Deq_load_head d) s
      else if head = tail then
        (case next of None \<Rightarrow> goto i (Deq_done d) s | Some n \<Rightarrow> goto i (Deq_help d tail n) s)
      else goto i (Deq_move d head next) s)"
| "dequeue_step moved i (Deq_help d tail next) s =
     goto i (Deq_load_head d) (if q_tail s = tail then s\<lparr>q_tail := next\<rparr> else s)"
| "dequeue_step moved i (Deq_move d head next) s =
     (case next of
        None \<Rightarrow> s\<lparr>q_fault := True\<rparr>
      | Some n \<Rightarrow>
          at_node n (\<lambda>nd. goto i (Deq_cas (Some (nd_data nd)) head n)
            (s\<lparr>q_heap := (q_heap s)(n := Some (nd\<lparr>nd_data := moved (nd_data nd)\<rparr>))\<rparr>)) s)"
| "dequeue_step moved i (Deq_cas d head next) s =
     (if q_head s = head then goto i (Deq_delete d head) (s\<lparr>q_head := next\<rparr>)
      else goto i (Deq_load_head d) s)"
| "dequeue_step moved i (Deq_delete d head) s =
     at_node head (\<lambda>nd. goto i (Deq_done d) (s\<lparr>q_heap := (q_heap s)(head := None)\<rparr>)) s"
| "dequeue_step moved i _ s = s"

definition is_enq :: "'a thread \<Rightarrow> bool" where
  "is_enq t = (case t of Enq_load_tail _ \<Rightarrow> True | Enq_load_next _ _ \<Rightarrow> True | Enq_link _ _ \<Rightarrow> True
     | Enq_swing _ _ \<Rightarrow> True | Enq_help _ _ _ \<Rightarrow> True | _ \<Rightarrow> False)"

text \<open>The next atomic access of thread \<open>i\<close>, and a schedule of such.\<close>

definition lf_step :: "('a \<Rightarrow> 'a) \<Rightarrow> nat \<Rightarrow> 'a lfq \<Rightarrow> 'a lfq" where
  "lf_step moved i s =
     (let t = q_threads s i in if is_enq t then emplace_step i t s else dequeue_step moved i t s)"

definition lf_run :: "('a \<Rightarrow> 'a) \<Rightarrow> nat list \<Rightarrow> 'a lfq \<Rightarrow> 'a lfq" where
  "lf_run moved sched s = foldl (\<lambda>s i. lf_step moved i s) s sched"

text \<open>A thread that is alone: one call from its start to its end.\<close>

definition enqueue_alone :: "('a \<Rightarrow> 'a) \<Rightarrow> 'a \<Rightarrow> 'a lfq \<Rightarrow> 'a lfq" where
  "enqueue_alone moved v s = lf_run moved (replicate 4 0) (emplace 0 v s)"


section \<open>The list a queue holds\<close>

fun path :: "(nat \<Rightarrow> 'a node option) \<Rightarrow> nat \<Rightarrow> nat list \<Rightarrow> bool" where
  "path h a [] \<longleftrightarrow> (\<exists>nd. h a = Some nd \<and> nd_next nd = None)"
| "path h a (b # bs) \<longleftrightarrow> (\<exists>nd. h a = Some nd \<and> nd_next nd = Some b) \<and> path h b bs"

text \<open>
  The nodes behind the dummy are \<open>bs\<close>, and \<open>tail\<close> points to one of them or to the dummy.
\<close>

definition linked :: "'a lfq \<Rightarrow> nat list \<Rightarrow> bool" where
  "linked s bs \<longleftrightarrow> path (q_heap s) (q_head s) bs \<and> distinct (q_head s # bs) \<and>
     q_tail s \<in> set (q_head s # bs) \<and> (\<forall>a. q_alloc s \<le> a \<longrightarrow> q_heap s a = None)"

definition contents :: "'a lfq \<Rightarrow> nat list \<Rightarrow> 'a list" where
  "contents s bs = map (\<lambda>b. nd_data (the (q_heap s b))) bs"

lemma contents_cong:
  "(\<And>b. b \<in> set bs \<Longrightarrow> nd_data (the (q_heap s' b)) = nd_data (the (q_heap s b))) \<Longrightarrow> contents s' bs = contents s bs"
  by (simp add: contents_def)

lemma path_alive: "path h a bs \<Longrightarrow> x \<in> set (a # bs) \<Longrightarrow> h x \<noteq> None"
  by (induction h a bs rule: path.induct) auto


lemma path_update: "x \<notin> set (a # bs) \<Longrightarrow> path (h(x := y)) a bs \<longleftrightarrow> path h a bs"
  by (induction h a bs rule: path.induct) auto

lemma path_next:
  "path h a bs \<Longrightarrow> x \<in> set (a # bs) \<Longrightarrow> h x = Some nd \<Longrightarrow>
   (case nd_next nd of None \<Rightarrow> x = last (a # bs) | Some y \<Rightarrow> y \<in> set bs)"
  by (induction h a bs rule: path.induct) (auto split: option.splits)

lemma path_append:
  "path h a bs \<Longrightarrow> distinct (a # bs) \<Longrightarrow> h (last (a # bs)) = Some nd \<Longrightarrow> n \<notin> set (a # bs) \<Longrightarrow>
   h n = Some m \<Longrightarrow> nd_next m = None \<Longrightarrow>
   path (h(last (a # bs) := Some (nd\<lparr>nd_next := Some n\<rparr>))) a (bs @ [n])"
proof (induction h a bs rule: path.induct)
  case (2 h a b bs)
  have "a \<noteq> last (b # bs)" using 2(3) by (metis distinct.simps(2) last_in_set list.discI)
  with 2 show ?case by auto
qed auto

section \<open>One thread: a queue\<close>






lemma run_Nil [simp]: "lf_run moved [] s = s"
  by (simp add: lf_run_def)

lemma run_Cons [simp]: "lf_run moved (i # is) s = lf_run moved is (lf_step moved i s)"
  by (simp add: lf_run_def)

lemma goto_simps [simp]:
  "q_threads (goto i t s) = (q_threads s)(i := t)" "q_heap (goto i t s) = q_heap s"
  "q_head (goto i t s) = q_head s" "q_tail (goto i t s) = q_tail s" "q_alloc (goto i t s) = q_alloc s"
  "q_fault (goto i t s) = q_fault s"
  by (simp_all add: goto_def)

lemma enqueue_alone_steps:
  assumes "q_tail s = t" "q_heap s t = Some nd" "nd_next nd = None" "q_alloc s \<noteq> t"
  shows "enqueue_alone moved v s = goto 0 Enq_done (s\<lparr>q_heap := (q_heap s)
      (q_alloc s := Some \<lparr>nd_data = v, nd_next = None\<rparr>, t := Some (nd\<lparr>nd_next := Some (q_alloc s)\<rparr>)),
    q_alloc := q_alloc s + 1, q_tail := q_alloc s\<rparr>)"
  using assms
  by (simp add: enqueue_alone_def emplace_def numeral_eq_Suc lf_step_def is_enq_def at_node_def)






section \<open>Many producers\<close>

text \<open>
  The node a thread has allocated and not yet linked, and what its local pointers are.
\<close>

definition own :: "'a thread \<Rightarrow> nat option" where
  "own t = (case t of Enq_load_tail n \<Rightarrow> Some n | Enq_load_next n _ \<Rightarrow> Some n | Enq_link n _ \<Rightarrow> Some n
     | Enq_help n _ _ \<Rightarrow> Some n | _ \<Rightarrow> None)"

definition pointers :: "'a thread \<Rightarrow> nat list" where
  "pointers t = (case t of Enq_load_next n ta \<Rightarrow> [ta] | Enq_link n ta \<Rightarrow> [ta]
     | Enq_help n ta nx \<Rightarrow> [ta, nx] | Enq_swing n ta \<Rightarrow> [n, ta] | _ \<Rightarrow> [])"

definition producing :: "'a thread \<Rightarrow> bool" where
  "producing t \<longleftrightarrow> is_enq t \<or> t = Idle \<or> t = Enq_done"

definition thread_inv :: "'a lfq \<Rightarrow> nat list \<Rightarrow> (nat \<times> 'a) list \<Rightarrow> (nat \<Rightarrow> 'a) \<Rightarrow> nat \<Rightarrow> bool" where
  "thread_inv s bs log want i \<longleftrightarrow>
     producing (q_threads s i) \<and> set (pointers (q_threads s i)) \<subseteq> set (q_head s # bs) \<and>
     (\<forall>n. own (q_threads s i) = Some n \<longrightarrow>
        n \<notin> set (q_head s # bs) \<and> q_heap s n = Some \<lparr>nd_data = want i, nd_next = None\<rparr>) \<and>
     (own (q_threads s i) = None \<and> q_threads s i \<noteq> Idle \<longrightarrow> (i, want i) \<in> set log)"

definition apart :: "'a lfq \<Rightarrow> bool" where
  "apart s \<longleftrightarrow> (\<forall>i j n. own (q_threads s i) = Some n \<longrightarrow> own (q_threads s j) = Some n \<longrightarrow> i = j)"

definition prod_inv :: "'a lfq \<Rightarrow> nat list \<Rightarrow> (nat \<times> 'a) list \<Rightarrow> (nat \<Rightarrow> 'a) \<Rightarrow> bool" where
  "prod_inv s bs log want \<longleftrightarrow> linked s bs \<and> \<not> q_fault s \<and> contents s bs = map snd log \<and>
     apart s \<and> (\<forall>i. thread_inv s bs log want i)"

lemma prod_invD:
  assumes "prod_inv s bs log want"
  shows "linked s bs" "\<not> q_fault s" "contents s bs = map snd log" "apart s" "thread_inv s bs log want i"
  using assms by (simp_all add: prod_inv_def)

text \<open>What a step of thread \<open>i\<close> puts into the queue.\<close>

definition links :: "'a lfq \<Rightarrow> nat \<Rightarrow> (nat \<times> 'a) list" where
  "links s i = (case q_threads s i of
     Enq_link n ta \<Rightarrow> (case q_heap s ta of
         None \<Rightarrow> []
       | Some nd \<Rightarrow> if nd_next nd = None then [(i, nd_data (the (q_heap s n)))] else [])
   | _ \<Rightarrow> [])"

inductive producers :: "('a \<Rightarrow> 'a) \<Rightarrow> 'a \<Rightarrow> 'a lfq \<Rightarrow> (nat \<times> 'a) list \<Rightarrow> (nat \<Rightarrow> 'a) \<Rightarrow> bool" for moved d where
  start: "producers moved d (new_queue d) [] want"
| call: "producers moved d s log want \<Longrightarrow> q_threads s i = Idle \<or> q_threads s i = Enq_done \<Longrightarrow>
    producers moved d (emplace i v s) log (want(i := v))"
| step: "producers moved d s log want \<Longrightarrow> is_enq (q_threads s i) \<Longrightarrow>
    producers moved d (lf_step moved i s) (log @ links s i) want"

lemma own_enq: "own t = Some n \<Longrightarrow> is_enq t"
  by (cases t) (auto simp: own_def is_enq_def)

text \<open>A step that only moves thread \<open>i\<close>, keeping its node, or moves the tail along the list.\<close>

lemma prod_inv_goto:
  assumes inv: "prod_inv s bs log want" and t: "own t = own (q_threads s i)" "producing t"
    and fin: "own t \<noteq> None \<or> (i, want i) \<in> set log"
    and p: "set (pointers t) \<subseteq> set (q_head s # bs)" and q: "q' \<in> set (q_head s # bs)"
  shows "prod_inv (goto i t (s\<lparr>q_tail := q'\<rparr>)) bs log want"
  unfolding prod_inv_def
proof (intro conjI allI)
  let ?s = "goto i t (s\<lparr>q_tail := q'\<rparr>)"
  show "linked ?s bs" using prod_invD(1) [OF inv] q by (simp add: linked_def)
  show "\<not> q_fault ?s" "contents ?s bs = map snd log"
    using prod_invD(2,3) [OF inv] by (simp_all add: contents_def)
  have "own (q_threads ?s j) = own (q_threads s j)" for j using t(1) by simp
  then show "apart ?s" using prod_invD(4) [OF inv] by (simp only: apart_def)
  fix j
  show "thread_inv ?s bs log want j"
    using prod_invD(5) [OF inv, of j] t fin p by (cases "j = i") (auto simp: thread_inv_def)
qed

lemma prod_inv_link:
  assumes inv: "prod_inv s bs log want" and t: "q_threads s i = Enq_link n ta"
    and nd: "q_heap s ta = Some nd" "nd_next nd = None"
  shows "prod_inv (goto i (Enq_swing n ta) (s\<lparr>q_heap := (q_heap s)(ta := Some (nd\<lparr>nd_next := Some n\<rparr>))\<rparr>))
    (bs @ [n]) (log @ [(i, want i)]) want"
  unfolding prod_inv_def
proof (intro conjI allI)
  let ?s = "goto i (Enq_swing n ta) (s\<lparr>q_heap := (q_heap s)(ta := Some (nd\<lparr>nd_next := Some n\<rparr>))\<rparr>)"
  note l = prod_invD(1) [OF inv]
  have own: "own (q_threads s i) = Some n" by (simp add: t own_def)
  have ta: "ta \<in> set (q_head s # bs)"
    and n: "n \<notin> set (q_head s # bs)" "q_heap s n = Some \<lparr>nd_data = want i, nd_next = None\<rparr>"
    using prod_invD(5) [OF inv, of i] by (auto simp: thread_inv_def t own_def pointers_def)
  have path: "path (q_heap s) (q_head s) bs" "distinct (q_head s # bs)" using l by (simp_all add: linked_def)
  have last: "ta = last (q_head s # bs)" using path_next [OF path(1) ta nd(1)] nd(2) by simp
  have "path (q_heap ?s) (q_head s) (bs @ [n])"
    using path_append [OF path, of nd n] nd n by (simp add: last)
  then show "linked ?s (bs @ [n])"
    using l n(1) nd(1) by (auto simp: linked_def)
  show "\<not> q_fault ?s" using prod_invD(2) [OF inv] by simp
  have "contents ?s bs = contents s bs" using nd(1) by (intro contents_cong) auto
  moreover have "nd_data (the (q_heap ?s n)) = want i" using n ta by auto
  ultimately show "contents ?s (bs @ [n]) = map snd (log @ [(i, want i)])"
    using prod_invD(3) [OF inv] unfolding contents_def by simp
  show "apart ?s" using prod_invD(4) [OF inv] by (auto simp: apart_def own_def [of "Enq_swing n ta"])
  fix j
  show "thread_inv ?s (bs @ [n]) (log @ [(i, want i)]) want j"
  proof (cases "j = i")
    case True
    then show ?thesis
      using n ta by (auto simp: thread_inv_def own_def pointers_def producing_def is_enq_def)
  next
    case False
    then have "own (q_threads s j) \<noteq> Some n" using prod_invD(4) [OF inv] own by (auto simp: apart_def)
    then show ?thesis
      using prod_invD(5) [OF inv, of j] False ta by (auto simp: thread_inv_def)
  qed
qed

lemma prod_inv_call:
  assumes inv: "prod_inv s bs log want" and t: "q_threads s i = Idle \<or> q_threads s i = Enq_done"
  shows "prod_inv (emplace i v s) bs log (want(i := v))"
  unfolding prod_inv_def
proof (intro conjI allI)
  let ?n = "q_alloc s"
  note l = prod_invD(1) [OF inv]
  have path: "path (q_heap s) (q_head s) bs" using l by (simp add: linked_def)
  have none: "q_heap s ?n = None" using l by (simp add: linked_def)
  then have n: "?n \<notin> set (q_head s # bs)" using path_alive [OF path] by metis
  show "linked (emplace i v s) bs"
    using l n path by (auto simp: linked_def emplace_def path_update)
  show "\<not> q_fault (emplace i v s)" using prod_invD(2) [OF inv] by (simp add: emplace_def)
  have "contents (emplace i v s) bs = contents s bs"
    using n by (intro contents_cong) (auto simp: emplace_def)
  then show "contents (emplace i v s) bs = map snd log" using prod_invD(3) [OF inv] by simp
  have fresh: "own (q_threads s j) \<noteq> Some ?n" for j
    using prod_invD(5) [OF inv, of j] none by (auto simp: thread_inv_def)
  show "apart (emplace i v s)"
    using prod_invD(4) [OF inv] fresh by (auto simp: apart_def emplace_def own_def [of "Enq_load_tail _"])
  fix j
  show "thread_inv (emplace i v s) bs log (want(i := v)) j"
    using prod_invD(5) [OF inv, of j] n fresh [of j]
    by (cases "j = i") (auto simp: thread_inv_def emplace_def own_def pointers_def producing_def is_enq_def)
qed

lemma at_node_Some: "q_heap s a = Some nd \<Longrightarrow> at_node a f s = f nd"
  by (simp add: at_node_def)

lemma prod_inv_step:
  assumes inv: "prod_inv s bs log want" and enq: "is_enq (q_threads s i)"
  shows "\<exists>bs. prod_inv (lf_step moved i s) bs (log @ links s i) want"
proof -
  note l = prod_invD(1) [OF inv]
  have path: "path (q_heap s) (q_head s) bs" and tail: "q_tail s \<in> set (q_head s # bs)"
    using l by (simp_all add: linked_def)
  have same: "s\<lparr>q_tail := q_tail s\<rparr> = s" by simp
  note keep = prod_inv_goto [OF inv, where i = i and q' = "q_tail s", unfolded same, OF _ _ _ _ tail]
  note ok = prod_invD(5) [OF inv, of i]
  have step: "lf_step moved i s = emplace_step i (q_threads s i) s" using enq by (simp add: lf_step_def)
  show ?thesis
  proof (cases "q_threads s i")
    case (Enq_load_tail n)
    then show ?thesis
      using keep [of "Enq_load_next n (q_tail s)"] tail
      by (auto simp: step links_def own_def pointers_def producing_def is_enq_def)
  next
    case (Enq_load_next n ta)
    then have ta: "ta \<in> set (q_head s # bs)" using ok by (simp add: thread_inv_def pointers_def)
    then obtain nd where nd: "q_heap s ta = Some nd" using path_alive [OF path] by blast
    have "nx \<in> set (q_head s # bs)" if "nd_next nd = Some nx" for nx
      using path_next [OF path ta nd] that by simp
    then show ?thesis
      using keep [of "Enq_link n ta"] keep [of "Enq_help n ta (the (nd_next nd))"] ta Enq_load_next
      by (cases "nd_next nd")
        (auto simp: step at_node_Some [OF nd] links_def own_def pointers_def producing_def is_enq_def)
  next
    case (Enq_link n ta)
    then have ta: "ta \<in> set (q_head s # bs)"
      and n: "q_heap s n = Some \<lparr>nd_data = want i, nd_next = None\<rparr>"
      using ok by (simp_all add: thread_inv_def pointers_def own_def)
    then obtain nd where nd: "q_heap s ta = Some nd" using path_alive [OF path] by blast
    show ?thesis
    proof (cases "nd_next nd")
      case None
      then have "links s i = [(i, want i)]" using Enq_link nd n by (simp add: links_def)
      with prod_inv_link [OF inv Enq_link nd None] None show ?thesis
        by (auto simp: step Enq_link at_node_Some [OF nd])
    next
      case (Some nx)
      then show ?thesis
        using keep [of "Enq_load_next n ta"] ta Enq_link nd
        by (auto simp: step at_node_Some [OF nd] links_def own_def pointers_def producing_def is_enq_def)
    qed
  next
    case (Enq_swing n ta)
    then have "n \<in> set (q_head s # bs)" "(i, want i) \<in> set log"
      using ok by (simp_all add: thread_inv_def pointers_def own_def)
    then show ?thesis
      using prod_inv_goto [OF inv, where i = i and t = Enq_done and q' = n] keep [of Enq_done] Enq_swing
      by (auto simp: step links_def own_def pointers_def producing_def)
  next
    case (Enq_help n ta nx)
    then have "nx \<in> set (q_head s # bs)" "ta \<in> set (q_head s # bs)"
      using ok by (simp_all add: thread_inv_def pointers_def)
    then show ?thesis
      using prod_inv_goto [OF inv, where i = i and t = "Enq_load_next n ta" and q' = nx]
        keep [of "Enq_load_next n (q_tail s)"] tail Enq_help
      by (auto simp: step links_def own_def pointers_def producing_def is_enq_def)
  qed (use enq in \<open>simp_all add: is_enq_def\<close>)
qed

lemma prod_inv_start: "prod_inv (new_queue d) [] [] want"
  by (simp add: prod_inv_def linked_def new_queue_def contents_def apart_def thread_inv_def own_def pointers_def
      producing_def)

lemma producers_inv: "producers moved d s log want \<Longrightarrow> \<exists>bs. prod_inv s bs log want"
proof (induction rule: producers.induct)
  case (start want)
  show ?case by (rule exI, rule prod_inv_start)
next
  case (call s log want i v)
  then obtain bs where "prod_inv s bs log want" by blast
  from prod_inv_call [OF this call.hyps(2), of v] show ?case by (rule exI)
next
  case (step s log want i)
  then obtain bs where "prod_inv s bs log want" by blast
  from prod_inv_step [OF this step.hyps(2)] show ?case .
qed

text \<open>A queue that holds one element.\<close>

definition one_element :: "'a \<Rightarrow> 'a \<Rightarrow> 'a lfq" where
  "one_element d v =
     \<lparr>q_heap = (\<lambda>_. None)(0 := Some \<lparr>nd_data = d, nd_next = Some 1\<rparr>, 1 := Some \<lparr>nd_data = v, nd_next = None\<rparr>),
      q_alloc = 2, q_head = 0, q_tail = 1, q_threads = (\<lambda>_. Idle)(0 := Enq_done), q_fault = False\<rparr>"

lemma enqueue_one: "enqueue_alone moved v (new_queue d) = one_element d v"
  by (simp add: enqueue_alone_steps [of _ 0 "\<lparr>nd_data = d, nd_next = None\<rparr>"] new_queue_def goto_def
      one_element_def fun_upd_twist)

section \<open>Properties\<close>


text \<open>C9.
  Any number of threads may enqueue at the same time, in any interleaving of their atomic
  steps: the queue holds exactly the values that were linked, in that order, a call that
  has returned has linked its value, and no freed node is touched.
\<close>

theorem producers_lose_nothing:
  assumes "producers moved d s log want"
  shows "\<exists>bs. linked s bs \<and> contents s bs = map snd log \<and> \<not> q_fault s \<and>
    list_all (\<lambda>i. if q_threads s i = Enq_done then (i, want i) \<in> set log else True) [0..<k]"
proof -
  obtain bs where inv: "prod_inv s bs log want" using producers_inv [OF assms] by blast
  have "(i, want i) \<in> set log" if "q_threads s i = Enq_done" for i
    using prod_invD(5) [OF inv, of i] that by (simp add: thread_inv_def own_def)
  then show ?thesis using prod_invD(1-3) [OF inv] by (intro exI [of _ bs]) (auto simp: list_all_iff)
qed

theorem producers_lose_nothing_witness:
  "\<exists>s :: nat lfq. producers id 0 s [] ((\<lambda>_. 0)(1 := 7)) \<and> (\<exists>bs. linked s bs \<and> contents s bs = [])"
proof -
  have "producers id 0 (emplace 1 7 (new_queue 0)) [] ((\<lambda>_. 0 :: nat)(1 := 7))"
    by (rule producers.call [OF producers.start]) (simp add: new_queue_def)
  with producers_lose_nothing [OF this, of 2] show ?thesis by fastforce
qed

text \<open>
  Two threads that dequeue at the same time can both return an element of a queue that
  holds one: the data is moved out of the node before the exchange that decides who owns
  it. One gets the value, and the other what the move left behind.
\<close>

theorem dequeue_twice:
  "let s = lf_run moved ([1, 1, 1, 1, 1] @ replicate 7 2 @ replicate 5 1)
             (dequeue 2 (dequeue 1 (enqueue_alone moved v (new_queue d))))
   in q_threads s 1 = Deq_done (Some v) \<and> q_threads s 2 = Deq_done (Some (moved v)) \<and> \<not> q_fault s"
  unfolding enqueue_one one_element_def dequeue_def
  by (simp add: goto_def numeral_eq_Suc lf_step_def is_enq_def at_node_def)

text \<open>
  A thread that has read the head pointer touches a freed node when another thread takes
  the element in between and deletes the node.
\<close>

theorem dequeue_after_free:
  "q_fault (lf_run moved ([1, 1] @ replicate 7 2 @ [1])
     (dequeue 2 (dequeue 1 (enqueue_alone moved v (new_queue d)))))"
  unfolding enqueue_one one_element_def dequeue_def
  by (simp add: goto_def numeral_eq_Suc lf_step_def is_enq_def at_node_def)

end
