(* ===== verification/Spin_Locks.thy ===== *)
theory Spin_Locks
  imports Prelude "HOL-Library.Word"
begin

text \<open>
  The spinning locks: \<^verbatim>\<open>spin_mutex\<close> (\<^verbatim>\<open>libgs/core/detail/spin_mutex.h\<close>), one atomic flag, and
  \<^verbatim>\<open>spin_shared_mutex\<close> (\<^verbatim>\<open>libgs/core/detail/shared_mutex.h\<close>), an atomic counter of readers in
  front of such a mutex. Each atomic access of a thread is one step of a relation; a thread
  may call any operation when it is outside, and the one that releases when it is inside.
\<close>

section \<open>The spinning mutex\<close>

datatype locker = Out | Spinning | Storing | Holding

record spin_mutex =
  m_flag :: bool
  m_threads :: "nat \<Rightarrow> locker"

definition new_mutex :: spin_mutex where
  "new_mutex = \<lparr>m_flag = False, m_threads = (\<lambda>_. Out)\<rparr>"

definition moves :: "nat \<Rightarrow> locker \<Rightarrow> spin_mutex \<Rightarrow> spin_mutex" where
  "moves i t s = s\<lparr>m_threads := (m_threads s)(i := t)\<rparr>"

text \<open>The atomic accesses of each operation.\<close>

definition lock_load :: "nat \<Rightarrow> spin_mutex \<Rightarrow> spin_mutex" where
  "lock_load i s = moves i (if m_flag s then Spinning else Storing) s"

definition lock_store :: "nat \<Rightarrow> spin_mutex \<Rightarrow> spin_mutex" where
  "lock_store i s = moves i Holding (s\<lparr>m_flag := True\<rparr>)"

definition try_lock :: "nat \<Rightarrow> spin_mutex \<Rightarrow> bool \<times> spin_mutex" where
  "try_lock i s = (if m_flag s then (False, s) else (True, moves i Holding (s\<lparr>m_flag := True\<rparr>)))"

definition unlock :: "nat \<Rightarrow> spin_mutex \<Rightarrow> spin_mutex" where
  "unlock i s = moves i Out (s\<lparr>m_flag := False\<rparr>)"

text \<open>
  Steps: \<open>with_lock\<close> says whether threads call \<^verbatim>\<open>lock\<close> or only \<^verbatim>\<open>try_lock\<close>. The weak exchange
  of \<^verbatim>\<open>try_lock\<close> may also fail without a reason, which leaves the state as it is.
\<close>

inductive mutex_step :: "bool \<Rightarrow> spin_mutex \<Rightarrow> spin_mutex \<Rightarrow> bool" for with_lock where
  load: "with_lock \<Longrightarrow> m_threads s i = Out \<or> m_threads s i = Spinning \<Longrightarrow> mutex_step with_lock s (lock_load i s)"
| store: "m_threads s i = Storing \<Longrightarrow> mutex_step with_lock s (lock_store i s)"
| attempt: "m_threads s i = Out \<Longrightarrow> mutex_step with_lock s (snd (try_lock i s))"
| spurious: "m_threads s i = Out \<Longrightarrow> mutex_step with_lock s s"
| release: "m_threads s i = Holding \<Longrightarrow> mutex_step with_lock s (unlock i s)"

inductive mutex_reach :: "bool \<Rightarrow> spin_mutex \<Rightarrow> bool" for with_lock where
  start: "mutex_reach with_lock new_mutex"
| step: "mutex_reach with_lock s \<Longrightarrow> mutex_step with_lock s t \<Longrightarrow> mutex_reach with_lock t"

definition exclusive :: "spin_mutex \<Rightarrow> bool" where
  "exclusive s \<longleftrightarrow> (\<forall>i j. m_threads s i = Holding \<longrightarrow> m_threads s j = Holding \<longrightarrow> i = j) \<and>
     (\<forall>i. m_threads s i = Out \<or> m_threads s i = Holding) \<and>
     ((\<exists>i. m_threads s i = Holding) \<longleftrightarrow> m_flag s)"

lemma exclusive_step: "mutex_step False s t \<Longrightarrow> exclusive s \<Longrightarrow> exclusive t"
proof (induction rule: mutex_step.induct)
  case (release s i)
  then show ?case by (auto simp: exclusive_def unlock_def moves_def)
next
  case (store s i)
  then have "Storing = Out \<or> Storing = Holding" unfolding exclusive_def by metis
  then show ?case by simp
qed (auto simp: exclusive_def try_lock_def moves_def)

lemma exclusive_reach: "mutex_reach False s \<Longrightarrow> exclusive s"
proof (induction rule: mutex_reach.induct)
  case start
  show ?case by (simp add: exclusive_def new_mutex_def)
next
  case (step s t)
  from exclusive_step [OF step(2,3)] show ?case .
qed

section \<open>The shared mutex\<close>

datatype sharer = Outside | Lock_spin | Lock_store | Writing | Count_first | Read_spin | Read_store | Reading
  | Unlock_loaded "32 word" | Unlock_release

record shared_mutex =
  s_count :: "32 word"
  s_flag :: bool
  s_threads :: "nat \<Rightarrow> sharer"

definition new_shared :: shared_mutex where
  "new_shared = \<lparr>s_count = 0, s_flag = False, s_threads = (\<lambda>_. Outside)\<rparr>"

definition shifts :: "nat \<Rightarrow> sharer \<Rightarrow> shared_mutex \<Rightarrow> shared_mutex" where
  "shifts i t s = s\<lparr>s_threads := (s_threads s)(i := t)\<rparr>"

definition shared_load :: "nat \<Rightarrow> sharer \<Rightarrow> sharer \<Rightarrow> shared_mutex \<Rightarrow> shared_mutex" where
  "shared_load i spin store s = shifts i (if s_flag s then spin else store) s"

definition write_try :: "nat \<Rightarrow> shared_mutex \<Rightarrow> bool \<times> shared_mutex" where
  "write_try i s = (if s_flag s then (False, s) else (True, shifts i Writing (s\<lparr>s_flag := True\<rparr>)))"

definition write_unlock :: "nat \<Rightarrow> shared_mutex \<Rightarrow> shared_mutex" where
  "write_unlock i s = shifts i Outside (s\<lparr>s_flag := False\<rparr>)"

text \<open>\<^verbatim>\<open>lock_shared\<close>: the first reader goes on to lock the mutex.\<close>

definition read_count :: "nat \<Rightarrow> shared_mutex \<Rightarrow> shared_mutex" where
  "read_count i s =
     (let s = s\<lparr>s_count := s_count s + 1\<rparr> in shifts i (if s_count s = 1 then Read_spin else Reading) s)"

text \<open>\<^verbatim>\<open>try_lock_shared\<close>, in its two atomic accesses.\<close>

definition try_count :: "nat \<Rightarrow> shared_mutex \<Rightarrow> shared_mutex" where
  "try_count i s =
     (let s = s\<lparr>s_count := s_count s + 1\<rparr> in shifts i (if s_count s = 1 then Count_first else Reading) s)"

definition try_first :: "nat \<Rightarrow> shared_mutex \<Rightarrow> bool \<times> shared_mutex" where
  "try_first i s =
     (if s_flag s then (False, shifts i Outside s) else (True, shifts i Reading (s\<lparr>s_flag := True\<rparr>)))"

definition unlock_load :: "nat \<Rightarrow> shared_mutex \<Rightarrow> shared_mutex" where
  "unlock_load i s = shifts i (if 0 < s_count s then Unlock_loaded (s_count s) else Outside) s"

definition unlock_count :: "nat \<Rightarrow> 32 word \<Rightarrow> shared_mutex \<Rightarrow> shared_mutex" where
  "unlock_count i counter s =
     (if s_count s = counter then shifts i Unlock_release (s\<lparr>s_count := counter - 1\<rparr>) else shifts i Outside s)"

definition unlock_release :: "nat \<Rightarrow> shared_mutex \<Rightarrow> shared_mutex" where
  "unlock_release i s = shifts i Outside (s\<lparr>s_flag := False\<rparr>)"

inductive shared_step :: "shared_mutex \<Rightarrow> shared_mutex \<Rightarrow> bool" where
  write_load: "s_threads s i = Outside \<or> s_threads s i = Lock_spin \<Longrightarrow> shared_step s (shared_load i Lock_spin Lock_store s)"
| write_store: "s_threads s i = Lock_store \<Longrightarrow> shared_step s (shifts i Writing (s\<lparr>s_flag := True\<rparr>))"
| write_attempt: "s_threads s i = Outside \<Longrightarrow> shared_step s (snd (write_try i s))"
| write_release: "s_threads s i = Writing \<Longrightarrow> shared_step s (write_unlock i s)"
| read_enter: "s_threads s i = Outside \<Longrightarrow> shared_step s (read_count i s)"
| read_load: "s_threads s i = Read_spin \<Longrightarrow> shared_step s (shared_load i Read_spin Read_store s)"
| read_store: "s_threads s i = Read_store \<Longrightarrow> shared_step s (shifts i Reading (s\<lparr>s_flag := True\<rparr>))"
| try_enter: "s_threads s i = Outside \<Longrightarrow> shared_step s (try_count i s)"
| try_lock_first: "s_threads s i = Count_first \<Longrightarrow> shared_step s (snd (try_first i s))"
| leave_load: "s_threads s i = Reading \<Longrightarrow> shared_step s (unlock_load i s)"
| leave_count: "s_threads s i = Unlock_loaded c \<Longrightarrow> shared_step s (unlock_count i c s)"
| leave_release: "s_threads s i = Unlock_release \<Longrightarrow> shared_step s (unlock_release i s)"

inductive shared_reach :: "shared_mutex \<Rightarrow> bool" where
  start: "shared_reach new_shared"
| step: "shared_reach s \<Longrightarrow> shared_step s t \<Longrightarrow> shared_reach t"

lemmas shared_defs = new_shared_def shared_load_def shifts_def write_try_def write_unlock_def read_count_def
  try_count_def try_first_def unlock_load_def unlock_count_def unlock_release_def

section \<open>Properties\<close>

text \<open>
  As long as threads take it with \<^verbatim>\<open>try_lock\<close> only, the spinning mutex excludes: no two
  threads hold it, and its flag is set exactly when one does.
\<close>

theorem try_lock_exclusive:
  assumes "mutex_reach False s"
  shows "(if m_threads s i = Holding \<and> m_threads s j = Holding then i = j else True) \<and>
    ((\<exists>i. m_threads s i = Holding) \<longleftrightarrow> m_flag s)"
  using exclusive_reach [OF assms] by (auto simp: exclusive_def)

theorem try_lock_exclusive_witness:
  "m_flag (snd (try_lock 3 new_mutex)) = (\<exists>i. m_threads (snd (try_lock 3 new_mutex)) i = Holding)"
proof -
  have "mutex_reach False (snd (try_lock 3 new_mutex))"
    by (rule mutex_reach.step [OF mutex_reach.start]) (rule mutex_step.attempt, simp add: new_mutex_def)
  from try_lock_exclusive [OF this, of 3 3] show ?thesis by blast
qed

text \<open>
  \<^verbatim>\<open>lock\<close> does not exclude: it reads the flag and sets it in two steps, so two threads that
  both saw it clear both hold the mutex.
\<close>

theorem lock_not_exclusive:
  "\<exists>s. mutex_reach True s \<and> m_threads s 1 = Holding \<and> m_threads s 2 = Holding"
proof -
  let ?a = "lock_load 1 new_mutex"
  let ?b = "lock_load 2 ?a"
  let ?c = "lock_store 1 ?b"
  let ?d = "lock_store 2 ?c"
  note defs = new_mutex_def lock_load_def lock_store_def moves_def
  have "mutex_reach True ?a"
    by (rule mutex_reach.step [OF mutex_reach.start]) (rule mutex_step.load; simp add: defs)
  then have "mutex_reach True ?b"
    by (rule mutex_reach.step) (rule mutex_step.load; simp add: defs)
  then have "mutex_reach True ?c"
    by (rule mutex_reach.step) (rule mutex_step.store; simp add: defs)
  then have "mutex_reach True ?d"
    by (rule mutex_reach.step) (rule mutex_step.store; simp add: defs)
  then show ?thesis by (intro exI [of _ ?d] conjI) (simp_all add: defs)
qed

text \<open>
  The shared mutex lets readers and a writer in together in two ways: a reader whose
  \<^verbatim>\<open>try_lock_shared\<close> failed left the counter raised, so its next try succeeds; and the
  first of two readers to leave releases the mutex for both.
\<close>

theorem shared_not_exclusive:
  "(\<exists>s. shared_reach s \<and> s_threads s 1 = Writing \<and> s_threads s 2 = Reading \<and> s_count s = 2) \<and>
   (\<exists>s. shared_reach s \<and> s_threads s 1 = Writing \<and> s_threads s 2 = Reading \<and> s_count s = 1)"
proof
  let ?a = "snd (write_try 1 new_shared)"
  let ?b = "try_count 2 ?a"
  let ?c = "snd (try_first 2 ?b)"
  let ?d = "try_count 2 ?c"
  have "shared_reach ?a"
    by (rule shared_reach.step [OF shared_reach.start]) (rule shared_step.write_attempt, simp add: shared_defs)
  then have "shared_reach ?b"
    by (rule shared_reach.step) (rule shared_step.try_enter, simp add: shared_defs)
  then have "shared_reach ?c"
    by (rule shared_reach.step) (rule shared_step.try_lock_first, simp add: shared_defs)
  then have "shared_reach ?d"
    by (rule shared_reach.step) (rule shared_step.try_enter, simp add: shared_defs)
  then show "\<exists>s. shared_reach s \<and> s_threads s 1 = Writing \<and> s_threads s 2 = Reading \<and> s_count s = 2"
    by (intro exI [of _ ?d] conjI) (simp_all add: shared_defs)
next
  let ?a = "try_count 3 new_shared"
  let ?b = "snd (try_first 3 ?a)"
  let ?c = "try_count 2 ?b"
  let ?d = "unlock_load 3 ?c"
  let ?e = "unlock_count 3 2 ?d"
  let ?f = "unlock_release 3 ?e"
  let ?g = "snd (write_try 1 ?f)"
  have "shared_reach ?a"
    by (rule shared_reach.step [OF shared_reach.start]) (rule shared_step.try_enter, simp add: shared_defs)
  then have "shared_reach ?b"
    by (rule shared_reach.step) (rule shared_step.try_lock_first, simp add: shared_defs)
  then have "shared_reach ?c"
    by (rule shared_reach.step) (rule shared_step.try_enter, simp add: shared_defs)
  then have "shared_reach ?d"
    by (rule shared_reach.step) (rule shared_step.leave_load, simp add: shared_defs)
  then have "shared_reach ?e"
    by (rule shared_reach.step) (rule shared_step.leave_count, simp add: shared_defs)
  then have "shared_reach ?f"
    by (rule shared_reach.step) (rule shared_step.leave_release, simp add: shared_defs)
  then have "shared_reach ?g"
    by (rule shared_reach.step) (rule shared_step.write_attempt, simp add: shared_defs)
  then show "\<exists>s. shared_reach s \<and> s_threads s 1 = Writing \<and> s_threads s 2 = Reading \<and> s_count s = 1"
    by (intro exI [of _ ?g] conjI) (simp_all add: shared_defs)
qed

end
