(* ===== verification/Co_Locks.thy ===== *)
theory Co_Locks
  imports Prelude
begin

text \<open>
  The locks of coroutines: \<^verbatim>\<open>co_mutex\<close>, \<^verbatim>\<open>co_basic_semaphore\<close> and \<^verbatim>\<open>co_shared_mutex\<close>
  (\<^verbatim>\<open>libgs/core/coro/detail\<close>). A coroutine that cannot go on leaves a \<^verbatim>\<open>co_lock_wake_up\<close> in a
  waiting queue; who releases wakes the first one whose timer has not finished it before.
  A wake-up is a numbered object that lives as long as the queue holds it; its timer is
  pending, or has expired with its handler queued in the executor, or is off. Waking dispatches
  the handler of the coroutine, at once or later: it is recorded as the result, and going on is
  a step of its own, since the one that wakes does nothing after it. \<^verbatim>\<open>lock\<close> ignores that result
  and goes on as the owner, the timed operations return it. A handler that uses a wake-up that
  has been destroyed has undefined behaviour: it sets \<open>wm_fault\<close>, and the run ends there.
  The weak exchanges do not fail spuriously. The properties are about one thread, on which the
  queue of \<open>Lock_Free_Queue\<close> is a queue; for several threads, which only the
  lost wake-up needs, its operations are taken as atomic, which they are not. The schedule
  that loses the wake-up has no two of them at the same time, so that it is one of the program.
\<close>

section \<open>Wake-ups\<close>

datatype co_timer = Timer_off | Timer_pending | Timer_queued

record wake_up =
  w_owner :: nat
  w_timed :: bool
  w_finished :: bool
  w_timer :: co_timer
  w_alive :: bool
  w_result :: "bool option"

text \<open>A memory of wake-ups, of which the first \<open>wm_count\<close> have been created.\<close>

record wake_mem =
  wm_count :: nat
  wm_obj :: "nat \<Rightarrow> wake_up"
  wm_fault :: bool

definition wm_update :: "nat \<Rightarrow> (wake_up \<Rightarrow> wake_up) \<Rightarrow> wake_mem \<Rightarrow> wake_mem" where
  "wm_update w f m = m\<lparr>wm_obj := (wm_obj m)(w := f (wm_obj m w))\<rparr>"

definition new_wake_up :: "nat \<Rightarrow> bool \<Rightarrow> wake_mem \<Rightarrow> nat \<times> wake_mem" where
  "new_wake_up owner timed m =
     (wm_count m,
      m\<lparr>wm_count := wm_count m + 1,
        wm_obj := (wm_obj m)(wm_count m :=
          \<lparr>w_owner = owner, w_timed = timed, w_finished = False, w_timer = (if timed then Timer_pending else Timer_off),
           w_alive = True, w_result = None\<rparr>)\<rparr>)"

text \<open>
  The call operator of a wake-up: the first call wins. Cancelling stops a pending timer; a
  handler that is queued already still runs.
\<close>

definition wake :: "nat \<Rightarrow> bool \<Rightarrow> wake_mem \<Rightarrow> bool \<times> wake_mem" where
  "wake w success m =
     (if w_finished (wm_obj m w) then (False, m)
      else (True, wm_update w (\<lambda>x.
             x\<lparr>w_finished := True,
               w_timer := (if w_timer x = Timer_pending then Timer_off else w_timer x),
               w_result := Some success\<rparr>) m))"

definition timer_expires :: "nat \<Rightarrow> wake_mem \<Rightarrow> wake_mem" where
  "timer_expires w m = wm_update w (\<lambda>x. x\<lparr>w_timer := Timer_queued\<rparr>) m"

text \<open>The handler of the timer uses the wake-up it was started for by its plain address.\<close>

definition timer_handler :: "nat \<Rightarrow> wake_mem \<Rightarrow> wake_mem" where
  "timer_handler w m =
     (let m = wm_update w (\<lambda>x. x\<lparr>w_timer := Timer_off\<rparr>) m in
      if \<not> w_alive (wm_obj m w) then m\<lparr>wm_fault := True\<rparr>
      else snd (wake w False m))"

text \<open>Taking a wake-up out of the queue drops the last reference to it at the end of the round.\<close>

definition destroy :: "nat \<Rightarrow> wake_mem \<Rightarrow> wake_mem" where
  "destroy w m = wm_update w (\<lambda>x. x\<lparr>w_alive := False\<rparr>) m"

section \<open>The mutex\<close>

datatype co_task = Co_idle | Co_failed bool | Co_waiting nat | Co_holds | Co_unlocking | Co_releasing

record co_mutex =
  native_handle :: bool
  wait_queue :: "nat list"
  mem :: wake_mem

definition new_co_mutex :: co_mutex where
  "new_co_mutex = \<lparr>native_handle = False, wait_queue = [],
     mem = \<lparr>wm_count = 0, wm_obj = (\<lambda>_. \<lparr>w_owner = 0, w_timed = False, w_finished = False, w_timer = Timer_off, w_alive = False, w_result = None\<rparr>),
       wm_fault = False\<rparr>\<rparr>"

definition co_try_lock :: "co_mutex \<Rightarrow> bool \<times> co_mutex" where
  "co_try_lock s = (if native_handle s then (False, s) else (True, s\<lparr>native_handle := True\<rparr>))"

text \<open>What \<^verbatim>\<open>lock\<close> and \<^verbatim>\<open>try_lock_x\<close> do when the attempt failed: queue a wake-up and wait.\<close>

definition co_wait :: "nat \<Rightarrow> bool \<Rightarrow> co_mutex \<Rightarrow> nat \<times> co_mutex" where
  "co_wait owner timed s =
     (let (w, m) = new_wake_up owner timed (mem s)
      in (w, s\<lparr>wait_queue := wait_queue s @ [w], mem := m\<rparr>))"

text \<open>
  One round of \<^verbatim>\<open>unlock\<close> with a wake-up in the queue, and the whole loop when nothing comes
  in between.
\<close>

definition unlock_round :: "nat \<Rightarrow> nat list \<Rightarrow> co_mutex \<Rightarrow> bool \<times> co_mutex" where
  "unlock_round w ws s =
     (let (woken, m) = wake w True (mem s)
      in (woken, s\<lparr>wait_queue := ws, mem := destroy w m\<rparr>))"

fun unlock_loop :: "nat list \<Rightarrow> co_mutex \<Rightarrow> co_mutex" where
  "unlock_loop [] s = s\<lparr>native_handle := False\<rparr>"
| "unlock_loop (w # ws) s =
     (let (woken, s) = unlock_round w ws s in if woken then s else unlock_loop ws s)"

definition co_unlock :: "co_mutex \<Rightarrow> co_mutex" where
  "co_unlock s = unlock_loop (wait_queue s) s"

section \<open>Coroutines on several threads\<close>

text \<open>
  Each access to the handle or to the queue is a step of a coroutine, and so are the two
  steps of a timer. A coroutine that waits has the mutex as soon as its wake-up succeeded.
\<close>

record co_sys =
  cmx :: co_mutex
  tasks :: "nat \<Rightarrow> co_task"

definition co_start :: co_sys where
  "co_start = \<lparr>cmx = new_co_mutex, tasks = (\<lambda>_. Co_idle)\<rparr>"

definition becomes :: "nat \<Rightarrow> co_task \<Rightarrow> co_mutex \<Rightarrow> co_sys \<Rightarrow> co_sys" where
  "becomes i t c s = s\<lparr>cmx := c, tasks := (tasks s)(i := t)\<rparr>"

inductive co_move :: "co_sys \<Rightarrow> co_sys \<Rightarrow> bool" where
  take: "tasks s i = Co_idle \<Longrightarrow> co_try_lock (cmx s) = (True, c) \<Longrightarrow> co_move s (becomes i Co_holds c s)"
| miss: "tasks s i = Co_idle \<Longrightarrow> co_try_lock (cmx s) = (False, c) \<Longrightarrow> co_move s (becomes i (Co_failed timed) c s)"
| give_up: "tasks s i = Co_failed timed \<Longrightarrow> co_move s (becomes i Co_idle (cmx s) s)"
| wait: "tasks s i = Co_failed timed \<Longrightarrow> co_wait i timed (cmx s) = (w, c) \<Longrightarrow> co_move s (becomes i (Co_waiting w) c s)"
| release: "tasks s i = Co_holds \<Longrightarrow> co_move s (becomes i Co_unlocking (cmx s) s)"
| hand_over: "tasks s i = Co_unlocking \<Longrightarrow> wait_queue (cmx s) = w # ws \<Longrightarrow>
    unlock_round w ws (cmx s) = (True, c) \<Longrightarrow> co_move s (becomes i Co_idle c s)"
| skip: "tasks s i = Co_unlocking \<Longrightarrow> wait_queue (cmx s) = w # ws \<Longrightarrow>
    unlock_round w ws (cmx s) = (False, c) \<Longrightarrow> co_move s (becomes i Co_unlocking c s)"
| nobody: "tasks s i = Co_unlocking \<Longrightarrow> wait_queue (cmx s) = [] \<Longrightarrow> co_move s (becomes i Co_releasing (cmx s) s)"
| free: "tasks s i = Co_releasing \<Longrightarrow> co_move s (becomes i Co_idle (cmx s\<lparr>native_handle := False\<rparr>) s)"
| expire: "w < wm_count (mem (cmx s)) \<Longrightarrow> w_timer (wm_obj (mem (cmx s)) w) = Timer_pending \<Longrightarrow>
    co_move s (s\<lparr>cmx := cmx s\<lparr>mem := timer_expires w (mem (cmx s))\<rparr>\<rparr>)"
| handle: "w < wm_count (mem (cmx s)) \<Longrightarrow> w_timer (wm_obj (mem (cmx s)) w) = Timer_queued \<Longrightarrow>
    co_move s (s\<lparr>cmx := cmx s\<lparr>mem := timer_handler w (mem (cmx s))\<rparr>\<rparr>)"
| resume: "tasks s i = Co_waiting w \<Longrightarrow> w_result (wm_obj (mem (cmx s)) w) = Some b \<Longrightarrow>
    co_move s (becomes i (if b \<or> \<not> w_timed (wm_obj (mem (cmx s)) w) then Co_holds else Co_idle) (cmx s) s)"

inductive_cases co_moveE: "co_move s t"

text \<open>Nothing follows a fault.\<close>

definition co_step :: "co_sys \<Rightarrow> co_sys \<Rightarrow> bool" where
  "co_step s t \<longleftrightarrow> \<not> wm_fault (mem (cmx s)) \<and> co_move s t"

text \<open>The coroutine that has the mutex, from taking it to giving it away.\<close>

definition owns :: "co_sys \<Rightarrow> nat \<Rightarrow> bool" where
  "owns s i = (case tasks s i of
      Co_holds \<Rightarrow> True | Co_unlocking \<Rightarrow> True | Co_releasing \<Rightarrow> True
    | Co_waiting w \<Rightarrow> w_result (wm_obj (mem (cmx s)) w) = Some True
    | _ \<Rightarrow> False)"

definition co_inv :: "co_sys \<Rightarrow> bool" where
  "co_inv s \<longleftrightarrow>
     (\<forall>i j. owns s i \<longrightarrow> owns s j \<longrightarrow> i = j) \<and>
     (\<forall>i. owns s i \<longrightarrow> native_handle (cmx s)) \<and>
     (\<forall>i w. tasks s i = Co_waiting w \<longrightarrow> w < wm_count (mem (cmx s)) \<and> w_owner (wm_obj (mem (cmx s)) w) = i) \<and>
     (\<forall>w. w_result (wm_obj (mem (cmx s)) w) \<noteq> None \<longrightarrow> w_finished (wm_obj (mem (cmx s)) w)) \<and>
     (\<forall>w \<in> set (wait_queue (cmx s)). w < wm_count (mem (cmx s)))"


lemmas wake_defs = wm_update_def new_wake_up_def wake_def timer_expires_def timer_handler_def destroy_def

lemmas mutex_defs = co_try_lock_def co_wait_def unlock_round_def becomes_def

lemma owns_simps:
  "tasks s i = Co_idle \<Longrightarrow> \<not> owns s i"
  "tasks s i = Co_failed b \<Longrightarrow> \<not> owns s i"
  "tasks s i = Co_holds \<Longrightarrow> owns s i"
  "tasks s i = Co_unlocking \<Longrightarrow> owns s i"
  "tasks s i = Co_releasing \<Longrightarrow> owns s i"
  "tasks s i = Co_waiting w \<Longrightarrow> owns s i \<longleftrightarrow> w_result (wm_obj (mem (cmx s)) w) = Some True"
  by (simp_all add: owns_def)

text \<open>A step that gives nobody the mutex and does not clear the flag keeps the owners apart.\<close>

lemma co_inv_fewer:
  assumes "co_inv s" "\<And>i. owns t i \<Longrightarrow> owns s i" "native_handle (cmx s) \<Longrightarrow> native_handle (cmx t)"
    and "\<And>i w. tasks t i = Co_waiting w \<Longrightarrow> w < wm_count (mem (cmx t)) \<and> w_owner (wm_obj (mem (cmx t)) w) = i"
    and "\<And>w. w_result (wm_obj (mem (cmx t)) w) \<noteq> None \<Longrightarrow> w_finished (wm_obj (mem (cmx t)) w)"
    and "\<And>w. w \<in> set (wait_queue (cmx t)) \<Longrightarrow> w < wm_count (mem (cmx t))"
  shows "co_inv t"
  using assms unfolding co_inv_def by blast

lemma co_invD:
  assumes "co_inv s"
  shows "owns s i \<Longrightarrow> owns s j \<Longrightarrow> i = j"
    and "owns s i \<Longrightarrow> native_handle (cmx s)"
    and "tasks s i = Co_waiting w \<Longrightarrow> w < wm_count (mem (cmx s))"
    and "tasks s i = Co_waiting w \<Longrightarrow> w_owner (wm_obj (mem (cmx s)) w) = i"
    and "w_result (wm_obj (mem (cmx s)) w) \<noteq> None \<Longrightarrow> w_finished (wm_obj (mem (cmx s)) w)"
    and "w \<in> set (wait_queue (cmx s)) \<Longrightarrow> w < wm_count (mem (cmx s))"
  using assms unfolding co_inv_def by blast+

text \<open>Who waits without a timer is never told that the time is over.\<close>

definition untimed_inv :: "wake_mem \<Rightarrow> bool" where
  "untimed_inv m \<longleftrightarrow> (\<forall>w. \<not> w_timed (wm_obj m w) \<longrightarrow> w_timer (wm_obj m w) = Timer_off \<and> w_result (wm_obj m w) \<noteq> Some False)"

lemma untimed_inv_start: "untimed_inv (mem (cmx co_start))"
  by (simp add: untimed_inv_def co_start_def new_co_mutex_def)

lemma untimed_inv_move: "co_move s t \<Longrightarrow> untimed_inv (mem (cmx s)) \<Longrightarrow> untimed_inv (mem (cmx t))"
  by (induction rule: co_move.induct)
    (auto simp: untimed_inv_def mutex_defs wake_defs Let_def split: if_splits)

lemma co_inv_start: "co_inv co_start"
  by (simp add: co_inv_def co_start_def new_co_mutex_def owns_def)

text \<open>What a round of \<^verbatim>\<open>unlock\<close> and a timer do to the wake-ups.\<close>

lemma unlock_round_woken:
  assumes "unlock_round w ws c = (True, c')"
  shows "native_handle c' = native_handle c \<and> wait_queue c' = ws \<and> wm_count (mem c') = wm_count (mem c) \<and>
    \<not> w_finished (wm_obj (mem c) w) \<and> w_finished (wm_obj (mem c') w) \<and> w_result (wm_obj (mem c') w) = Some True \<and>
    (\<forall>v. w_owner (wm_obj (mem c') v) = w_owner (wm_obj (mem c) v)) \<and>
    (\<forall>v. v \<noteq> w \<longrightarrow> wm_obj (mem c') v = wm_obj (mem c) v)"
  using assms by (auto simp: unlock_round_def wake_defs split: if_splits)

lemma unlock_round_finished:
  assumes "unlock_round w ws c = (False, c')"
  shows "native_handle c' = native_handle c \<and> wait_queue c' = ws \<and> wm_count (mem c') = wm_count (mem c) \<and>
    w_finished (wm_obj (mem c) w) \<and>
    (\<forall>v. w_owner (wm_obj (mem c') v) = w_owner (wm_obj (mem c) v) \<and>
      w_result (wm_obj (mem c') v) = w_result (wm_obj (mem c) v) \<and>
      w_finished (wm_obj (mem c') v) = w_finished (wm_obj (mem c) v))"
  using assms by (auto simp: unlock_round_def wake_defs split: if_splits)

lemma timer_handler_facts:
  "wm_count (timer_handler w m) = wm_count m"
  "w_owner (wm_obj (timer_handler w m) v) = w_owner (wm_obj m v)"
  "w_result (wm_obj (timer_handler w m) v) = Some True \<Longrightarrow> w_result (wm_obj m v) = Some True"
  "w_result (wm_obj (timer_handler w m) v) \<noteq> None \<Longrightarrow>
    (w_result (wm_obj m v) \<noteq> None \<Longrightarrow> w_finished (wm_obj m v)) \<Longrightarrow> w_finished (wm_obj (timer_handler w m) v)"
  by (auto simp: wake_defs Let_def split: if_splits)

lemma timer_expires_facts [simp]:
  "wm_count (timer_expires w m) = wm_count m"
  "w_owner (wm_obj (timer_expires w m) v) = w_owner (wm_obj m v)"
  "w_result (wm_obj (timer_expires w m) v) = w_result (wm_obj m v)"
  "w_finished (wm_obj (timer_expires w m) v) = w_finished (wm_obj m v)"
  by (simp_all add: wake_defs)

lemma becomes_simps [simp]:
  "cmx (becomes i t c s) = c"
  "tasks (becomes i t c s) j = (if j = i then t else tasks s j)"
  by (simp_all add: becomes_def)

definition owning :: "co_task \<Rightarrow> co_mutex \<Rightarrow> bool" where
  "owning t c = (case t of
      Co_holds \<Rightarrow> True | Co_unlocking \<Rightarrow> True | Co_releasing \<Rightarrow> True
    | Co_waiting w \<Rightarrow> w_result (wm_obj (mem c) w) = Some True
    | _ \<Rightarrow> False)"

lemma owning_simps [simp]:
  "\<not> owning Co_idle c" "\<not> owning (Co_failed b) c" "owning Co_holds c" "owning Co_unlocking c" "owning Co_releasing c"
  "owning (Co_waiting w) c \<longleftrightarrow> w_result (wm_obj (mem c) w) = Some True"
  by (simp_all add: owning_def)

lemma owns_owning: "owns s i = owning (tasks s i) (cmx s)"
  by (simp add: owns_def owning_def)

lemma owning_mono:
  "owning t c' \<Longrightarrow> (\<And>w. w_result (wm_obj (mem c') w) = Some True \<Longrightarrow> w_result (wm_obj (mem c) w) = Some True) \<Longrightarrow>
   owning t c"
  by (cases t) auto

text \<open>
  A step that hands the mutex to nobody: the results that were no success are none now, and
  coroutine \<open>i\<close> goes to a state in which it owns nothing new.
\<close>

lemma co_inv_becomes:
  assumes "co_inv s" "owning t c \<Longrightarrow> owns s i" "native_handle (cmx s) \<Longrightarrow> native_handle c"
    and "\<And>v. w_result (wm_obj (mem c) v) = Some True \<Longrightarrow> w_result (wm_obj (mem (cmx s)) v) = Some True"
    and "\<And>v. v < wm_count (mem (cmx s)) \<Longrightarrow>
      v < wm_count (mem c) \<and> w_owner (wm_obj (mem c) v) = w_owner (wm_obj (mem (cmx s)) v)"
    and "\<And>v. w_result (wm_obj (mem c) v) \<noteq> None \<Longrightarrow> w_finished (wm_obj (mem c) v)"
    and "\<And>v. v \<in> set (wait_queue c) \<Longrightarrow> v < wm_count (mem c)"
    and "\<And>v. t = Co_waiting v \<Longrightarrow> v < wm_count (mem c) \<and> w_owner (wm_obj (mem c) v) = i"
  shows "co_inv (becomes i t c s)"
proof (rule co_inv_fewer [OF assms(1)], goal_cases)
  case (1 j)
  show ?case
  proof (cases "j = i")
    case False
    then have "owning (tasks s j) c" using 1 by (simp add: owns_owning)
    then show ?thesis unfolding owns_owning using assms(4) by (rule owning_mono)
  qed (use 1 assms(2) in \<open>simp add: owns_owning\<close>)
next
  case (3 j v)
  then show ?case
    using assms(5,8) co_invD(3,4) [OF assms(1), of j v] by (cases "j = i") auto
next
  case (4 v)
  then show ?case using assms(6) by simp
next
  case (5 v)
  then show ?case using assms(7) by simp
qed (use assms(3) in simp)

lemma becomes_self: "becomes i (tasks s i) c s = s\<lparr>cmx := c\<rparr>"
  by (simp add: becomes_def)

lemma co_inv_handed:
  assumes inv: "co_inv s" and t: "tasks s i = Co_unlocking" "wait_queue (cmx s) = w # ws"
    and r: "unlock_round w ws (cmx s) = (True, c)"
  shows "co_inv (becomes i Co_idle c s)"
proof -
  note inv' = co_invD [OF inv]
  note c = unlock_round_woken [OF r]
  have owner: "owns s i" using t(1) by (simp add: owns_owning)
  have new: "j = w_owner (wm_obj (mem (cmx s)) w)" if own: "owns (becomes i Co_idle c s) j" for j
  proof -
    have ji: "j \<noteq> i" using own by (auto simp: owns_owning)
    then have "\<not> owns s j" "owning (tasks s j) c" using inv'(1) owner own by (auto simp: owns_owning)
    then obtain v where v: "tasks s j = Co_waiting v" "w_result (wm_obj (mem c) v) = Some True"
        "w_result (wm_obj (mem (cmx s)) v) \<noteq> Some True"
      unfolding owns_owning by (cases "tasks s j") simp_all
    then have "v = w" using c by metis
    with inv'(4) [OF v(1)] show ?thesis by simp
  qed
  show ?thesis unfolding co_inv_def
  proof (intro conjI allI impI ballI, goal_cases)
    case (1 j k)
    then show ?case using new by blast
  next
    case (2 j)
    then show ?case using c inv'(2) [OF owner] by simp
  next
    case (3 j v)
    then show ?case using c inv'(3) by (auto split: if_splits)
  next
    case (4 j v)
    then show ?case using c inv'(4) by (auto split: if_splits)
  next
    case (5 v)
    then show ?case using c inv'(5) [of v] by (cases "v = w") auto
  next
    case (6 v)
    then show ?case using c inv'(6) t(2) by auto
  qed
qed

lemma co_inv_step: "co_move s t \<Longrightarrow> co_inv s \<Longrightarrow> untimed_inv (mem (cmx s)) \<Longrightarrow> co_inv t"
proof (induction rule: co_move.induct)
  case (take s i c)
  then have c: "\<not> native_handle (cmx s)" "c = cmx s\<lparr>native_handle := True\<rparr>"
    by (auto simp: co_try_lock_def split: if_splits)
  then have none: "\<not> owns s j" for j using co_invD(2) [OF take(3)] by blast
  have one: "j = i" if "owns (becomes i Co_holds c s) j" for j
  proof (rule ccontr)
    assume "j \<noteq> i"
    then have "owning (tasks s j) (cmx s)"
      using that c(2) owning_mono [of "tasks s j" c "cmx s"] by (simp add: owns_owning)
    then show False using none [of j] by (simp add: owns_owning)
  qed
  let ?t = "becomes i Co_holds c s"
  have "\<forall>j k. owns ?t j \<longrightarrow> owns ?t k \<longrightarrow> j = k" using one by blast
  moreover have "\<forall>j. owns ?t j \<longrightarrow> native_handle (cmx ?t)" using c(2) by simp
  ultimately show ?case
    using co_invD(3-6) [OF take(3)] c(2) unfolding co_inv_def by simp
next
  case (miss s i c timed)
  then have "c = cmx s" by (auto simp: co_try_lock_def split: if_splits)
  then show ?case using co_invD [OF miss(3)] by (intro co_inv_becomes [OF miss(3)]) simp_all
next
  case (give_up s i timed)
  show ?case using co_invD [OF give_up(2)] by (intro co_inv_becomes [OF give_up(2)]) simp_all
next
  case (wait s i timed w c)
  note inv = co_invD [OF wait(3)]
  have c: "w = wm_count (mem (cmx s))" "wait_queue c = wait_queue (cmx s) @ [w]"
      "wm_count (mem c) = wm_count (mem (cmx s)) + 1" "native_handle c = native_handle (cmx s)"
      "w_owner (wm_obj (mem c) w) = i" "w_result (wm_obj (mem c) w) = None"
      "\<And>v. v \<noteq> w \<Longrightarrow> wm_obj (mem c) v = wm_obj (mem (cmx s)) v"
    using wait(2) by (auto simp: co_wait_def new_wake_up_def)
  have old: "w_result (wm_obj (mem c) v) \<noteq> None \<Longrightarrow> wm_obj (mem c) v = wm_obj (mem (cmx s)) v" for v
    using c(6,7) by (cases "v = w") auto
  show ?case
  proof (rule co_inv_becomes [OF wait(3)], goal_cases)
    case (3 v)
    then show ?case using old [of v] by simp
  next
    case (4 v)
    then show ?case using c(1,3,7) by simp
  next
    case (5 v)
    then show ?case using old [of v] inv(5) [of v] by simp
  next
    case (6 v)
    then show ?case using c(1-3) inv(6) [of v] by auto
  qed (use c in auto)
next
  case (release s i)
  show ?case
    using co_invD [OF release(2)] release(1) by (intro co_inv_becomes [OF release(2)]) (simp_all add: owns_owning)
next
  case (hand_over s i w ws c)
  then show ?case by (intro co_inv_handed)
next
  case (skip s i w ws c)
  note c = unlock_round_finished [OF skip(3)]
  show ?case
    using co_invD [OF skip(4)] c skip(1,2) by (intro co_inv_becomes [OF skip(4)]) (simp_all add: owns_owning)
next
  case (nobody s i)
  show ?case
    using co_invD [OF nobody(3)] nobody(1) by (intro co_inv_becomes [OF nobody(3)]) (simp_all add: owns_owning)
next
  case (free s i)
  note inv = co_invD [OF free(2)]
  have owner: "owns s i" using free(1) by (simp add: owns_owning)
  have "\<not> owns (becomes i Co_idle (cmx s\<lparr>native_handle := False\<rparr>) s) j" for j
  proof
    assume own: "owns (becomes i Co_idle (cmx s\<lparr>native_handle := False\<rparr>) s) j"
    then have "j \<noteq> i" by (auto simp: owns_owning)
    moreover have "owns s j"
      using own \<open>j \<noteq> i\<close> owning_mono [of "tasks s j" "cmx s\<lparr>native_handle := False\<rparr>" "cmx s"] by (simp add: owns_owning)
    ultimately show False using inv(1) owner by blast
  qed
  then show ?case using inv(3-6) by (auto simp: co_inv_def split: if_splits)
next
  case (expire w s)
  let ?c = "cmx s\<lparr>mem := timer_expires w (mem (cmx s))\<rparr>"
  have "co_inv (becomes 0 (tasks s 0) ?c s)"
  proof (rule co_inv_becomes [OF expire(3)], goal_cases)
    case 1
    then show ?case unfolding owns_owning by (rule owning_mono) simp
  qed (use co_invD [OF expire(3)] in simp_all)
  then show ?case by (simp only: becomes_self)
next
  case (handle w s)
  let ?c = "cmx s\<lparr>mem := timer_handler w (mem (cmx s))\<rparr>"
  have "co_inv (becomes 0 (tasks s 0) ?c s)"
  proof (rule co_inv_becomes [OF handle(3)], goal_cases)
    case 1
    then show ?case unfolding owns_owning by (rule owning_mono) (simp add: timer_handler_facts(3))
  next
    case (3 v)
    then show ?case using timer_handler_facts(3) by simp
  next
    case (5 v)
    then show ?case using timer_handler_facts(4) co_invD(5) [OF handle(3), of v] by simp
  qed (use co_invD [OF handle(3)] in \<open>simp_all add: timer_handler_facts(1,2)\<close>)
  then show ?case by (simp only: becomes_self)
next
  case (resume s i w b)
  show ?case
    using co_invD [OF resume(3)] resume(1,2,4) unfolding untimed_inv_def
    by (cases b; intro co_inv_becomes [OF resume(3)]) (auto simp: owns_owning split: if_splits)
qed

section \<open>Coroutines on one thread\<close>

text \<open>
  On one thread nothing comes between the attempt and the waiting, nor between the rounds of
  \<^verbatim>\<open>unlock\<close>.
\<close>

definition co_lock :: "nat \<Rightarrow> bool \<Rightarrow> co_sys \<Rightarrow> co_sys" where
  "co_lock i timed s =
     (let (ok, c) = co_try_lock (cmx s) in
      if ok then becomes i Co_holds c s
      else let (w, c) = co_wait i timed c in becomes i (Co_waiting w) c s)"

inductive serial_move :: "co_sys \<Rightarrow> co_sys \<Rightarrow> bool" where
  lock: "tasks s i = Co_idle \<Longrightarrow> serial_move s (co_lock i timed s)"
| unlock: "tasks s i = Co_holds \<Longrightarrow> serial_move s (becomes i Co_idle (co_unlock (cmx s)) s)"
| expire: "w < wm_count (mem (cmx s)) \<Longrightarrow> w_timer (wm_obj (mem (cmx s)) w) = Timer_pending \<Longrightarrow>
    serial_move s (s\<lparr>cmx := cmx s\<lparr>mem := timer_expires w (mem (cmx s))\<rparr>\<rparr>)"
| handle: "w < wm_count (mem (cmx s)) \<Longrightarrow> w_timer (wm_obj (mem (cmx s)) w) = Timer_queued \<Longrightarrow>
    serial_move s (s\<lparr>cmx := cmx s\<lparr>mem := timer_handler w (mem (cmx s))\<rparr>\<rparr>)"
| resume: "tasks s i = Co_waiting w \<Longrightarrow> w_result (wm_obj (mem (cmx s)) w) = Some b \<Longrightarrow>
    serial_move s (becomes i (if b \<or> \<not> w_timed (wm_obj (mem (cmx s)) w) then Co_holds else Co_idle) (cmx s) s)"

definition co_serial :: "co_sys \<Rightarrow> co_sys \<Rightarrow> bool" where
  "co_serial s t \<longleftrightarrow> \<not> wm_fault (mem (cmx s)) \<and> serial_move s t"

lemma becomes_becomes [simp]: "becomes i t c (becomes i t' c' s) = becomes i t c s"
  by (simp add: becomes_def)

lemma unlock_loop_steps:
  "tasks s i = Co_unlocking \<Longrightarrow> wait_queue (cmx s) = ws \<Longrightarrow>
   co_move\<^sup>*\<^sup>* s (becomes i Co_idle (unlock_loop ws (cmx s)) s)"
proof (induction ws arbitrary: s)
  case Nil
  let ?m = "becomes i Co_releasing (cmx s) s"
  have "co_move s ?m" using Nil by (intro co_move.nobody)
  moreover have "co_move ?m (becomes i Co_idle (cmx ?m\<lparr>native_handle := False\<rparr>) ?m)"
    by (rule co_move.free) simp
  ultimately show ?case by (simp add: converse_rtranclp_into_rtranclp)
next
  case (Cons w ws)
  obtain woken c where r: "unlock_round w ws (cmx s) = (woken, c)" by (cases "unlock_round w ws (cmx s)")
  show ?case
  proof (cases woken)
    case True
    then show ?thesis using co_move.hand_over [OF Cons.prems] r by auto
  next
    case False
    let ?m = "becomes i Co_unlocking c s"
    have "co_move s ?m" using co_move.skip [OF Cons.prems] r False by simp
    moreover have "wait_queue c = ws" using r by (auto simp: unlock_round_def split: prod.splits)
    then have "co_move\<^sup>*\<^sup>* ?m (becomes i Co_idle (unlock_loop ws (cmx ?m)) ?m)" by (intro Cons.IH) simp_all
    ultimately show ?thesis using r False by (simp add: converse_rtranclp_into_rtranclp)
  qed
qed

lemma co_serial_steps: "serial_move s t \<Longrightarrow> co_move\<^sup>*\<^sup>* s t"
proof (induction rule: serial_move.induct)
  case (lock s i timed)
  show ?case
  proof (cases "native_handle (cmx s)")
    case True
    let ?m = "becomes i (Co_failed timed) (cmx s) s"
    obtain w c where w: "co_wait i timed (cmx s) = (w, c)" by (cases "co_wait i timed (cmx s)")
    have "co_move s ?m" using co_move.miss [OF lock] True by (simp add: co_try_lock_def)
    moreover have "co_move ?m (becomes i (Co_waiting w) c ?m)" using w by (intro co_move.wait) simp_all
    ultimately show ?thesis
      using True w by (simp add: co_lock_def co_try_lock_def converse_rtranclp_into_rtranclp)
  next
    case False
    then have "co_move s (co_lock i timed s)"
      using co_move.take [OF lock] by (simp add: co_lock_def co_try_lock_def)
    then show ?thesis by auto
  qed
next
  case (unlock s i)
  let ?m = "becomes i Co_unlocking (cmx s) s"
  have "co_move s ?m" using co_move.release [OF unlock] .
  moreover have "co_move\<^sup>*\<^sup>* ?m (becomes i Co_idle (unlock_loop (wait_queue (cmx s)) (cmx ?m)) ?m)"
    by (rule unlock_loop_steps) simp_all
  ultimately show ?case by (simp add: co_unlock_def converse_rtranclp_into_rtranclp)
qed (blast intro: co_move.intros)+

text \<open>The wake-ups in the queue that are still waited for.\<close>

definition waiting :: "co_mutex \<Rightarrow> nat list" where
  "waiting c = filter (\<lambda>w. \<not> w_finished (wm_obj (mem c) w)) (wait_queue c)"

text \<open>How two states of the wake-ups agree outside one of them.\<close>

definition same_but :: "nat option \<Rightarrow> wake_mem \<Rightarrow> wake_mem \<Rightarrow> bool" where
  "same_but x m m' \<longleftrightarrow> wm_count m' = wm_count m \<and>
     (\<forall>v. w_owner (wm_obj m' v) = w_owner (wm_obj m v) \<and>
       (x \<noteq> Some v \<longrightarrow> w_finished (wm_obj m' v) = w_finished (wm_obj m v) \<and>
         w_result (wm_obj m' v) = w_result (wm_obj m v)))"

lemma same_but_trans: "same_but None m m' \<Longrightarrow> same_but x m' m'' \<Longrightarrow> same_but x m m''"
  by (simp add: same_but_def)

lemma unlock_loop_spec:
  "distinct ws \<Longrightarrow> wait_queue c = ws \<Longrightarrow>
   (case filter (\<lambda>w. \<not> w_finished (wm_obj (mem c) w)) ws of
      [] \<Rightarrow> \<not> native_handle (unlock_loop ws c) \<and> wait_queue (unlock_loop ws c) = [] \<and>
        same_but None (mem c) (mem (unlock_loop ws c))
    | w # rest \<Rightarrow> native_handle (unlock_loop ws c) = native_handle c \<and>
        waiting (unlock_loop ws c) = rest \<and> suffix (wait_queue (unlock_loop ws c)) ws \<and>
        w_result (wm_obj (mem (unlock_loop ws c)) w) = Some True \<and>
        w_finished (wm_obj (mem (unlock_loop ws c)) w) \<and>
        same_but (Some w) (mem c) (mem (unlock_loop ws c)))"
proof (induction ws arbitrary: c)
  case Nil
  then show ?case by (simp add: same_but_def)
next
  case (Cons w ws)
  obtain woken c' where r: "unlock_round w ws c = (woken, c')" by (cases "unlock_round w ws c")
  show ?case
  proof (cases woken)
    case True
    have "unlock_round w ws c = (True, c')" using r True by simp
    note c' = unlock_round_woken [OF this]
    have "same_but (Some w) (mem c) (mem c')" using c' by (auto simp: same_but_def)
    moreover have "waiting c' = filter (\<lambda>w. \<not> w_finished (wm_obj (mem c) w)) ws"
      using c' Cons.prems(1) unfolding waiting_def by (intro filter_cong) auto
    ultimately show ?thesis using r True c' by (auto intro: suffix_ConsI)
  next
    case False
    have "unlock_round w ws c = (False, c')" using r False by simp
    note c' = unlock_round_finished [OF this]
    have same: "same_but None (mem c) (mem c')" using c' by (simp add: same_but_def)
    have eq: "filter (\<lambda>w. \<not> w_finished (wm_obj (mem c') w)) ws = filter (\<lambda>w. \<not> w_finished (wm_obj (mem c) w)) (w # ws)"
      using c' by simp
    have IH: "case filter (\<lambda>w. \<not> w_finished (wm_obj (mem c') w)) ws of
        [] \<Rightarrow> \<not> native_handle (unlock_loop ws c') \<and> wait_queue (unlock_loop ws c') = [] \<and>
          same_but None (mem c') (mem (unlock_loop ws c'))
      | w # rest \<Rightarrow> native_handle (unlock_loop ws c') = native_handle c' \<and>
          waiting (unlock_loop ws c') = rest \<and> suffix (wait_queue (unlock_loop ws c')) ws \<and>
          w_result (wm_obj (mem (unlock_loop ws c')) w) = Some True \<and>
          w_finished (wm_obj (mem (unlock_loop ws c')) w) \<and>
          same_but (Some w) (mem c') (mem (unlock_loop ws c'))"
      using Cons.prems c' by (intro Cons.IH) simp_all
    have loop: "unlock_loop (w # ws) c = unlock_loop ws c'" using r False by simp
    show ?thesis
      using IH c' same_but_trans [OF same] unfolding eq loop
      by (auto split: list.splits intro: suffix_ConsI)
  qed
qed

lemma co_unlock_waiting:
  assumes "distinct (wait_queue c)" "waiting c = w # rest"
  shows "native_handle (co_unlock c) = native_handle c" "waiting (co_unlock c) = rest"
    "suffix (wait_queue (co_unlock c)) (wait_queue c)"
    "w_result (wm_obj (mem (co_unlock c)) w) = Some True" "w_finished (wm_obj (mem (co_unlock c)) w)"
    "same_but (Some w) (mem c) (mem (co_unlock c))"
  using unlock_loop_spec [OF assms(1) refl] assms(2) by (simp_all add: co_unlock_def waiting_def)

lemma co_unlock_empty:
  assumes "distinct (wait_queue c)" "waiting c = []"
  shows "\<not> native_handle (co_unlock c)" "wait_queue (co_unlock c) = []" "same_but None (mem c) (mem (co_unlock c))"
  using unlock_loop_spec [OF assms(1) refl] assms(2) by (simp_all add: co_unlock_def waiting_def)

lemma waiting_served:
  "distinct (wait_queue c) \<Longrightarrow> k < length (waiting c) \<Longrightarrow> native_handle c \<Longrightarrow>
   (\<forall>n \<le> k. native_handle ((co_unlock ^^ n) c)) \<and>
   w_result (wm_obj (mem ((co_unlock ^^ Suc k) c)) (waiting c ! k)) = Some True"
proof (induction k arbitrary: c)
  case 0
  then obtain w rest where "waiting c = w # rest" by (cases "waiting c") auto
  then show ?case using co_unlock_waiting(4) [OF 0(1)] 0(3) by simp
next
  case (Suc k)
  then obtain w rest where c: "waiting c = w # rest" by (cases "waiting c") auto
  note u = co_unlock_waiting [OF Suc.prems(1) c]
  have "distinct (wait_queue (co_unlock c))" using Suc.prems(1) u(3) by (auto simp: suffix_def)
  from Suc.IH [OF this] have IH: "\<forall>n \<le> k. native_handle ((co_unlock ^^ n) (co_unlock c))"
      "w_result (wm_obj (mem ((co_unlock ^^ Suc k) (co_unlock c))) (rest ! k)) = Some True"
    using Suc.prems(2,3) c u(1,2) by auto
  have "native_handle ((co_unlock ^^ n) c)" if "n \<le> Suc k" for n
    using that IH(1) Suc.prems(3) by (cases n) (auto simp: funpow_swap1)
  then show ?case using IH(2) c by (simp add: funpow_swap1)
qed

text \<open>On one thread every coroutine that waits is in the queue, and the mutex is not free then.\<close>

definition serial_inv :: "co_sys \<Rightarrow> bool" where
  "serial_inv s \<longleftrightarrow> distinct (wait_queue (cmx s)) \<and>
     (waiting (cmx s) \<noteq> [] \<longrightarrow> native_handle (cmx s)) \<and>
     (\<forall>w < wm_count (mem (cmx s)). w_finished (wm_obj (mem (cmx s)) w) \<longleftrightarrow> w_result (wm_obj (mem (cmx s)) w) \<noteq> None) \<and>
     (\<forall>i w. tasks s i = Co_waiting w \<longrightarrow> w_result (wm_obj (mem (cmx s)) w) = None \<longrightarrow> w \<in> set (wait_queue (cmx s)))"

lemma serial_inv_start: "serial_inv co_start"
  by (simp add: serial_inv_def co_start_def new_co_mutex_def waiting_def)

lemma serial_invD:
  assumes "serial_inv s"
  shows "distinct (wait_queue (cmx s))"
    and "waiting (cmx s) \<noteq> [] \<Longrightarrow> native_handle (cmx s)"
    and "w < wm_count (mem (cmx s)) \<Longrightarrow>
      w_finished (wm_obj (mem (cmx s)) w) \<longleftrightarrow> w_result (wm_obj (mem (cmx s)) w) \<noteq> None"
    and "tasks s i = Co_waiting w \<Longrightarrow> w_result (wm_obj (mem (cmx s)) w) = None \<Longrightarrow> w \<in> set (wait_queue (cmx s))"
  using assms unfolding serial_inv_def by blast+

lemma serial_waiting:
  assumes "co_inv s" "serial_inv s" "tasks s i = Co_waiting w" "w_result (wm_obj (mem (cmx s)) w) = None"
  shows "w \<in> set (waiting (cmx s))"
  using serial_invD(3) [OF assms(2) co_invD(3) [OF assms(1,3)]] serial_invD(4) [OF assms(2-4)] assms(4)
  by (simp add: waiting_def)

lemma serial_inv_unlock:
  assumes inv: "co_inv s" "serial_inv s"
  shows "serial_inv (becomes i Co_idle (co_unlock (cmx s)) s)"
proof -
  note d = serial_invD [OF inv(2)]
  show ?thesis
  proof (cases "waiting (cmx s)")
    case Nil
    note u = co_unlock_empty [OF d(1) Nil]
    have "\<not> (tasks s j = Co_waiting w \<and> w_result (wm_obj (mem (cmx s)) w) = None)" for j w
      using serial_waiting [OF inv] Nil by force
    then show ?thesis
      using u d(3) by (auto simp: serial_inv_def waiting_def same_but_def split: if_splits)
  next
    case (Cons w rest)
    note u = co_unlock_waiting [OF d(1) Cons]
    have rest: "set rest \<subseteq> set (wait_queue (co_unlock (cmx s)))"
      using u(2) unfolding waiting_def by (metis filter_is_subset)
    have "v \<in> set (wait_queue (co_unlock (cmx s)))"
      if "tasks s j = Co_waiting v" "w_result (wm_obj (mem (co_unlock (cmx s))) v) = None" for j v
    proof -
      have "v \<noteq> w" using that(2) u(4) by auto
      then have "w_result (wm_obj (mem (cmx s)) v) = None" using that(2) u(6) by (simp add: same_but_def)
      then show ?thesis using serial_waiting [OF inv that(1)] Cons \<open>v \<noteq> w\<close> rest by auto
    qed
    moreover have "w_finished (wm_obj (mem (co_unlock (cmx s))) v) \<longleftrightarrow> w_result (wm_obj (mem (co_unlock (cmx s))) v) \<noteq> None"
      if "v < wm_count (mem (cmx s))" for v
      using d(3) [OF that] u(4,5,6) by (cases "v = w") (auto simp: same_but_def)
    moreover have "distinct (wait_queue (co_unlock (cmx s)))" using d(1) u(3) by (auto simp: suffix_def)
    moreover have "native_handle (co_unlock (cmx s))" using u(1) d(2) Cons by simp
    ultimately show ?thesis using u(6) by (simp add: serial_inv_def same_but_def)
  qed
qed

lemma serial_inv_lock:
  assumes "co_inv s" "serial_inv s"
  shows "serial_inv (co_lock i timed s)"
proof (cases "native_handle (cmx s)")
  case True
  let ?m = "mem (cmx s)" and ?q = "wait_queue (cmx s)"
  have "wm_count ?m \<notin> set ?q" using co_invD(6) [OF assms(1)] by blast
  moreover have "v \<noteq> wm_count ?m" if "tasks s j = Co_waiting v" for j v
    using co_invD(3) [OF assms(1) that] by simp
  ultimately show ?thesis
    using serial_invD [OF assms(2)] True
    by (auto simp: serial_inv_def co_lock_def co_try_lock_def co_wait_def new_wake_up_def less_Suc_eq)
next
  case False
  then show ?thesis
    using serial_invD [OF assms(2)] by (simp add: serial_inv_def co_lock_def co_try_lock_def waiting_def)
qed

lemma timer_handler_serial:
  "w_finished (wm_obj m v) \<longleftrightarrow> w_result (wm_obj m v) \<noteq> None \<Longrightarrow>
   w_finished (wm_obj (timer_handler w m) v) \<longleftrightarrow> w_result (wm_obj (timer_handler w m) v) \<noteq> None"
  "w_finished (wm_obj m v) \<Longrightarrow> w_finished (wm_obj (timer_handler w m) v)"
  "w_result (wm_obj (timer_handler w m) v) = None \<Longrightarrow> w_result (wm_obj m v) = None"
  by (auto simp: wake_defs Let_def split: if_splits)

lemma serial_inv_mem:
  assumes "serial_inv s" "wm_count m = wm_count (mem (cmx s))"
    and "\<And>v. v < wm_count m \<Longrightarrow> w_finished (wm_obj m v) \<longleftrightarrow> w_result (wm_obj m v) \<noteq> None"
    and "\<And>v. w_finished (wm_obj (mem (cmx s)) v) \<Longrightarrow> w_finished (wm_obj m v)"
    and "\<And>v. w_result (wm_obj m v) = None \<Longrightarrow> w_result (wm_obj (mem (cmx s)) v) = None"
  shows "serial_inv (s\<lparr>cmx := cmx s\<lparr>mem := m\<rparr>\<rparr>)"
proof -
  have "waiting (cmx s\<lparr>mem := m\<rparr>) \<noteq> [] \<longrightarrow> waiting (cmx s) \<noteq> []"
    using assms(4) by (auto simp: waiting_def filter_empty_conv)
  then show ?thesis
    using serial_invD [OF assms(1)] assms(2,3,5) unfolding serial_inv_def by auto
qed

lemma serial_inv_step: "serial_move s t \<Longrightarrow> co_inv s \<Longrightarrow> serial_inv s \<Longrightarrow> serial_inv t"
proof (induction rule: serial_move.induct)
  case (lock s i timed)
  then show ?case by (intro serial_inv_lock)
next
  case (unlock s i)
  then show ?case by (intro serial_inv_unlock)
next
  case (expire w s)
  then show ?case using serial_invD(3) by (intro serial_inv_mem) auto
next
  case (handle w s)
  then show ?case
    using serial_invD(3) by (intro serial_inv_mem) (simp_all add: timer_handler_serial timer_handler_facts(1))
next
  case (resume s i w b)
  then show ?case using serial_invD [OF resume(4)] unfolding serial_inv_def by (auto split: if_splits)
qed

lemma co_inv_reach: "co_move\<^sup>*\<^sup>* co_start s \<Longrightarrow> co_inv s"
proof -
  have "co_move\<^sup>*\<^sup>* co_start s \<Longrightarrow> co_inv s \<and> untimed_inv (mem (cmx s))"
    by (induction rule: rtranclp_induct) (auto intro: co_inv_start untimed_inv_start co_inv_step untimed_inv_move)
  then show "co_move\<^sup>*\<^sup>* co_start s \<Longrightarrow> co_inv s" by blast
qed

lemma serial_reach:
  "co_serial\<^sup>*\<^sup>* co_start s \<Longrightarrow> co_move\<^sup>*\<^sup>* co_start s \<and> serial_inv s"
proof (induction rule: rtranclp_induct)
  case (step s t)
  then have "serial_move s t" by (simp add: co_serial_def)
  then show ?case
    using step co_serial_steps [of s t] serial_inv_step [of s t] co_inv_reach
    by (meson rtranclp_trans)
qed (simp add: serial_inv_start)

section \<open>The semaphore\<close>

record co_semaphore =
  m_counter :: nat
  sem_queue :: "nat list"
  sem_mem :: wake_mem

definition new_semaphore :: "nat \<Rightarrow> nat \<Rightarrow> co_semaphore res" where
  "new_semaphore max_v initial_count =
     (if max_v < initial_count then Inl Invalid_argument
      else Inr \<lparr>m_counter = initial_count, sem_queue = [], sem_mem = mem new_co_mutex\<rparr>)"

definition try_acquire :: "co_semaphore \<Rightarrow> bool \<times> co_semaphore" where
  "try_acquire s = (if m_counter s = 0 then (False, s) else (True, s\<lparr>m_counter := m_counter s - 1\<rparr>))"

text \<open>\<^verbatim>\<open>acquire\<close> and \<^verbatim>\<open>try_acquire_x\<close>: the wake-up that is waited for, if any.\<close>

definition acquire :: "nat \<Rightarrow> bool \<Rightarrow> co_semaphore \<Rightarrow> nat option \<times> co_semaphore" where
  "acquire owner timed s =
     (let (ok, s) = try_acquire s in
      if ok then (None, s)
      else let (w, m) = new_wake_up owner timed (sem_mem s)
           in (Some w, s\<lparr>sem_queue := sem_queue s @ [w], sem_mem := m\<rparr>))"

fun release_loop :: "nat list \<Rightarrow> co_semaphore \<Rightarrow> co_semaphore" where
  "release_loop [] s = s\<lparr>m_counter := m_counter s + 1\<rparr>"
| "release_loop (w # ws) s =
     (let (woken, m) = wake w True (sem_mem s);
          s = s\<lparr>sem_queue := ws, sem_mem := destroy w m\<rparr>
      in if woken then s else release_loop ws s)"

definition release_one :: "co_semaphore \<Rightarrow> co_semaphore" where
  "release_one s = release_loop (sem_queue s) s"

definition sem_release :: "nat \<Rightarrow> nat \<Rightarrow> co_semaphore \<Rightarrow> (nat \<times> co_semaphore) res" where
  "sem_release max_v n s =
     (if n = 0 \<or> size_sub max_v (m_counter s) < n then Inl Invalid_argument
      else let s = (release_one ^^ n) s in Inr (m_counter s, s))"

definition binary_release :: "co_semaphore \<Rightarrow> (nat \<times> co_semaphore) res" where
  "binary_release s =
     (if m_counter s = 1 then Inl Runtime_error
      else let s = release_one s in Inr (m_counter s, s))"

definition sem_waiting :: "co_semaphore \<Rightarrow> nat list" where
  "sem_waiting s = filter (\<lambda>w. \<not> w_finished (wm_obj (sem_mem s) w)) (sem_queue s)"

lemma release_loop_spec:
  "distinct ws \<Longrightarrow> sem_queue s = ws \<Longrightarrow>
   (case filter (\<lambda>w. \<not> w_finished (wm_obj (sem_mem s) w)) ws of
      [] \<Rightarrow> m_counter (release_loop ws s) = m_counter s + 1 \<and> sem_queue (release_loop ws s) = [] \<and>
        same_but None (sem_mem s) (sem_mem (release_loop ws s))
    | w # rest \<Rightarrow> m_counter (release_loop ws s) = m_counter s \<and>
        sem_waiting (release_loop ws s) = rest \<and> suffix (sem_queue (release_loop ws s)) ws \<and>
        w_result (wm_obj (sem_mem (release_loop ws s)) w) = Some True \<and>
        w_finished (wm_obj (sem_mem (release_loop ws s)) w) \<and>
        same_but (Some w) (sem_mem s) (sem_mem (release_loop ws s)))"
proof (induction ws arbitrary: s)
  case Nil
  then show ?case by (simp add: same_but_def)
next
  case (Cons w ws)
  show ?case
  proof (cases "w_finished (wm_obj (sem_mem s) w)")
    case True
    let ?s = "s\<lparr>sem_queue := ws, sem_mem := destroy w (sem_mem s)\<rparr>"
    have same: "same_but None (sem_mem s) (sem_mem ?s)" by (simp add: same_but_def wake_defs)
    have eq: "filter (\<lambda>w. \<not> w_finished (wm_obj (sem_mem ?s) w)) ws = filter (\<lambda>w. \<not> w_finished (wm_obj (sem_mem s) w)) (w # ws)"
      using True by (auto simp: wake_defs intro: filter_cong)
    have loop: "release_loop (w # ws) s = release_loop ws ?s" using True by (simp add: wake_def)
    have "distinct ws" using Cons.prems(1) by simp
    note IH = Cons.IH [of ?s, OF this, simplified eq]
    then show ?thesis
      using same_but_trans [OF same] unfolding loop
      by (cases "filter (\<lambda>w. \<not> w_finished (wm_obj (sem_mem s) w)) (w # ws)") (auto intro: suffix_ConsI)
  next
    case False
    let ?m = "destroy w (snd (wake w True (sem_mem s)))"
    have loop: "release_loop (w # ws) s = s\<lparr>sem_queue := ws, sem_mem := ?m\<rparr>"
      using False by (simp add: wake_def)
    have "sem_waiting (s\<lparr>sem_queue := ws, sem_mem := ?m\<rparr>) = filter (\<lambda>w. \<not> w_finished (wm_obj (sem_mem s) w)) ws"
      using Cons.prems(1) unfolding sem_waiting_def
      by (intro filter_cong) (auto simp: wake_defs split: if_splits)
    then show ?thesis
      using False unfolding loop by (auto simp: same_but_def wake_defs intro: suffix_ConsI)
  qed
qed

lemma release_one_waiting:
  assumes "distinct (sem_queue s)" "sem_waiting s = w # rest"
  shows "m_counter (release_one s) = m_counter s" "sem_waiting (release_one s) = rest"
    "suffix (sem_queue (release_one s)) (sem_queue s)"
    "w_result (wm_obj (sem_mem (release_one s)) w) = Some True"
    "same_but (Some w) (sem_mem s) (sem_mem (release_one s))"
  using release_loop_spec [OF assms(1) refl] assms(2) by (simp_all add: release_one_def sem_waiting_def)

lemma release_one_empty:
  assumes "distinct (sem_queue s)" "sem_waiting s = []"
  shows "m_counter (release_one s) = m_counter s + 1" "sem_queue (release_one s) = []"
    "same_but None (sem_mem s) (sem_mem (release_one s))"
  using release_loop_spec [OF assms(1) refl] assms(2) by (simp_all add: release_one_def sem_waiting_def)

lemma distinct_suffix: "suffix ys xs \<Longrightarrow> distinct xs \<Longrightarrow> distinct ys"
  by (auto simp: suffix_def)

lemma release_many:
  assumes "distinct (sem_queue s)"
  shows "suffix (sem_queue ((release_one ^^ n) s)) (sem_queue s) \<and>
    wm_count (sem_mem ((release_one ^^ n) s)) = wm_count (sem_mem s) \<and>
    m_counter ((release_one ^^ n) s) = m_counter s + (n - length (sem_waiting s)) \<and>
    sem_waiting ((release_one ^^ n) s) = drop n (sem_waiting s) \<and>
    (\<forall>w \<in> set (take n (sem_waiting s)). w_result (wm_obj (sem_mem ((release_one ^^ n) s)) w) = Some True)"
proof (induction n)
  case (Suc n)
  let ?s = "(release_one ^^ n) s"
  have d: "distinct (sem_queue ?s)" using Suc assms distinct_suffix by blast
  show ?case
  proof (cases "sem_waiting ?s")
    case Nil
    then have len: "length (sem_waiting s) \<le> n" using Suc by simp
    note r = release_one_empty [OF d Nil]
    have "sem_waiting (release_one ?s) = []" using r(2) by (simp add: sem_waiting_def)
    then show ?thesis using Suc r len by (simp add: same_but_def)
  next
    case (Cons w rest)
    then have n: "n < length (sem_waiting s)" "w = sem_waiting s ! n" "rest = drop (Suc n) (sem_waiting s)"
      using Suc by (metis drop_all linorder_not_le list.distinct(1), metis hd_drop_conv_nth drop_all linorder_not_le list.distinct(1) list.sel(1),
          metis drop_Suc list.sel(3) tl_drop)
    note r = release_one_waiting [OF d Cons]
    have "distinct (sem_waiting s)" using assms by (simp add: sem_waiting_def)
    then have "w \<notin> set (take n (sem_waiting s))"
      using n(1,2) by (auto simp: in_set_conv_nth nth_eq_iff_index_eq)
    then have "w_result (wm_obj (sem_mem (release_one ?s)) v) = Some True" if "v \<in> set (take n (sem_waiting s))" for v
      using that Suc r(5) unfolding same_but_def by (metis option.inject)
    then have "\<forall>v \<in> set (take (Suc n) (sem_waiting s)). w_result (wm_obj (sem_mem (release_one ?s)) v) = Some True"
      using r(4) n(1,2) by (auto simp: take_Suc_conv_app_nth)
    then show ?thesis
      using Suc r n suffix_order.trans [OF r(3)] by (simp add: same_but_def)
  qed
qed simp

datatype sem_op = Try_acquire | Acquire nat bool | Release nat | Expires nat | Expired nat

fun sem_exec :: "nat \<Rightarrow> co_semaphore \<Rightarrow> sem_op \<Rightarrow> co_semaphore" where
  "sem_exec max_v s Try_acquire = snd (try_acquire s)"
| "sem_exec max_v s (Acquire owner timed) = snd (acquire owner timed s)"
| "sem_exec max_v s (Release n) = (case sem_release max_v n s of Inl e \<Rightarrow> s | Inr (c, s') \<Rightarrow> s')"
| "sem_exec max_v s (Expires w) =
     (if w_timer (wm_obj (sem_mem s) w) = Timer_pending then s\<lparr>sem_mem := timer_expires w (sem_mem s)\<rparr> else s)"
| "sem_exec max_v s (Expired w) =
     (if w_timer (wm_obj (sem_mem s) w) = Timer_queued then s\<lparr>sem_mem := timer_handler w (sem_mem s)\<rparr> else s)"

definition sem_inv :: "nat \<Rightarrow> co_semaphore \<Rightarrow> bool" where
  "sem_inv max_v s \<longleftrightarrow> m_counter s \<le> max_v \<and> distinct (sem_queue s) \<and>
     (\<forall>w \<in> set (sem_queue s). w < wm_count (sem_mem s)) \<and> (m_counter s = 0 \<or> sem_waiting s = [])"

lemma sem_inv_release:
  assumes "sem_inv max_v s" "max_v < 2 ^ 64" "sem_release max_v n s = Inr (c, s')"
  shows "sem_inv max_v s'"
proof -
  have n: "n \<noteq> 0" "n \<le> max_v - m_counter s" "s' = (release_one ^^ n) s"
    using assms by (auto simp: sem_release_def sem_inv_def Let_def split: if_splits)
  have d: "distinct (sem_queue s)" using assms(1) by (simp add: sem_inv_def)
  note r = release_many [OF d, of n]
  have "set (sem_queue s') \<subseteq> set (sem_queue s)" using r n(3) by (simp add: set_mono_suffix)
  moreover have "m_counter s + (n - length (sem_waiting s)) = 0 \<or> drop n (sem_waiting s) = []"
    using assms(1) unfolding sem_inv_def by (cases "n < length (sem_waiting s)") auto
  ultimately show ?thesis
    using assms(1) r n distinct_suffix [OF _ d] unfolding sem_inv_def by auto
qed

lemma sem_inv_waiting_mem:
  assumes "sem_inv max_v s" "wm_count m = wm_count (sem_mem s)"
    and "\<And>v. w_finished (wm_obj (sem_mem s) v) \<Longrightarrow> w_finished (wm_obj m v)"
  shows "sem_inv max_v (s\<lparr>sem_mem := m\<rparr>)"
  using assms by (auto simp: sem_inv_def sem_waiting_def filter_empty_conv)

lemma sem_inv_exec:
  assumes "max_v < 2 ^ 64" "sem_inv max_v s"
  shows "sem_inv max_v (sem_exec max_v s op)"
proof (cases op)
  case Try_acquire
  then show ?thesis using assms(2) by (auto simp: try_acquire_def sem_inv_def sem_waiting_def)
next
  case (Acquire owner timed)
  then show ?thesis
    using assms(2) by (auto simp: acquire_def try_acquire_def new_wake_up_def sem_inv_def sem_waiting_def)
next
  case (Release n)
  then show ?thesis
    using sem_inv_release [OF assms(2,1)] assms(2) by (auto split: sum.splits)
next
  case (Expires w)
  then show ?thesis using assms(2) sem_inv_waiting_mem [OF assms(2), of "timer_expires w (sem_mem s)"] by auto
next
  case (Expired w)
  then show ?thesis
    using assms(2) sem_inv_waiting_mem [OF assms(2), of "timer_handler w (sem_mem s)"]
      timer_handler_facts(1) timer_handler_serial(2) by auto
qed

lemma sem_inv_run:
  "max_v < 2 ^ 64 \<Longrightarrow> sem_inv max_v s \<Longrightarrow> sem_inv max_v (foldl (sem_exec max_v) s ops)"
  by (induction ops arbitrary: s) (simp_all add: sem_inv_exec)

lemma sem_inv_new: "new_semaphore max_v n = Inr s \<Longrightarrow> sem_inv max_v s"
  by (auto simp: new_semaphore_def sem_inv_def sem_waiting_def split: if_splits)

section \<open>The shared mutex\<close>

record co_shared =
  read_handle :: co_mutex
  m_read_count :: u32

definition new_co_shared :: co_shared where
  "new_co_shared = \<lparr>read_handle = new_co_mutex, m_read_count = 0\<rparr>"

definition co_try_lock_shared :: "co_shared \<Rightarrow> bool \<times> co_shared" where
  "co_try_lock_shared s =
     (let s = s\<lparr>m_read_count := m_read_count s + 1\<rparr> in
      if m_read_count s = 1 then
        let (ok, c) = co_try_lock (read_handle s) in (ok, s\<lparr>read_handle := c\<rparr>)
      else (True, s))"

text \<open>\<^verbatim>\<open>lock_shared\<close>: the wake-up that is waited for, if any.\<close>

definition co_lock_shared :: "nat \<Rightarrow> co_shared \<Rightarrow> nat option \<times> co_shared" where
  "co_lock_shared owner s =
     (let s = s\<lparr>m_read_count := m_read_count s + 1\<rparr> in
      if m_read_count s = 1 then
        let (ok, c) = co_try_lock (read_handle s) in
        if ok then (None, s\<lparr>read_handle := c\<rparr>)
        else let (w, c) = co_wait owner False c in (Some w, s\<lparr>read_handle := c\<rparr>)
      else (None, s))"

definition co_unlock_shared :: "co_shared \<Rightarrow> co_shared" where
  "co_unlock_shared s =
     (let counter = m_read_count s in
      if counter = 0 then s\<lparr>read_handle := co_unlock (read_handle s)\<rparr>
      else s\<lparr>m_read_count := counter - 1\<rparr>)"

definition write_try_lock :: "co_shared \<Rightarrow> bool \<times> co_shared" where
  "write_try_lock s = (let (ok, c) = co_try_lock (read_handle s) in (ok, s\<lparr>read_handle := c\<rparr>))"

lemma of_nat_u32_zero: "n < 2 ^ 32 \<Longrightarrow> (of_nat n :: u32) = 0 \<longleftrightarrow> n = 0"
  using nat_dvd_not_less [of n "2 ^ 32"] by (auto simp: word_of_nat_eq_0_iff)

lemma readers_in:
  "0 < n \<Longrightarrow> n < 2 ^ 32 \<Longrightarrow>
   ((\<lambda>s. snd (co_lock_shared i s)) ^^ n) new_co_shared =
     \<lparr>read_handle = new_co_mutex\<lparr>native_handle := True\<rparr>, m_read_count = of_nat n\<rparr>"
proof (induction n)
  case (Suc n)
  show ?case
  proof (cases "n = 0")
    case True
    then show ?thesis by (simp add: co_lock_shared_def new_co_shared_def co_try_lock_def new_co_mutex_def)
  next
    case False
    have "(of_nat n + 1 :: u32) \<noteq> 1"
      using False Suc.prems(2) of_nat_u32_zero [of n] by simp
    then show ?thesis using Suc False by (simp add: co_lock_shared_def add.commute)
  qed
qed simp

lemma reader_out:
  "Suc n < 2 ^ 32 \<Longrightarrow>
   co_unlock_shared \<lparr>read_handle = c, m_read_count = of_nat (Suc n)\<rparr> = \<lparr>read_handle = c, m_read_count = of_nat n\<rparr>"
  using of_nat_u32_zero [of "Suc n"] by (simp add: co_unlock_shared_def)

lemma readers_out:
  "n < 2 ^ 32 \<Longrightarrow> (co_unlock_shared ^^ n) \<lparr>read_handle = c, m_read_count = of_nat n\<rparr> = \<lparr>read_handle = c, m_read_count = 0\<rparr>"
proof (induction n)
  case (Suc n)
  then have "(co_unlock_shared ^^ n) \<lparr>read_handle = c, m_read_count = of_nat n\<rparr> = \<lparr>read_handle = c, m_read_count = 0\<rparr>"
    by simp
  then show ?case by (simp only: funpow_Suc_right o_apply reader_out [OF Suc.prems])
qed simp

section \<open>Properties\<close>

lemma five_chained: "r a b \<Longrightarrow> r b c \<Longrightarrow> r c d \<Longrightarrow> r d e \<Longrightarrow> r e f \<Longrightarrow> r\<^sup>*\<^sup>* a f"
  by (meson converse_rtranclp_into_rtranclp rtranclp.rtrancl_refl)

lemma five_steps:
  assumes "r a b" "r b c" "r c d" "r d e" "r e f" "\<And>x. x \<in> {a, b, c, d, e} \<Longrightarrow> P x"
  shows "(\<lambda>x y. P x \<and> r x y)\<^sup>*\<^sup>* a f"
  by (rule five_chained [of _ a b c d e f]) (use assms in simp_all)

lemmas sample_defs = co_lock_def co_try_lock_def co_wait_def new_wake_up_def co_start_def new_co_mutex_def becomes_def

text \<open>C11.
  On one thread, whatever the order of locks, timed locks, unlocks and timers, at most one
  coroutine has the mutex, counting one whose wake-up was successful but that has not resumed,
  and the handle is set as long as one has it. In particular no \<^verbatim>\<open>lock\<close> goes on after a wake-up
  that failed, although it does not look at the result. (Nothing is claimed from the point on
  where the handler of a timer uses a wake-up that was destroyed.)
\<close>

theorem co_mutex_exclusive:
  assumes "co_serial\<^sup>*\<^sup>* co_start s" "\<not> wm_fault (mem (cmx s))" "owns s i" "owns s j"
  shows "i = j \<and> native_handle (cmx s)"
  using co_inv_reach serial_reach [OF assms(1)] assms(3,4) unfolding co_inv_def by blast

theorem co_mutex_exclusive_witness:
  "native_handle (cmx (co_lock 2 False (co_lock 1 True co_start)))"
proof -
  let ?a = "co_lock 1 True co_start" and ?b = "co_lock 2 False (co_lock 1 True co_start)"
  have "co_serial co_start ?a" unfolding co_serial_def
    by (intro conjI serial_move.lock) (simp_all add: co_start_def new_co_mutex_def)
  moreover have "co_serial ?a ?b" unfolding co_serial_def
    by (intro conjI serial_move.lock) (simp_all add: sample_defs)
  ultimately have "co_serial\<^sup>*\<^sup>* co_start ?b" by simp
  moreover have "\<not> wm_fault (mem (cmx ?b))" "owns ?b 1" by (simp_all add: sample_defs owns_def)
  ultimately show ?thesis using co_mutex_exclusive [of ?b 1 1] by simp
qed

text \<open>C10.
  On one thread no coroutine waits forever while the mutex is unlocked again and again: one
  that waits has some place in the queue, the next unlocks hand the mutex to those before it
  in order, without its ever being free in between, and then to it.
\<close>

theorem co_mutex_served:
  assumes "co_serial\<^sup>*\<^sup>* co_start s" "tasks s i = Co_waiting w" "w_result (wm_obj (mem (cmx s)) w) = None"
  shows "\<exists>k < length (waiting (cmx s)). waiting (cmx s) ! k = w \<and>
    (\<forall>n \<le> k. native_handle ((co_unlock ^^ n) (cmx s))) \<and>
    w_result (wm_obj (mem ((co_unlock ^^ Suc k) (cmx s))) w) = Some True"
proof -
  have inv: "co_inv s" "serial_inv s" using serial_reach [OF assms(1)] co_inv_reach by auto
  have "w \<in> set (waiting (cmx s))" using serial_waiting [OF inv assms(2,3)] .
  then obtain k where k: "k < length (waiting (cmx s))" "waiting (cmx s) ! k = w"
    by (auto simp: in_set_conv_nth)
  then have "waiting (cmx s) \<noteq> []" by (cases "waiting (cmx s)") auto
  then have "native_handle (cmx s)" using serial_invD(2) [OF inv(2)] by simp
  from waiting_served [OF serial_invD(1) [OF inv(2)] k(1) this] k show ?thesis by blast
qed

theorem co_mutex_served_witness:
  "\<exists>k < length (waiting (cmx (co_lock 2 False (co_lock 1 False co_start)))).
    waiting (cmx (co_lock 2 False (co_lock 1 False co_start))) ! k = 0 \<and>
    (\<forall>n \<le> k. native_handle ((co_unlock ^^ n) (cmx (co_lock 2 False (co_lock 1 False co_start))))) \<and>
    w_result (wm_obj (mem ((co_unlock ^^ Suc k) (cmx (co_lock 2 False (co_lock 1 False co_start))))) 0) = Some True"
proof (rule co_mutex_served)
  have "co_serial co_start (co_lock 1 False co_start)" unfolding co_serial_def
    by (intro conjI serial_move.lock) (simp_all add: co_start_def new_co_mutex_def)
  moreover have "co_serial (co_lock 1 False co_start) (co_lock 2 False (co_lock 1 False co_start))" unfolding co_serial_def
    by (intro conjI serial_move.lock) (simp_all add: sample_defs)
  ultimately show "co_serial\<^sup>*\<^sup>* co_start (co_lock 2 False (co_lock 1 False co_start))" by simp
  show "tasks (co_lock 2 False (co_lock 1 False co_start)) 2 = Co_waiting 0"
    "w_result (wm_obj (mem (cmx (co_lock 2 False (co_lock 1 False co_start)))) 0) = None"
    by (simp_all add: sample_defs)
qed

text \<open>
  On several threads a wake-up can be lost: the mutex is freed between the failed attempt of
  a coroutine and its entry into the queue, and it then waits, without a timer, for a mutex
  that is free and that nobody has.
\<close>

theorem co_lost_wake_up:
  "\<exists>s. co_step\<^sup>*\<^sup>* co_start s \<and> tasks s 2 = Co_waiting 0 \<and> \<not> native_handle (cmx s) \<and>
    w_result (wm_obj (mem (cmx s)) 0) = None \<and> w_timer (wm_obj (mem (cmx s)) 0) = Timer_off \<and>
    (\<forall>i. i = 2 \<or> tasks s i = Co_idle)"
proof -
  let ?sys = "\<lambda>h ts. \<lparr>cmx = new_co_mutex\<lparr>native_handle := h\<rparr>, tasks = ts\<rparr>"
  let ?a = "?sys True ((\<lambda>_. Co_idle)(1 := Co_holds))"
  let ?b = "?sys True ((\<lambda>_. Co_idle)(1 := Co_holds, 2 := Co_failed False))"
  let ?c = "?sys True ((\<lambda>_. Co_idle)(1 := Co_unlocking, 2 := Co_failed False))"
  let ?d = "?sys True ((\<lambda>_. Co_idle)(1 := Co_releasing, 2 := Co_failed False))"
  let ?e = "?sys False ((\<lambda>_. Co_idle)(2 := Co_failed False))"
  let ?f = "\<lparr>cmx = snd (co_wait 2 False new_co_mutex), tasks = (\<lambda>_. Co_idle)(2 := Co_waiting 0)\<rparr>"
  have free: "new_co_mutex\<lparr>native_handle := False\<rparr> = new_co_mutex" by (simp add: new_co_mutex_def)
  have start: "co_move co_start ?a"
    using co_move.take [of co_start 1 "new_co_mutex\<lparr>native_handle := True\<rparr>"]
    by (simp add: co_start_def co_try_lock_def becomes_def) (simp add: new_co_mutex_def)
  have "co_move ?a ?b"
    using co_move.miss [of ?a 2 "cmx ?a" False] by (simp add: co_try_lock_def becomes_def)
  moreover have "co_move ?b ?c"
    using co_move.release [of ?b 1] by (simp add: becomes_def fun_upd_twist)
  moreover have "co_move ?c ?d"
    using co_move.nobody [of ?c 1] by (simp add: becomes_def fun_upd_twist new_co_mutex_def)
  moreover have "becomes 1 Co_idle (cmx ?d\<lparr>native_handle := False\<rparr>) ?d = ?e"
    by (simp add: becomes_def fun_eq_iff)
  then have "co_move ?d ?e" using co_move.free [of ?d 1] by simp
  moreover have "co_move ?e ?f"
    using co_move.wait [of ?e 2 False 0 "snd (co_wait 2 False new_co_mutex)"]
    by (simp add: becomes_def free) (simp add: co_wait_def new_wake_up_def new_co_mutex_def)
  moreover have fine: "\<not> wm_fault (mem (cmx co_start))" "\<And>x. x \<in> {?a, ?b, ?c, ?d, ?e} \<Longrightarrow> \<not> wm_fault (mem (cmx x))"
    by (auto simp: co_start_def new_co_mutex_def)
  ultimately have "co_step\<^sup>*\<^sup>* ?a ?f"
    using five_steps [of co_move ?a ?b ?c ?d ?e ?f "\<lambda>x. \<not> wm_fault (mem (cmx x))"]
    unfolding co_step_def [abs_def] by blast
  moreover have "co_step co_start ?a" using start fine(1) by (simp add: co_step_def)
  ultimately have "co_step\<^sup>*\<^sup>* co_start ?f" by (rule converse_rtranclp_into_rtranclp [rotated])
  then show ?thesis
    by (intro exI [of _ ?f] conjI) (simp_all add: co_wait_def new_wake_up_def new_co_mutex_def)
qed

text \<open>
  The handler of a timer can run after the wake-up it belongs to has been destroyed: the
  timer expires, \<^verbatim>\<open>unlock\<close> wakes the coroutine and drops the object, and the handler, queued
  already, uses its address. One thread is enough for it.
\<close>

theorem timer_use_after_free:
  "\<exists>s. co_serial\<^sup>*\<^sup>* co_start s \<and> wm_fault (mem (cmx s))"
proof -
  let ?none = "\<lambda>_. \<lparr>w_owner = 0, w_timed = False, w_finished = False, w_timer = Timer_off, w_alive = False, w_result = None\<rparr>"
  let ?mem = "\<lambda>x f. \<lparr>wm_count = 1, wm_obj = ?none(0 := x), wm_fault = f\<rparr>"
  let ?sys = "\<lambda>q x f ts. \<lparr>cmx = \<lparr>native_handle = True, wait_queue = q, mem = ?mem x f\<rparr>, tasks = ts\<rparr>"
  let ?obj = "\<lambda>done t alive r. \<lparr>w_owner = 2, w_timed = True, w_finished = done, w_timer = t, w_alive = alive, w_result = r\<rparr>"
  let ?held = "(\<lambda>_. Co_idle)(1 := Co_holds, 2 := Co_waiting 0)"
  let ?left = "(\<lambda>_. Co_idle)(2 := Co_waiting 0)"
  let ?a = "\<lparr>cmx = new_co_mutex\<lparr>native_handle := True\<rparr>, tasks = (\<lambda>_. Co_idle)(1 := Co_holds)\<rparr>"
  let ?b = "?sys [0] (?obj False Timer_pending True None) False ?held"
  let ?c = "?sys [0] (?obj False Timer_queued True None) False ?held"
  let ?d = "?sys [] (?obj True Timer_queued False (Some True)) False ?left"
  let ?e = "?sys [] (?obj True Timer_off False (Some True)) True ?left"
  have "co_lock 1 False co_start = ?a" by (simp add: sample_defs)
  then have "serial_move co_start ?a" using serial_move.lock [of co_start 1 False] by (simp add: co_start_def)
  moreover have "co_lock 2 True ?a = ?b" by (simp add: sample_defs)
  then have "serial_move ?a ?b" using serial_move.lock [of ?a 2 True] by simp
  moreover have "timer_expires 0 (mem (cmx ?b)) = mem (cmx ?c)" by (simp add: wake_defs)
  then have "serial_move ?b ?c" using serial_move.expire [of 0 ?b] by simp
  moreover have "co_unlock (cmx ?c) = cmx ?d" by (simp add: co_unlock_def unlock_round_def wake_defs)
  then have "becomes 1 Co_idle (co_unlock (cmx ?c)) ?c = ?d" by (simp add: becomes_def fun_eq_iff)
  then have "serial_move ?c ?d" using serial_move.unlock [of ?c 1] by simp
  moreover have "timer_handler 0 (mem (cmx ?d)) = mem (cmx ?e)" by (simp add: wake_defs)
  then have "serial_move ?d ?e" using serial_move.handle [of 0 ?d] by simp
  moreover have "\<And>x. x \<in> {co_start, ?a, ?b, ?c, ?d} \<Longrightarrow> \<not> wm_fault (mem (cmx x))"
    by (auto simp: co_start_def new_co_mutex_def)
  ultimately have "co_serial\<^sup>*\<^sup>* co_start ?e"
    using five_steps [of serial_move co_start ?a ?b ?c ?d ?e "\<lambda>x. \<not> wm_fault (mem (cmx x))"]
    unfolding co_serial_def [abs_def] by blast
  then show ?thesis by (intro exI [of _ ?e] conjI) simp_all
qed

text \<open>
  The semaphore: whatever is acquired, released and timed out, its counter stays within the
  maximum and nobody waits while it is positive; and a release wakes as many of those that
  wait as it releases, from the first on, and adds only what is left over to the counter.
\<close>

theorem semaphore_release_spec:
  assumes "new_semaphore max_v initial_count = Inr s0" "max_v < 2 ^ 64" "s = foldl (sem_exec max_v) s0 ops"
  shows "m_counter s \<le> max_v \<and> (m_counter s = 0 \<or> sem_waiting s = []) \<and>
    (if 0 < n \<and> n \<le> max_v - m_counter s then
       \<exists>s'. sem_release max_v n s = Inr (m_counter s + (n - length (sem_waiting s)), s') \<and>
         sem_waiting s' = drop n (sem_waiting s) \<and>
         (\<forall>w \<in> set (take n (sem_waiting s)). w_result (wm_obj (sem_mem s') w) = Some True)
     else sem_release max_v n s = Inl Invalid_argument)"
proof -
  have inv: "sem_inv max_v s" using sem_inv_run [OF assms(2) sem_inv_new [OF assms(1)]] assms(3) by simp
  then have c: "m_counter s \<le> max_v" and d: "distinct (sem_queue s)" by (simp_all add: sem_inv_def)
  have room: "size_sub max_v (m_counter s) = max_v - m_counter s" using c assms(2) by simp
  show ?thesis
    using inv release_many [OF d, of n] by (auto simp: sem_inv_def sem_release_def room Let_def)
qed

theorem semaphore_release_spec_witness:
  "\<exists>s. new_semaphore 2 0 = Inr s \<and> m_counter (foldl (sem_exec 2) s [Acquire 1 False, Release 2]) \<le> 2"
proof -
  obtain s where s: "new_semaphore 2 0 = Inr s" by (simp add: new_semaphore_def)
  from semaphore_release_spec [OF s _ refl, of "[Acquire 1 False, Release 2]" 1] s show ?thesis by auto
qed

text \<open>
  The shared mutex of coroutines is never released by readers: after \<open>n\<close> readers have come
  and gone its counter is zero and no writer can lock it, because \<^verbatim>\<open>unlock_shared\<close> looks for
  zero before it counts down.
\<close>

theorem co_shared_stays_locked:
  assumes "0 < n" "n < 2 ^ 32"
  shows "m_read_count ((co_unlock_shared ^^ n) (((\<lambda>s. snd (co_lock_shared i s)) ^^ n) new_co_shared)) = 0 \<and>
    \<not> fst (write_try_lock ((co_unlock_shared ^^ n) (((\<lambda>s. snd (co_lock_shared i s)) ^^ n) new_co_shared)))"
  using assms by (simp add: readers_in readers_out write_try_lock_def co_try_lock_def)

theorem co_shared_stays_locked_witness:
  "m_read_count ((co_unlock_shared ^^ 3) (((\<lambda>s. snd (co_lock_shared 7 s)) ^^ 3) new_co_shared)) = 0 \<and>
    \<not> fst (write_try_lock ((co_unlock_shared ^^ 3) (((\<lambda>s. snd (co_lock_shared 7 s)) ^^ 3) new_co_shared)))"
  by (rule co_shared_stays_locked) simp_all

end
