(* ===== verification/Ini_File.thy ===== *)
theory Ini_File
  imports Std_Map String_List Percent_Encoding
begin

text \<open>
  Configuration files (\<^verbatim>\<open>basic_ini\<close> of \<^verbatim>\<open>libgs/core/detail/ini.h\<close>): groups of keys with
  values, read from and written to a text file. The file is the list of its bytes, or absent;
  the reading stream keeps its end-of-file flag, because \<^verbatim>\<open>peek\<close> on a stream that has it
  raises the fail flag, and with it the exception the stream was told to throw. The callback
  that cancels the work is a function of the number of the line or group it is called for.
  Opening the file and writing to it succeed, and the line numbers, which become error codes,
  fit in an \<^verbatim>\<open>int\<close>.
\<close>

section \<open>Groups and keys\<close>

type_synonym ini_keys = "(string, string) std_map"
type_synonym ini_groups = "(string, ini_keys) std_map"

definition keys_read :: "ini_keys \<Rightarrow> string \<Rightarrow> string res" where
  "keys_read keys key = (case map_of keys key of None \<Rightarrow> Inl Runtime_error | Some v \<Rightarrow> Inr v)"

definition keys_read_or :: "ini_keys \<Rightarrow> string \<Rightarrow> string \<Rightarrow> string" where
  "keys_read_or keys key def_value = (case map_of keys key of None \<Rightarrow> def_value | Some v \<Rightarrow> v)"

definition keys_write :: "ini_keys \<Rightarrow> string \<Rightarrow> string \<Rightarrow> ini_keys" where
  "keys_write keys key val = map_put keys key val"

text \<open>\<^verbatim>\<open>m_groups[group]\<close>: the keys of a group, which is created when it is missing.\<close>

definition keys_of :: "ini_groups \<Rightarrow> string \<Rightarrow> ini_keys" where
  "keys_of groups grp = (case map_of groups grp of None \<Rightarrow> [] | Some keys \<Rightarrow> keys)"

definition ini_read :: "ini_groups \<Rightarrow> string \<times> string \<Rightarrow> string res" where
  "ini_read groups gk =
     (case map_of groups (fst gk) of
        None \<Rightarrow> Inl Runtime_error
      | Some keys \<Rightarrow> keys_read keys (snd gk))"

definition ini_read_or :: "ini_groups \<Rightarrow> string \<times> string \<Rightarrow> string \<Rightarrow> string" where
  "ini_read_or groups gk def_value =
     (case map_of groups (fst gk) of
        None \<Rightarrow> def_value
      | Some keys \<Rightarrow> keys_read_or keys (snd gk) def_value)"

definition ini_write :: "ini_groups \<Rightarrow> string \<times> string \<Rightarrow> string \<Rightarrow> ini_groups" where
  "ini_write groups gk val =
     map_put groups (fst gk) (keys_write (keys_of groups (fst gk)) (snd gk) val)"

text \<open>
  The member \<^verbatim>\<open>group\<close> throws when the group is there, and dereferences the end iterator when
  it is not: \<^const>\<open>None\<close> stands for that undefined access.
\<close>

definition ini_group :: "ini_groups \<Rightarrow> string \<Rightarrow> ini_keys option res" where
  "ini_group groups grp =
     (if map_of groups grp \<noteq> None then Inl Runtime_error else Inr None)"

text \<open>A path is a group and a key with a slash between them.\<close>

definition from_path :: "string \<Rightarrow> (string \<times> string) res" where
  "from_path path =
     (case from_string_char path (CHR ''/'') True of
        Some str_list \<Rightarrow>
          if length str_list \<noteq> 2 then Inl Runtime_error else Inr (str_list ! 0, str_list ! 1)
      | None \<Rightarrow> Inl Runtime_error)"

definition path_read :: "ini_groups \<Rightarrow> string \<Rightarrow> string res" where
  "path_read groups path = res_bind (from_path path) (ini_read groups)"

definition path_read_or :: "ini_groups \<Rightarrow> string \<Rightarrow> string \<Rightarrow> string res" where
  "path_read_or groups path def_value =
     res_bind (from_path path) (\<lambda>gk. Inr (ini_read_or groups gk def_value))"

text \<open>Writing by path is declared \<^verbatim>\<open>noexcept\<close>: the exception ends the program (\<^const>\<open>None\<close>).\<close>

definition path_write :: "ini_groups \<Rightarrow> string \<Rightarrow> string \<Rightarrow> ini_groups option" where
  "path_write groups path val =
     (case from_path path of Inl e \<Rightarrow> None | Inr gk \<Rightarrow> Some (ini_write groups gk val))"

section \<open>Reading a file\<close>

datatype ini_category =
    Ini_invalid_group
  | Ini_no_group_specified
  | Ini_invalid_key_value_line
  | Ini_key_is_empty
  | Ini_invalid_value

datatype ini_error =
    No_such_file
  | Operation_aborted
  | Io_failure
  | Syntax_error ini_category nat

definition parsing_group :: "ini_groups \<Rightarrow> string \<Rightarrow> nat \<Rightarrow> ini_error + string \<times> ini_groups" where
  "parsing_group groups str line =
     (if length str < 3 \<or> \<not> ends_with '']'' str then Inl (Syntax_error Ini_invalid_group line)
      else
        let grp = from_percent_encoding (str_trimmed (substr 1 (length str - 2) str)) in
        if grp = [] then Inl (Syntax_error Ini_invalid_group line)
        else Inr (grp, map_ensure groups grp []))"

text \<open>The count of leading assignment signs of a value.\<close>

fun assign_count :: "string \<Rightarrow> nat" where
  "assign_count [] = 0"
| "assign_count (c # cs) = (if c \<noteq> CHR ''='' then 0 else Suc (assign_count cs))"

definition quotes :: "string" where
  "quotes = [CHR 0x27, CHR 0x22]"

definition parsing_value :: "string \<Rightarrow> nat \<Rightarrow> ini_error + string" where
  "parsing_value str line =
     (let val = str_trimmed str;
          i = assign_count val;
          val = (if 1 \<le> i then substr 0 (i - 1) val else val)
      in if length val = 1 then
           if val ! 0 = CHR ''='' \<or> val ! 0 \<in> set quotes then Inl (Syntax_error Ini_invalid_value line)
           else Inr val
         else if val \<noteq> [] \<and> val ! 0 \<in> set quotes then
           if last val \<noteq> val ! 0 then Inl (Syntax_error Ini_invalid_value line)
           else Inr (substr 1 (length val - 2) val)
         else Inr val)"

definition parsing_key_value :: "ini_groups \<Rightarrow> string \<Rightarrow> string \<Rightarrow> nat \<Rightarrow> ini_error + ini_groups" where
  "parsing_key_value groups curr_group str line =
     (if curr_group = [] then Inl (Syntax_error Ini_no_group_specified line)
      else if length str < 2 then Inl (Syntax_error Ini_invalid_key_value_line line)
      else case find_char (CHR ''='') str of
             None \<Rightarrow> Inl (Syntax_error Ini_invalid_key_value_line line)
           | Some 0 \<Rightarrow> Inl (Syntax_error Ini_key_is_empty line)
           | Some pos \<Rightarrow>
               let key = from_percent_encoding (str_trimmed (substr 0 pos str)) in
               if key = [] then Inl (Syntax_error Ini_key_is_empty line)
               else case parsing_value (drop (pos + 1) str) line of
                      Inl e \<Rightarrow> Inl e
                    | Inr val \<Rightarrow>
                        Inr (map_put groups curr_group
                              (map_put (keys_of groups curr_group) key (from_percent_encoding val))))"

text \<open>\<^verbatim>\<open>str_trimmed(from_string(buf, c)[0])\<close>: what stands before a comment.\<close>

definition cut_comment :: "char \<Rightarrow> string \<Rightarrow> string" where
  "cut_comment c buf = str_trimmed (the (from_string_char buf c True) ! 0)"

definition comment_line :: "string \<Rightarrow> bool" where
  "comment_line buf \<longleftrightarrow> buf = [] \<or> buf ! 0 = CHR ''#'' \<or> buf ! 0 = CHR '';''"

definition load_line :: "string \<Rightarrow> nat \<Rightarrow> string \<Rightarrow> ini_groups \<Rightarrow> ini_error + string \<times> ini_groups" where
  "load_line buf line curr_group groups =
     (let buf = str_trimmed buf in
      if comment_line buf then Inr (curr_group, groups)
      else
        let buf = cut_comment (CHR ''#'') buf;
            buf = cut_comment (CHR '';'') buf
        in if starts_with ''['' buf then parsing_group groups buf line
           else case parsing_key_value groups curr_group buf line of
                  Inl e \<Rightarrow> Inl e
                | Inr groups \<Rightarrow> Inr (curr_group, groups))"

text \<open>\<^verbatim>\<open>std::getline\<close>: the line, what is left, and whether the end of the file was met.\<close>

definition getline :: "string \<Rightarrow> string \<times> string \<times> bool" where
  "getline file =
     (case find_char (CHR 0x0A) file of
        None \<Rightarrow> (file, [], True)
      | Some n \<Rightarrow> (take n file, drop (n + 1) file, False))"

function load_loop ::
    "(nat \<Rightarrow> bool) \<Rightarrow> nat \<Rightarrow> string \<Rightarrow> bool \<Rightarrow> string \<Rightarrow> ini_groups \<Rightarrow> ini_error option \<times> ini_groups" where
  "load_loop cancelled line file eof curr_group groups =
     (if cancelled line then (Some Operation_aborted, groups)
      else if eof then (Some Io_failure, groups)
      else if file = [] then (None, groups)
      else
        let (buf, rest, eof) = getline file in
        case load_line buf line curr_group groups of
          Inl e \<Rightarrow> (Some e, groups)
        | Inr (curr_group, groups) \<Rightarrow> load_loop cancelled (line + 1) rest eof curr_group groups)"
  by pat_completeness auto
termination
  by (relation "measure (\<lambda>(_, _, file, _). length file)")
    (auto simp: getline_def split: option.splits)

declare load_loop.simps [simp del]

definition ini_load :: "(nat \<Rightarrow> bool) \<Rightarrow> string option \<Rightarrow> ini_groups \<Rightarrow> ini_error option \<times> ini_groups" where
  "ini_load cancelled file groups =
     (case file of
        None \<Rightarrow> (Some No_such_file, groups)
      | Some content \<Rightarrow> load_loop cancelled 1 content False [] groups)"

section \<open>Writing a file\<close>

abbreviation ini_encode :: "string \<Rightarrow> string" where
  "ini_encode s \<equiv> (if is_ascii s then s else to_percent_encoding s [] [] (CHR ''%''))"

text \<open>One key of a group: the text that is written, and the value, which loses a leading plus.\<close>

definition sync_key :: "string \<Rightarrow> string \<Rightarrow> string \<times> string" where
  "sync_key key val =
     (if key = [] \<or> val = [] then ([], val)
      else
        let (val, out) =
          (if is_rlnum val then
             let val = (if val ! 0 = CHR ''+'' then drop 1 val else val) in (val, val)
           else (val, [CHR 0x22] @ ini_encode val @ [CHR 0x22]))
        in (ini_encode key @ ''='' @ out @ [CHR 0x0A], val))"

fun sync_keys :: "ini_keys \<Rightarrow> string \<times> ini_keys" where
  "sync_keys [] = ([], [])"
| "sync_keys ((key, val) # keys) =
     (let (out, val) = sync_key key val; (rest, keys) = sync_keys keys
      in (out @ rest, (key, val) # keys))"

definition group_line :: "string \<Rightarrow> string" where
  "group_line grp = ''['' @ ini_encode grp @ '']'' @ [CHR 0x0A]"

fun sync_loop :: "(nat \<Rightarrow> bool) \<Rightarrow> nat \<Rightarrow> ini_groups \<Rightarrow> ini_error option \<times> string \<times> ini_groups" where
  "sync_loop cancelled n [] = (None, [], [])"
| "sync_loop cancelled n ((grp, keys) # groups) =
     (if cancelled n then (Some Operation_aborted, [], (grp, keys) # groups)
      else
        let (out, keys) = sync_keys keys;
            (error, rest, groups) = sync_loop cancelled (n + 1) groups
        in (error, group_line grp @ out @ [CHR 0x0A] @ rest, (grp, keys) # groups))"

text \<open>The error, the content of the file and the groups after \<^verbatim>\<open>sync\<close>.\<close>

definition ini_sync :: "(nat \<Rightarrow> bool) \<Rightarrow> ini_groups \<Rightarrow> ini_error option \<times> string \<times> ini_groups" where
  "ini_sync cancelled groups = sync_loop cancelled 1 groups"

section \<open>Lines without comments\<close>

definition plain_text :: "string \<Rightarrow> bool" where
  "plain_text s = list_all (\<lambda>c. c \<noteq> CHR ''#'' \<and> c \<noteq> CHR '';'' \<and> c \<noteq> CHR ''%'' \<and> c \<noteq> CHR 0x0A) s"

lemma plain_text_simps [simp]:
  "plain_text []"
  "plain_text (c # s) \<longleftrightarrow> c \<noteq> CHR ''#'' \<and> c \<noteq> CHR '';'' \<and> c \<noteq> CHR ''%'' \<and> c \<noteq> CHR 0x0A \<and> plain_text s"
  "plain_text (s @ t) \<longleftrightarrow> plain_text s \<and> plain_text t"
  by (simp_all add: plain_text_def)

lemma plain_text_chars:
  "plain_text s \<Longrightarrow> CHR ''#'' \<notin> set s \<and> CHR '';'' \<notin> set s \<and> CHR ''%'' \<notin> set s \<and> CHR 0x0A \<notin> set s"
  by (induction s) auto

lemma decode_plain: "plain_text s \<Longrightarrow> from_percent_encoding s = s"
  using plain_text_chars [of s] by (simp add: from_percent_encoding_decode percent_decode_plain)

lemma cut_comment_none:
  assumes "c \<notin> set s" "trim s \<noteq> []"
  shows "cut_comment c s = trim s"
proof -
  have "s \<noteq> []" using assms(2) by auto
  then show ?thesis
    using assms by (simp add: cut_comment_def from_string_char_def from_string_pieces pieces_none
        kept_def str_trimmed_trim)
qed

lemma cut_comment_first:
  assumes "c \<notin> set s" "trim s \<noteq> []"
  shows "cut_comment c (s @ c # t) = trim s"
proof -
  have "find_sub [c] (s @ c # t @ [c]) = Some (length s)"
    using assms(1) by (simp add: find_sub_single)
  then have "pieces [c] (s @ c # t @ [c]) = s # pieces [c] (t @ [c])"
    by (simp add: pieces.simps [of "[c]" "s @ c # t @ [c]"])
  then show ?thesis
    using assms by (simp add: cut_comment_def from_string_char_def from_string_pieces kept_def str_trimmed_trim)
qed

lemma load_plain_line:
  assumes "plain_text b" "trim b = b" "b \<noteq> []"
  shows "load_line b line cur groups =
    (if starts_with ''['' b then parsing_group groups b line
     else case parsing_key_value groups cur b line of
            Inl e \<Rightarrow> Inl e
          | Inr groups \<Rightarrow> Inr (cur, groups))"
proof -
  have "\<not> comment_line b" using assms(1,3) by (cases b) (simp_all add: comment_line_def)
  moreover have "cut_comment (CHR ''#'') b = b" "cut_comment (CHR '';'') b = b"
    using plain_text_chars [OF assms(1)] assms(2,3) cut_comment_none by auto
  ultimately show ?thesis using assms(2) by (simp add: load_line_def str_trimmed_trim)
qed

lemma parse_group_line:
  assumes "g \<noteq> []" "trim g = g" "plain_text g"
  shows "load_line (''['' @ g @ '']'') line cur groups = Inr (g, map_ensure groups g [])"
proof -
  let ?b = "''['' @ g @ '']''"
  have "trim ?b = ?b" by (simp add: trim_id is_blank_def schar_def uchar_def)
  moreover have "parsing_group groups ?b line = Inr (g, map_ensure groups g [])"
    using assms by (cases g) (simp_all add: parsing_group_def ends_with_def substr_def str_trimmed_trim decode_plain Let_def)
  ultimately show ?thesis
    using assms(3) by (simp add: load_plain_line starts_with_def)
qed

lemma parse_key_line:
  assumes "k \<noteq> []" "trim k = k" "plain_text k" "CHR ''='' \<notin> set k" "hd k \<noteq> CHR ''[''" "cur \<noteq> []"
    and "out \<noteq> []" "trim out = out" "plain_text out" "parsing_value out line = Inr v" "plain_text v"
  shows "load_line (k @ ''='' @ out) line cur groups =
    Inr (cur, map_put groups cur (map_put (keys_of groups cur) k v))"
proof -
  let ?b = "k @ ''='' @ out"
  have trim: "trim ?b = ?b" using assms(1,2,7,8) by (simp add: trim_id)
  have plain: "plain_text ?b" using assms(3,9) by simp
  obtain n where n: "length k = Suc n" using assms(1) by (cases k) simp_all
  have "find_char (CHR ''='') ?b = Some (Suc n)" using assms(4) n by simp
  then have "parsing_key_value groups cur ?b line =
      Inr (map_put groups cur (map_put (keys_of groups cur) k v))"
    using assms(1,2,3,6,7,10,11) n
    by (simp add: parsing_key_value_def substr_def str_trimmed_trim decode_plain)
  moreover have "\<not> starts_with ''['' ?b" using assms(1,5) by (cases k) (simp_all add: starts_with_def)
  ultimately show ?thesis using load_plain_line [OF plain trim] by simp
qed

section \<open>Values\<close>

lemma rlnum_rest_chars: "is_rlnum_rest dot s \<Longrightarrow> list_all (\<lambda>c. isdigit c \<or> c = CHR ''.'') s"
  by (induction dot s rule: is_rlnum_rest.induct) (auto split: if_splits)

lemma rlnum_chars:
  assumes "is_rlnum s"
  shows "s \<noteq> [] \<and> list_all (\<lambda>c. isdigit c \<or> c \<in> set ''+-.'') s"
proof (cases s)
  case Nil
  then show ?thesis using assms by (simp add: is_rlnum_def)
next
  case (Cons c cs)
  show ?thesis
  proof (cases "c = CHR ''-'' \<or> c = CHR ''+''")
    case True
    then obtain d ds where "cs = d # ds" "isdigit d" "is_rlnum_rest False ds"
      using assms Cons by (auto simp: is_rlnum_def isdigit_def schar_def uchar_def split: list.splits if_splits)
    then show ?thesis using Cons True rlnum_rest_chars [of False ds] by (auto simp: list_all_iff)
  next
    case False
    then have "isdigit c" "is_rlnum_rest False cs"
      using assms Cons by (auto simp: is_rlnum_def split: if_splits)
    then show ?thesis using Cons rlnum_rest_chars [of False cs] by (auto simp: list_all_iff)
  qed
qed

lemma rlnum_value:
  assumes "is_rlnum s"
  shows "s \<noteq> [] \<and> trim s = s \<and> plain_text s \<and> parsing_value s line = Inr s"
proof -
  have s: "s \<noteq> []" "list_all (\<lambda>c. isdigit c \<or> c \<in> set ''+-.'') s" using rlnum_chars [OF assms] by auto
  have chars: "\<not> is_blank c \<and> c \<notin> set ''#;%='' \<and> c \<notin> set quotes \<and> c \<noteq> CHR 0x0A" if "c \<in> set s" for c
    using s(2) that
    by (auto simp: list_all_iff is_blank_def isdigit_def schar_def uchar_def quotes_def split: if_splits)
  have plain: "plain_text s" unfolding plain_text_def list_all_iff using chars by auto
  have trim: "trim s = s" using chars s(1) by (auto simp: trim_id)
  obtain c t where ct: "s = c # t" using s(1) by (cases s) auto
  have "assign_count s = 0" using chars [of c] ct by simp
  moreover have "s ! 0 \<noteq> CHR ''=''" "s ! 0 \<notin> set quotes" using chars [of c] ct by auto
  ultimately have "parsing_value s line = Inr s"
    using s(1) trim by (simp add: parsing_value_def str_trimmed_trim)
  with s(1) trim plain show ?thesis by simp
qed

definition quoted :: "string \<Rightarrow> string" where
  "quoted v = [CHR 0x22] @ v @ [CHR 0x22]"

lemma quoted_value:
  assumes "v \<noteq> []" "plain_text v"
  shows "quoted v \<noteq> [] \<and> trim (quoted v) = quoted v \<and> plain_text (quoted v) \<and>
    parsing_value (quoted v) line = Inr v"
proof -
  have trim: "trim (quoted v) = quoted v" by (simp add: trim_id quoted_def is_blank_def schar_def uchar_def)
  have "parsing_value (quoted v) line = Inr v"
    using assms(1) unfolding parsing_value_def str_trimmed_trim trim
    by (cases v) (simp_all add: quoted_def quotes_def substr_def)
  with trim assms(2) show ?thesis by (simp add: quoted_def)
qed

section \<open>What can be stored\<close>

definition storable_group :: "string \<Rightarrow> bool" where
  "storable_group g \<longleftrightarrow> g \<noteq> [] \<and> trim g = g \<and> plain_text g"

definition storable_key :: "string \<Rightarrow> bool" where
  "storable_key k \<longleftrightarrow> k \<noteq> [] \<and> trim k = k \<and> plain_text k \<and> CHR ''='' \<notin> set k \<and> hd k \<noteq> CHR ''[''"

definition storable_value :: "string \<Rightarrow> bool" where
  "storable_value v \<longleftrightarrow> v \<noteq> [] \<and> plain_text v \<and> (is_rlnum v \<longrightarrow> hd v \<noteq> CHR ''+'')"

definition storable_keys :: "ini_keys \<Rightarrow> bool" where
  "storable_keys ks \<longleftrightarrow> sorted_keys ks \<and> list_all (\<lambda>(k, v). storable_key k \<and> storable_value v) ks"

definition storable :: "ini_groups \<Rightarrow> bool" where
  "storable groups \<longleftrightarrow> sorted_keys groups \<and> list_all (\<lambda>(g, ks). storable_group g \<and> storable_keys ks) groups"

lemma is_ascii_all [simp]: "is_ascii s"
proof -
  have "schar c \<le> 0x7F" for c using schar_range(2) [of c] by linarith
  then show ?thesis by (simp add: is_ascii_def list_all_iff)
qed

definition key_text :: "string \<Rightarrow> string \<Rightarrow> string" where
  "key_text k v = k @ ''='' @ (if is_rlnum v then v else quoted v)"

lemma sync_key_storable:
  "storable_key k \<Longrightarrow> storable_value v \<Longrightarrow> sync_key k v = (key_text k v @ [CHR 0x0A], v)"
  by (cases v) (auto simp: sync_key_def storable_key_def storable_value_def key_text_def quoted_def Let_def)

lemma load_key_text:
  assumes "storable_key k" "storable_value v" "cur \<noteq> []"
  shows "load_line (key_text k v) line cur groups =
    Inr (cur, map_put groups cur (map_put (keys_of groups cur) k v))"
proof -
  let ?t = "if is_rlnum v then v else quoted v"
  have "?t \<noteq> [] \<and> trim ?t = ?t \<and> plain_text ?t \<and> parsing_value ?t line = Inr v"
    using assms(2) rlnum_value [of v line] quoted_value [of v line] by (simp add: storable_value_def)
  then show ?thesis
    using assms unfolding key_text_def storable_key_def storable_value_def by (intro parse_key_line) simp_all
qed

lemma plain_key_text: "storable_key k \<Longrightarrow> storable_value v \<Longrightarrow> plain_text (key_text k v)"
  by (simp add: key_text_def storable_key_def storable_value_def quoted_def)

section \<open>Reading back\<close>

lemma load_loop_line:
  assumes "CHR 0x0A \<notin> set b"
  shows "load_loop (\<lambda>_. False) line (b @ CHR 0x0A # rest) False cur groups =
    (case load_line b line cur groups of
       Inl e \<Rightarrow> (Some e, groups)
     | Inr (cur, groups) \<Rightarrow> load_loop (\<lambda>_. False) (line + 1) rest False cur groups)"
  using assms by (subst load_loop.simps) (simp add: getline_def)

lemma load_loop_end: "load_loop (\<lambda>_. False) line [] False cur groups = (None, groups)"
  by (subst load_loop.simps) simp

lemma load_loop_keys:
  assumes "\<forall>x \<in> set P. fst x < g" "g \<noteq> []"
  shows "sorted_keys (ds @ ks) \<Longrightarrow> list_all (\<lambda>(k, v). storable_key k \<and> storable_value v) ks \<Longrightarrow>
    load_loop (\<lambda>_. False) line (fst (sync_keys ks) @ rest) False g (P @ [(g, ds)]) =
    load_loop (\<lambda>_. False) (line + length ks) rest False g (P @ [(g, ds @ ks)])"
proof (induction ks arbitrary: ds line)
  case (Cons kv ks)
  obtain k v where kv: "kv = (k, v)" by (cases kv)
  have kvs: "storable_key k" "storable_value v" using Cons.prems(2) kv by auto
  have below: "\<forall>x \<in> set ds. fst x < k" using Cons.prems(1) kv by (auto simp: sorted_keys_append)
  have lf: "CHR 0x0A \<notin> set (key_text k v)" using plain_text_chars [OF plain_key_text [OF kvs]] by simp
  have out: "fst (sync_keys (kv # ks)) @ rest = key_text k v @ CHR 0x0A # (fst (sync_keys ks) @ rest)"
    using kvs kv by (simp add: sync_key_storable split: prod.splits)
  have put: "map_put (P @ [(g, ds)]) g (map_put (keys_of (P @ [(g, ds)]) g) k v) = P @ [(g, ds @ [kv])]"
    using assms(1) below map_of_last [OF assms(1), of ds] kv by (simp add: keys_of_def map_put_last map_put_above)
  have "load_loop (\<lambda>_. False) line (fst (sync_keys (kv # ks)) @ rest) False g (P @ [(g, ds)]) =
      load_loop (\<lambda>_. False) (line + 1) (fst (sync_keys ks) @ rest) False g (P @ [(g, ds @ [kv])])"
    unfolding out load_loop_line [OF lf] load_key_text [OF kvs assms(2)] put by simp
  also have "\<dots> = load_loop (\<lambda>_. False) (line + 1 + length ks) rest False g (P @ [(g, (ds @ [kv]) @ ks)])"
    using Cons.prems by (intro Cons.IH) simp_all
  finally show ?case by simp
qed simp

lemma sync_keys_same: "list_all (\<lambda>(k, v). storable_key k \<and> storable_value v) ks \<Longrightarrow> snd (sync_keys ks) = ks"
  by (induction ks) (auto simp: sync_key_storable split: prod.splits)

text \<open>The group a reader of the whole text is in at its end.\<close>

definition last_group :: "string \<Rightarrow> ini_groups \<Rightarrow> string" where
  "last_group cur groups = (if groups = [] then cur else fst (last groups))"

lemma load_sync_loop:
  assumes "sorted_keys (P @ groups)" "list_all (\<lambda>(g, ks). storable_group g \<and> storable_keys ks) groups"
  shows "\<exists>out line'. sync_loop (\<lambda>_. False) n groups = (None, out, groups) \<and>
    (\<forall>rest. load_loop (\<lambda>_. False) line (out @ rest) False cur P =
      load_loop (\<lambda>_. False) line' rest False (last_group cur groups) (P @ groups))"
  using assms
proof (induction groups arbitrary: P n line cur)
  case Nil
  then show ?case by (auto simp: last_group_def)
next
  case (Cons gk groups)
  obtain g ks where gk: "gk = (g, ks)" by (cases gk)
  have g: "g \<noteq> []" "trim g = g" "plain_text g" and ks: "sorted_keys ks"
      "list_all (\<lambda>(k, v). storable_key k \<and> storable_value v) ks"
    using Cons.prems(2) gk by (auto simp: storable_group_def storable_keys_def)
  have below: "\<forall>x \<in> set P. fst x < g" using Cons.prems(1) gk by (auto simp: sorted_keys_append)
  obtain out line' where tail: "sync_loop (\<lambda>_. False) (n + 1) groups = (None, out, groups)"
      "\<And>rest. load_loop (\<lambda>_. False) (line + length ks + 2) (out @ rest) False g (P @ [gk]) =
        load_loop (\<lambda>_. False) line' rest False (last_group g groups) ((P @ [gk]) @ groups)"
    using Cons.IH [of "P @ [gk]" "n + 1" "line + length ks + 2" g] Cons.prems by auto
  let ?out = "group_line g @ fst (sync_keys ks) @ CHR 0x0A # out"
  have "load_loop (\<lambda>_. False) line (?out @ rest) False cur P =
      load_loop (\<lambda>_. False) line' rest False (last_group cur (gk # groups)) (P @ gk # groups)" for rest
  proof -
    let ?r = "CHR 0x0A # out @ rest"
    have "load_loop (\<lambda>_. False) line (?out @ rest) False cur P =
        load_loop (\<lambda>_. False) (line + 1) (fst (sync_keys ks) @ ?r) False g (P @ [(g, [])])"
      using load_loop_line [of "''['' @ g @ '']''" line "fst (sync_keys ks) @ ?r" cur P]
        parse_group_line [OF g, of line cur P] plain_text_chars [OF g(3)] map_ensure_above [OF below, of "[]"]
      by (simp add: group_line_def)
    also have "\<dots> = load_loop (\<lambda>_. False) (line + 1 + length ks) ?r False g (P @ [(g, [] @ ks)])"
      using ks by (intro load_loop_keys [OF below g(1)]) simp_all
    also have "\<dots> = load_loop (\<lambda>_. False) (line + length ks + 2) (out @ rest) False g (P @ [gk])"
      using load_loop_line [of "[]"] gk by (simp add: load_line_def str_trimmed_trim comment_line_def)
    finally show ?thesis using tail(2) [of rest] gk by (simp add: last_group_def)
  qed
  moreover have "sync_loop (\<lambda>_. False) n (gk # groups) = (None, ?out, gk # groups)"
    using tail(1) sync_keys_same [OF ks(2)] gk by (auto split: prod.splits)
  ultimately show ?case by blast
qed

lemma load_sync:
  assumes "storable groups"
  obtains out line where "ini_sync (\<lambda>_. False) groups = (None, out, groups)"
    "\<And>rest. ini_load (\<lambda>_. False) (Some (out @ rest)) [] =
      load_loop (\<lambda>_. False) line rest False (last_group [] groups) groups"
  using load_sync_loop [of "[]" groups 1 1 "[]"] assms
  by (auto simp: ini_sync_def ini_load_def storable_def)

text \<open>A line with an open quote, as is left of a quoted value that is cut at a comment sign.\<close>

lemma load_cut_line:
  assumes "c = CHR ''#'' \<or> c = CHR '';''" "storable_key k" "plain_text a" "plain_text b" "cur \<noteq> []"
    and "a \<noteq> [] \<longrightarrow> \<not> is_blank (last a) \<and> last a \<noteq> CHR 0x22"
  shows "load_line (k @ ''='' @ quoted (a @ c # b)) line cur groups = Inl (Syntax_error Ini_invalid_value line)"
proof -
  let ?p = "k @ ''='' @ CHR 0x22 # a" and ?r = "b @ [CHR 0x22]"
  have k: "k \<noteq> []" "trim k = k" "plain_text k" "CHR ''='' \<notin> set k" "hd k \<noteq> CHR ''[''"
    using assms(2) by (auto simp: storable_key_def)
  have trim: "trim (CHR 0x22 # a) = CHR 0x22 # a" "trim ?p = ?p" "trim (?p @ c # ?r) = ?p @ c # ?r"
    using k(1,2) assms(6) by (auto simp: trim_id is_blank_def schar_def uchar_def)
  have p: "?p \<noteq> []" "plain_text ?p" using k assms(3) by auto
  have "\<not> comment_line (?p @ c # ?r)" using k(1,3) by (cases k) (simp_all add: comment_line_def)
  moreover have "cut_comment (CHR '';'') (cut_comment (CHR ''#'') (?p @ c # ?r)) = ?p"
  proof (cases "c = CHR ''#''")
    case True
    then show ?thesis
      using plain_text_chars [OF p(2)] trim(2) p(1)
        cut_comment_first [of "CHR ''#''" ?p ?r] cut_comment_none [of "CHR '';''" ?p] by simp
  next
    case False
    then have c: "c = CHR '';''" using assms(1) by simp
    have "CHR ''#'' \<notin> set (?p @ c # ?r)"
      using plain_text_chars [OF p(2)] plain_text_chars [OF assms(4)] c by auto
    then show ?thesis
      using plain_text_chars [OF p(2)] trim(2,3) p(1) c
        cut_comment_none [of "CHR ''#''" "?p @ c # ?r"] cut_comment_first [of "CHR '';''" ?p ?r] by simp
  qed
  moreover have "parsing_value (CHR 0x22 # a) line = Inl (Syntax_error Ini_invalid_value line)"
    using assms(6) trim(1) by (auto simp: parsing_value_def str_trimmed_trim quotes_def Let_def)
  then have "parsing_key_value groups cur ?p line = Inl (Syntax_error Ini_invalid_value line)"
    using k assms(5) by (cases k) (auto simp: parsing_key_value_def substr_def str_trimmed_trim decode_plain)
  moreover have "\<not> starts_with ''['' ?p" using k(1,5) by (cases k) (simp_all add: starts_with_def)
  ultimately have "load_line (?p @ c # ?r) line cur groups = Inl (Syntax_error Ini_invalid_value line)"
    using trim(3) by (simp add: load_line_def str_trimmed_trim)
  then show ?thesis by (simp add: quoted_def)
qed

section \<open>Reading and writing by group and key\<close>

definition groups_inv :: "ini_groups \<Rightarrow> bool" where
  "groups_inv groups \<longleftrightarrow> sorted_keys groups \<and> list_all (\<lambda>(g, ks). sorted_keys ks) groups"

definition ini_find :: "ini_groups \<Rightarrow> string \<times> string \<Rightarrow> string option" where
  "ini_find groups gk = map_of (keys_of groups (fst gk)) (snd gk)"

lemma ini_read_find: "ini_read groups gk = (case ini_find groups gk of None \<Rightarrow> Inl Runtime_error | Some v \<Rightarrow> Inr v)"
  by (simp add: ini_read_def ini_find_def keys_of_def keys_read_def split: option.splits)

lemma ini_read_or_find: "ini_read_or groups gk d = (case ini_find groups gk of None \<Rightarrow> d | Some v \<Rightarrow> v)"
  by (simp add: ini_read_or_def ini_find_def keys_of_def keys_read_or_def split: option.splits)

lemma ini_find_write: "ini_find (ini_write groups gk v) = (ini_find groups)(gk \<mapsto> v)"
proof
  fix hk
  show "ini_find (ini_write groups gk v) hk = ((ini_find groups)(gk \<mapsto> v)) hk"
    by (cases gk; cases hk) (auto simp: ini_find_def ini_write_def keys_write_def keys_of_def)
qed

lemma groups_inv_keys: "groups_inv groups \<Longrightarrow> sorted_keys (keys_of groups g)"
  by (auto simp: groups_inv_def keys_of_def list_all_iff split: option.splits dest!: map_of_SomeD)

lemma groups_inv_write: "groups_inv groups \<Longrightarrow> groups_inv (ini_write groups gk v)"
  using groups_inv_keys [of groups "fst gk"]
  by (auto simp: groups_inv_def ini_write_def keys_write_def list_all_iff dest!: map_put_elem)

interpretation ini: keyed_store groups_inv ini_find ini_write
  by unfold_locales (simp_all add: groups_inv_write ini_find_write)

section \<open>Properties\<close>

lemma stored_loads:
  assumes "storable groups"
  shows "\<exists>content. ini_sync (\<lambda>_. False) groups = (None, content, groups) \<and>
    ini_load (\<lambda>_. False) (Some content) [] = (None, groups)"
proof -
  from assms obtain out line where out: "ini_sync (\<lambda>_. False) groups = (None, out, groups)"
      "\<And>rest. ini_load (\<lambda>_. False) (Some (out @ rest)) [] =
        load_loop (\<lambda>_. False) line rest False (last_group [] groups) groups"
    using load_sync by blast
  then show ?thesis using out(2) [of "[]"] by (simp add: load_loop_end)
qed

text \<open>C27.
  What \<^verbatim>\<open>sync\<close> writes, \<^verbatim>\<open>load\<close> reads back: groups and keys without comment signs, percent
  signs, line feeds and outer blanks, and values that may have blanks, quotes and
  assignment signs anywhere, come back as they were, and \<^verbatim>\<open>sync\<close> itself changes nothing.
\<close>

theorem ini_roundtrip:
  assumes "storable groups"
  shows "\<exists>content. ini_sync (\<lambda>_. False) groups = (None, content, groups) \<and>
    ini_load (\<lambda>_. False) (Some content) [] = (None, groups)"
  using assms by (rule stored_loads)

theorem ini_roundtrip_witness:
  "\<exists>content. ini_sync (\<lambda>_. False) [(''net'', [(''host'', ''a = b ''), (''port'', ''80'')])] =
      (None, content, [(''net'', [(''host'', ''a = b ''), (''port'', ''80'')])]) \<and>
    ini_load (\<lambda>_. False) (Some content) [] = (None, [(''net'', [(''host'', ''a = b ''), (''port'', ''80'')])])"
proof (rule ini_roundtrip)
  show "storable [(''net'', [(''host'', ''a = b ''), (''port'', ''80'')])]" by code_simp
qed

text \<open>
  A file whose last line does not end with a line feed is reported as an I/O error, although
  every line of it, the last one included, has been read.
\<close>

theorem ini_last_line_error:
  assumes "storable groups" "groups \<noteq> []" "storable_key k" "storable_value v"
  shows "\<exists>content. ini_sync (\<lambda>_. False) groups = (None, content, groups) \<and>
    ini_load (\<lambda>_. False) (Some (content @ key_text k v)) [] =
      (Some Io_failure, ini_write groups (fst (last groups), k) v)"
proof -
  from assms(1) obtain out line where out: "ini_sync (\<lambda>_. False) groups = (None, out, groups)"
      "\<And>rest. ini_load (\<lambda>_. False) (Some (out @ rest)) [] =
        load_loop (\<lambda>_. False) line rest False (last_group [] groups) groups"
    using load_sync by blast
  let ?g = "fst (last groups)"
  have "last groups \<in> set groups" using assms(2) by simp
  then have "?g \<noteq> []" using assms(1) by (auto simp: storable_def storable_group_def list_all_iff)
  note line = load_key_text [OF assms(3,4) this]
  have "key_text k v \<noteq> []" by (simp add: key_text_def)
  moreover have "getline (key_text k v) = (key_text k v, [], True)"
    using plain_text_chars [OF plain_key_text [OF assms(3,4)]] iffD2 [OF find_char_None]
    by (simp add: getline_def)
  ultimately have "load_loop (\<lambda>_. False) line (key_text k v) False ?g groups =
      (Some Io_failure, ini_write groups (?g, k) v)"
    using line by (simp add: load_loop.simps [of _ line] load_loop.simps [of _ _ "[]"] ini_write_def keys_write_def)
  then show ?thesis using out assms(2) by (simp add: last_group_def)
qed

theorem ini_last_line_error_witness:
  "\<exists>content. ini_sync (\<lambda>_. False) [(''net'', [(''host'', ''x'')])] = (None, content, [(''net'', [(''host'', ''x'')])]) \<and>
    ini_load (\<lambda>_. False) (Some (content @ key_text ''port'' ''80'')) [] =
      (Some Io_failure, ini_write [(''net'', [(''host'', ''x'')])] (fst (last [(''net'', [(''host'', ''x'')])]), ''port'') ''80'')"
proof (rule ini_last_line_error)
  show "storable [(''net'', [(''host'', ''x'')])]" by code_simp
  show "storable_key ''port''" "storable_value ''80''" by code_simp+
qed simp

text \<open>
  Writing any sequence of values by path and reading by path: a read yields the last value
  written at that group and key, and what was there before when none was; the groups and
  keys stay sorted and without duplicates.
\<close>

theorem ini_write_read:
  assumes "groups_inv groups"
  shows "groups_inv (foldl (\<lambda>gs (gk, v). ini_write gs gk v) groups ws) \<and>
    (\<forall>path. path_read (foldl (\<lambda>gs (gk, v). ini_write gs gk v) groups ws) path =
      res_bind (from_path path) (\<lambda>gk.
        case map_of (rev ws) gk of Some v \<Rightarrow> Inr v | None \<Rightarrow> ini_read groups gk))"
  using ini.inv_store_all [OF assms, of ws] ini.look_store_all [OF assms, of ws]
  by (auto simp: path_read_def res_bind_def ini_read_find map_add_def split: sum.splits option.splits)

theorem ini_write_read_witness:
  "groups_inv (foldl (\<lambda>gs (gk, v). ini_write gs gk v) [] [((''g'', ''k''), ''v'')]) \<and>
    (\<forall>path. path_read (foldl (\<lambda>gs (gk, v). ini_write gs gk v) [] [((''g'', ''k''), ''v'')]) path =
      res_bind (from_path path) (\<lambda>gk.
        case map_of (rev [((''g'', ''k''), ''v'')]) gk of Some v \<Rightarrow> Inr v | None \<Rightarrow> ini_read [] gk))"
  by (rule ini_write_read) (simp add: groups_inv_def)

text \<open>
  A value with a comment sign does not survive: \<^verbatim>\<open>sync\<close> writes it between quotes without
  escaping it, \<^verbatim>\<open>load\<close> cuts the line at the sign and rejects the unbalanced quote.
\<close>

theorem ini_comment_sign_lost:
  assumes "c = CHR ''#'' \<or> c = CHR '';''" "storable_group g" "storable_key k" "plain_text a" "plain_text b"
    and "a \<noteq> [] \<longrightarrow> \<not> is_blank (last a) \<and> last a \<noteq> CHR 0x22"
  shows "\<exists>content. ini_sync (\<lambda>_. False) [(g, [(k, a @ c # b)])] = (None, content, [(g, [(k, a @ c # b)])]) \<and>
    ini_load (\<lambda>_. False) (Some content) [] = (Some (Syntax_error Ini_invalid_value 2), [(g, [])])"
proof -
  let ?v = "a @ c # b" and ?line = "k @ ''='' @ quoted (a @ c # b)"
  have g: "g \<noteq> []" "trim g = g" "plain_text g" using assms(2) by (auto simp: storable_group_def)
  have k: "k \<noteq> []" "plain_text k" using assms(3) by (auto simp: storable_key_def)
  have "\<not> is_rlnum ?v"
  proof
    assume "is_rlnum ?v"
    then have "isdigit c \<or> c \<in> set ''+-.''" using rlnum_chars by fastforce
    then show False using assms(1) by (auto simp: isdigit_def schar_def uchar_def)
  qed
  then have sync: "ini_sync (\<lambda>_. False) [(g, [(k, ?v)])] =
      (None, group_line g @ ?line @ [CHR 0x0A, CHR 0x0A], [(g, [(k, ?v)])])"
    using k(1) by (simp add: ini_sync_def sync_key_def quoted_def Let_def)
  have lf: "CHR 0x0A \<notin> set (''['' @ g @ '']'')" "CHR 0x0A \<notin> set ?line"
    using plain_text_chars [OF g(3)] plain_text_chars [OF k(2)] plain_text_chars [OF assms(4)]
      plain_text_chars [OF assms(5)] assms(1) by (auto simp: quoted_def)
  have "load_loop (\<lambda>_. False) 1 (group_line g @ ?line @ [CHR 0x0A, CHR 0x0A]) False [] [] =
      load_loop (\<lambda>_. False) 2 (?line @ [CHR 0x0A, CHR 0x0A]) False g [(g, [])]"
    using load_loop_line [OF lf(1), of 1 "?line @ [CHR 0x0A, CHR 0x0A]" "[]" "[]"]
      parse_group_line [OF g, of 1 "[]" "[]"] by (simp add: group_line_def map_ensure_def numeral_2_eq_2)
  also have "\<dots> = (Some (Syntax_error Ini_invalid_value 2), [(g, [])])"
    using load_loop_line [OF lf(2), of 2 "[CHR 0x0A]" g "[(g, [])]"]
      load_cut_line [OF assms(1,3,4,5) g(1) assms(6), of 2 "[(g, [])]"] by simp
  finally show ?thesis using sync by (simp add: ini_load_def)
qed

theorem ini_comment_sign_lost_witness:
  "\<exists>content. ini_sync (\<lambda>_. False) [(''ui'', [(''color'', ''a'' @ CHR ''#'' # ''b'')])] =
      (None, content, [(''ui'', [(''color'', ''a'' @ CHR ''#'' # ''b'')])]) \<and>
    ini_load (\<lambda>_. False) (Some content) [] = (Some (Syntax_error Ini_invalid_value 2), [(''ui'', [])])"
proof (rule ini_comment_sign_lost)
  show "storable_group ''ui''" "storable_key ''color''" by code_simp+
qed (simp_all add: is_blank_def schar_def uchar_def)

text \<open>An assignment sign too much drops the value.\<close>

lemma leading_assign_drops:
  assumes "trim v = v" "v \<noteq> []" "hd v \<noteq> CHR ''=''"
  shows "parsing_value (''='' @ v) line = Inr []"
proof -
  have "assign_count v = 0" using assms(2,3) by (cases v) auto
  moreover have "trim (''='' @ v) = ''='' @ v" using assms by (auto simp: trim_id)
  ultimately show ?thesis by (simp add: parsing_value_def str_trimmed_trim substr_def)
qed

text \<open>The member \<^verbatim>\<open>group\<close> never yields the keys of a group.\<close>

lemma group_never_found: "ini_group groups g \<noteq> Inr (Some keys)"
  by (simp add: ini_group_def)

end
