(* ===== verification/Ini_Sync.thy ===== *)
theory Ini_Sync
  imports Ini_File
begin

text \<open>
  The asynchronous side of \<^verbatim>\<open>basic_ini\<close> (\<^verbatim>\<open>libgs/core/detail/ini.h\<close>, \<^verbatim>\<open>ini.cpp\<close>): a thread for
  files that runs its works in order, calls that can be cancelled, and the coroutine that
  writes the file once in a period, as a machine whose events are the calls of the program,
  the expiry of the timer, the resumption of a coroutine and the turn of the file thread. Of
  the timer it takes what asio documents: setting it or cancelling it ends the waits that are
  pending, with an error, and not the ones whose time has come. Works do not run at the same
  time as other accesses to the groups.
\<close>

section \<open>The object\<close>

datatype wait_state = Starting | Waiting | Fired | Cancelled | Ended

datatype io_work = Load_work nat | Sync_work nat | Timer_work

record ini_object =
  ob_groups :: ini_groups
  ob_file :: "string option"
  ob_period :: nat
  ob_on_delete :: bool
  ob_alive :: bool
  ob_loops :: "wait_state list"
  ob_expiry :: nat
  ob_works :: "io_work list"
  ob_flags :: "bool list"
  ob_cancel_list :: "nat list"
  ob_answers :: "(nat \<times> ini_error option) list"

definition new_ini :: "string option \<Rightarrow> ini_object" where
  "new_ini file =
     \<lparr>ob_groups = [], ob_file = file, ob_period = 0, ob_on_delete = False, ob_alive = True, ob_loops = [],
      ob_expiry = 0, ob_works = [], ob_flags = [], ob_cancel_list = [], ob_answers = []\<rparr>"

section \<open>The timer and its coroutine\<close>

definition cancel_waits :: "wait_state list \<Rightarrow> wait_state list" where
  "cancel_waits = map (\<lambda>l. if l = Waiting then Cancelled else l)"

text \<open>The head of the loop: the timer is set and waited for.\<close>

definition loop_wait :: "nat \<Rightarrow> ini_object \<Rightarrow> ini_object" where
  "loop_wait i o' = o'\<lparr>ob_expiry := ob_period o', ob_loops := (cancel_waits (ob_loops o'))[i := Waiting]\<rparr>"

definition loop_resume :: "nat \<Rightarrow> ini_object \<Rightarrow> ini_object" where
  "loop_resume i o' =
     (if length (ob_loops o') \<le> i then o'
      else case ob_loops o' ! i of
             Starting \<Rightarrow> loop_wait i o'
           | Fired \<Rightarrow> loop_wait i (o'\<lparr>ob_works := ob_works o' @ [Timer_work]\<rparr>)
           | Cancelled \<Rightarrow> o'\<lparr>ob_loops := (ob_loops o')[i := Ended]\<rparr>
           | _ \<Rightarrow> o')"

definition timer_expires :: "ini_object \<Rightarrow> ini_object" where
  "timer_expires o' = o'\<lparr>ob_loops := map (\<lambda>l. if l = Waiting then Fired else l) (ob_loops o')\<rparr>"

text \<open>
  A coroutine is spawned by a dispatch: in a handler of the same executor it runs at once, up
  to its first wait, and only then is the new period stored.
\<close>

definition set_sync_period :: "bool \<Rightarrow> nat \<Rightarrow> ini_object \<Rightarrow> ini_object" where
  "set_sync_period here msec o' =
     (if ob_period o' \<noteq> 0 \<and> msec = 0 then o'\<lparr>ob_loops := cancel_waits (ob_loops o')\<rparr>
      else if ob_period o' = 0 \<and> msec \<noteq> 0 then
        let o2 = o'\<lparr>ob_loops := ob_loops o' @ [Starting]\<rparr>
        in if here then loop_resume (length (ob_loops o')) o2 else o2
      else o')\<lparr>ob_period := msec\<rparr>"

section \<open>Calls and works\<close>

definition new_call :: "(nat \<Rightarrow> io_work) \<Rightarrow> ini_object \<Rightarrow> ini_object" where
  "new_call work o' =
     (let n = length (ob_flags o')
      in o'\<lparr>ob_flags := ob_flags o' @ [False], ob_cancel_list := ob_cancel_list o' @ [n],
            ob_works := ob_works o' @ [work n]\<rparr>)"

definition async_load :: "ini_object \<Rightarrow> ini_object" where
  "async_load = new_call Load_work"

definition async_sync :: "ini_object \<Rightarrow> ini_object" where
  "async_sync = new_call Sync_work"

definition ini_cancel :: "ini_object \<Rightarrow> ini_object" where
  "ini_cancel o' =
     o'\<lparr>ob_flags := foldl (\<lambda>fs n. fs[n := True]) (ob_flags o') (ob_cancel_list o'), ob_cancel_list := []\<rparr>"

definition object_sync :: "bool \<Rightarrow> ini_object \<Rightarrow> ini_error option \<times> ini_object" where
  "object_sync cancelled o' =
     (case ini_sync (\<lambda>_. cancelled) (ob_groups o') of
        (error, text', groups) \<Rightarrow> (error, o'\<lparr>ob_file := Some text', ob_groups := groups\<rparr>))"

definition object_load :: "bool \<Rightarrow> ini_object \<Rightarrow> ini_error option \<times> ini_object" where
  "object_load cancelled o' =
     (case ini_load (\<lambda>_. cancelled) (ob_file o') (ob_groups o') of
        (error, groups) \<Rightarrow> (error, o'\<lparr>ob_groups := groups\<rparr>))"

text \<open>
  A work of a call reads the object through \<^verbatim>\<open>this\<close>: \<open>None\<close> stands for the access when that is
  gone. The work of the timer holds the implementation itself.
\<close>

definition run_work :: "ini_object \<Rightarrow> ini_object option" where
  "run_work o' =
     (case ob_works o' of
        [] \<Rightarrow> Some o'
      | work # works \<Rightarrow>
          let o' = o'\<lparr>ob_works := works\<rparr> in
          (case work of
             Timer_work \<Rightarrow> Some (snd (object_sync False o'))
           | Sync_work n \<Rightarrow>
               if \<not> ob_alive o' then None
               else (case object_sync (ob_flags o' ! n) o' of
                       (error, o') \<Rightarrow> Some (o'\<lparr>ob_answers := ob_answers o' @ [(n, error)]\<rparr>))
           | Load_work n \<Rightarrow>
               if \<not> ob_alive o' then None
               else (case object_load (ob_flags o' ! n) o' of
                       (error, o') \<Rightarrow> Some (o'\<lparr>ob_answers := ob_answers o' @ [(n, error)]\<rparr>))))"

definition destroy_ini :: "ini_object \<Rightarrow> ini_object" where
  "destroy_ini o' = (if \<not> ob_on_delete o' then o' else snd (object_sync False o'))\<lparr>ob_alive := False\<rparr>"

section \<open>The machine\<close>

datatype ini_event =
    Period bool nat
  | On_delete bool
  | Write_key "string \<times> string" string
  | Async_load
  | Async_sync
  | Cancel_all
  | Expire
  | Resume nat
  | Io_turn
  | Destroy

inductive ini_step :: "ini_object \<Rightarrow> ini_event \<Rightarrow> ini_object \<Rightarrow> bool" where
  period: "ob_alive o' \<Longrightarrow> ini_step o' (Period here msec) (set_sync_period here msec o')"
| on_delete: "ob_alive o' \<Longrightarrow> ini_step o' (On_delete b) (o'\<lparr>ob_on_delete := b\<rparr>)"
| write_key: "ob_alive o' \<Longrightarrow> ini_step o' (Write_key gk val) (o'\<lparr>ob_groups := ini_write (ob_groups o') gk val\<rparr>)"
| load: "ob_alive o' \<Longrightarrow> ini_step o' Async_load (async_load o')"
| sync: "ob_alive o' \<Longrightarrow> ini_step o' Async_sync (async_sync o')"
| cancel: "ob_alive o' \<Longrightarrow> ini_step o' Cancel_all (ini_cancel o')"
| expire: "ini_step o' Expire (timer_expires o')"
| resume: "ini_step o' (Resume i) (loop_resume i o')"
| io_turn: "run_work o' = Some o2 \<Longrightarrow> ini_step o' Io_turn o2"
| destroy: "ob_alive o' \<Longrightarrow> ini_step o' Destroy (destroy_ini o')"

code_pred (modes: i \<Rightarrow> i \<Rightarrow> o \<Rightarrow> bool) ini_step .

inductive ini_steps :: "ini_object \<Rightarrow> ini_event list \<Rightarrow> ini_object \<Rightarrow> bool" where
  done_steps: "ini_steps o' [] o'"
| more_steps: "ini_step o' e o2 \<Longrightarrow> ini_steps o2 es o3 \<Longrightarrow> ini_steps o' (e # es) o3"

inductive_simps ini_step_simps [simp]:
  "ini_step o' (Period here msec) o2"
  "ini_step o' (On_delete b) o2"
  "ini_step o' (Write_key gk val) o2"
  "ini_step o' Async_load o2"
  "ini_step o' Async_sync o2"
  "ini_step o' Cancel_all o2"
  "ini_step o' Expire o2"
  "ini_step o' (Resume i) o2"
  "ini_step o' Io_turn o2"
  "ini_step o' Destroy o2"

inductive_simps ini_steps_simps [simp]:
  "ini_steps o' [] o3"
  "ini_steps o' (e # es) o3"


section \<open>One coroutine\<close>

definition active :: "wait_state \<Rightarrow> bool" where
  "active l \<longleftrightarrow> l = Starting \<or> l = Waiting \<or> l = Fired"

text \<open>At most one wait is pending, and with a period some coroutine is under way.\<close>

definition one_wait :: "wait_state list \<Rightarrow> bool" where
  "one_wait ls \<longleftrightarrow> (\<forall>i < length ls. \<forall>j < length ls. ls ! i = Waiting \<longrightarrow> ls ! j = Waiting \<longrightarrow> i = j)"

definition loops_inv :: "ini_object \<Rightarrow> bool" where
  "loops_inv o' \<longleftrightarrow> one_wait (ob_loops o') \<and> (ob_period o' \<noteq> 0 \<longrightarrow> (\<exists>l \<in> set (ob_loops o'). active l))"

lemma update_nth: "j < length xs \<Longrightarrow> xs[i := x] ! j = (if i = j then x else xs ! j)"
  by auto

lemma cancel_waits_simps [simp]:
  "length (cancel_waits ls) = length ls" "i < length ls \<Longrightarrow> cancel_waits ls ! i \<noteq> Waiting"
  "i < length ls \<Longrightarrow> ls ! i \<noteq> Waiting \<Longrightarrow> cancel_waits ls ! i = ls ! i"
  by (simp_all add: cancel_waits_def)

lemma one_wait_cancel: "one_wait (cancel_waits ls)" "one_wait ((cancel_waits ls)[i := Waiting])"
  by (auto simp: one_wait_def update_nth split: if_splits)

lemma loop_wait_inv: "i < length (ob_loops o') \<Longrightarrow> loops_inv (loop_wait i o')"
  by (auto simp: loops_inv_def loop_wait_def one_wait_cancel active_def intro!: bexI [of _ Waiting] set_update_memI)

lemma loop_resume_inv:
  assumes "loops_inv o'"
  shows "loops_inv (loop_resume i o')"
proof (cases "i < length (ob_loops o') \<and> ob_loops o' ! i = Cancelled")
  case True
  have "one_wait ((ob_loops o')[i := Ended])"
    using assms by (auto simp: loops_inv_def one_wait_def update_nth split: if_splits)
  moreover have "\<exists>l \<in> set ((ob_loops o')[i := Ended]). active l" if l: "l \<in> set (ob_loops o')" "active l" for l
  proof -
    obtain j where "j < length (ob_loops o')" "ob_loops o' ! j = l" using l(1) by (auto simp: in_set_conv_nth)
    moreover from this have "j \<noteq> i" using True l(2) by (auto simp: active_def)
    ultimately have "(ob_loops o')[i := Ended] ! j = l" "j < length ((ob_loops o')[i := Ended])" by simp_all
    with l(2) show ?thesis using nth_mem by metis
  qed
  ultimately show ?thesis using assms True by (auto simp: loops_inv_def loop_resume_def)
next
  case False
  then show ?thesis
    using assms loop_wait_inv [of i] by (auto simp: loop_resume_def split: wait_state.splits)
qed

lemma set_sync_period_inv:
  assumes "loops_inv o'"
  shows "loops_inv (set_sync_period here msec o')"
proof (cases "ob_period o' = 0 \<and> msec \<noteq> 0")
  case True
  let ?o2 = "o'\<lparr>ob_loops := ob_loops o' @ [Starting]\<rparr>"
  have "one_wait (ob_loops ?o2)"
    using assms by (auto simp: loops_inv_def one_wait_def nth_append less_Suc_eq split: if_splits)
  moreover have "loops_inv (loop_resume (length (ob_loops o')) ?o2)"
    using loop_wait_inv [of "length (ob_loops o')" ?o2] by (simp add: loop_resume_def)
  moreover have "Waiting \<in> set (ob_loops (loop_resume (length (ob_loops o')) ?o2))"
    by (simp add: loop_resume_def loop_wait_def set_update_memI)
  ultimately show ?thesis
    using True by (auto simp: set_sync_period_def loops_inv_def active_def Let_def)
qed (use assms in \<open>auto simp: set_sync_period_def loops_inv_def one_wait_cancel\<close>)

lemma timer_expires_inv: "loops_inv o' \<Longrightarrow> loops_inv (timer_expires o')"
  by (auto simp: loops_inv_def timer_expires_def one_wait_def active_def)

lemma call_simps [simp]:
  "ob_loops (new_call f o') = ob_loops o'" "ob_period (new_call f o') = ob_period o'"
  "ob_loops (ini_cancel o') = ob_loops o'" "ob_period (ini_cancel o') = ob_period o'"
  "ob_loops (destroy_ini o') = ob_loops o'" "ob_period (destroy_ini o') = ob_period o'"
  "ob_works (destroy_ini o') = ob_works o'" "ob_answers (destroy_ini o') = ob_answers o'"
  "ob_flags (destroy_ini o') = ob_flags o'" "ob_cancel_list (destroy_ini o') = ob_cancel_list o'"
  by (simp_all add: new_call_def ini_cancel_def destroy_ini_def object_sync_def Let_def split: prod.split)

lemma run_work_loops:
  "run_work o' = Some o2 \<Longrightarrow> ob_loops o2 = ob_loops o' \<and> ob_period o2 = ob_period o'"
  by (auto simp: run_work_def object_sync_def object_load_def Let_def split: list.splits io_work.splits prod.splits if_splits)

lemma loops_inv_simps [simp]:
  "loops_inv (o'\<lparr>ob_on_delete := b\<rparr>) = loops_inv o'" "loops_inv (o'\<lparr>ob_groups := g\<rparr>) = loops_inv o'"
  "loops_inv (new_call f o') = loops_inv o'" "loops_inv (ini_cancel o') = loops_inv o'"
  "loops_inv (destroy_ini o') = loops_inv o'"
  by (simp_all add: loops_inv_def)

lemma loops_inv_step: "ini_step o' e o2 \<Longrightarrow> loops_inv o' \<Longrightarrow> loops_inv o2"
proof (induction rule: ini_step.induct)
  case (io_turn o' o2)
  then show ?case using run_work_loops [OF io_turn(1)] by (simp add: loops_inv_def)
qed (simp_all add: set_sync_period_inv loop_resume_inv timer_expires_inv async_load_def async_sync_def)

section \<open>Every call is answered\<close>

definition call_ids :: "io_work list \<Rightarrow> nat list" where
  "call_ids ws = concat (map (\<lambda>w. case w of Load_work n \<Rightarrow> [n] | Sync_work n \<Rightarrow> [n] | Timer_work \<Rightarrow> []) ws)"

definition calls_inv :: "ini_object \<Rightarrow> bool" where
  "calls_inv o' \<longleftrightarrow> map fst (ob_answers o') @ call_ids (ob_works o') = [0..<length (ob_flags o')] \<and>
     (\<forall>n \<in> set (ob_cancel_list o'). n < length (ob_flags o'))"

lemma call_ids_simps [simp]:
  "call_ids [] = []" "call_ids (ws @ vs) = call_ids ws @ call_ids vs"
  "call_ids (Load_work n # ws) = n # call_ids ws" "call_ids (Sync_work n # ws) = n # call_ids ws"
  "call_ids (Timer_work # ws) = call_ids ws"
  by (simp_all add: call_ids_def)

lemma foldl_flags_length [simp]: "length (foldl (\<lambda>fs n. fs[n := True]) fs ns) = length fs"
  by (induction ns arbitrary: fs) simp_all

lemma loop_resume_calls:
  "call_ids (ob_works (loop_resume i o')) = call_ids (ob_works o') \<and> ob_answers (loop_resume i o') = ob_answers o' \<and>
   ob_flags (loop_resume i o') = ob_flags o' \<and> ob_cancel_list (loop_resume i o') = ob_cancel_list o'"
  by (auto simp: loop_resume_def loop_wait_def split: wait_state.split)

lemma calls_inv_work: "run_work o' = Some o2 \<Longrightarrow> calls_inv o' \<Longrightarrow> calls_inv o2"
  by (auto simp: run_work_def calls_inv_def object_sync_def object_load_def Let_def
      split: list.splits io_work.splits prod.splits if_splits)

lemma calls_inv_step: "ini_step o' e o2 \<Longrightarrow> calls_inv o' \<Longrightarrow> calls_inv o2"
proof (induction rule: ini_step.induct)
  case (period o' here msec)
  then show ?case
    by (auto simp: calls_inv_def set_sync_period_def Let_def loop_resume_calls)
next
  case (io_turn o' o2)
  then show ?case by (rule calls_inv_work)
next
  case (cancel o')
  then show ?case by (simp add: calls_inv_def ini_cancel_def)
qed (auto simp: calls_inv_def loop_resume_calls timer_expires_def async_load_def async_sync_def new_call_def Let_def
    less_Suc_eq)

lemma steps_inv: "ini_steps o' es o2 \<Longrightarrow> loops_inv o' \<and> calls_inv o' \<Longrightarrow> loops_inv o2 \<and> calls_inv o2"
  by (induction rule: ini_steps.induct) (auto dest: loops_inv_step calls_inv_step)


section \<open>Properties\<close>

text \<open>C24.
  Whatever a program does with a new object, at most one wait is pending on its timer, and
  while the period is not zero some coroutine is under way that will write the file. The calls
  are answered in their order and once each: the answers given and the works to be run are
  together the calls made.
\<close>

theorem ini_machine_inv:
  assumes "ini_steps (new_ini file) es o'"
  shows "one_wait (ob_loops o') \<and> (ob_period o' \<noteq> 0 \<longrightarrow> (\<exists>l \<in> set (ob_loops o'). active l)) \<and>
    map fst (ob_answers o') @ call_ids (ob_works o') = [0..<length (ob_flags o')]"
proof -
  have "loops_inv (new_ini file) \<and> calls_inv (new_ini file)"
    by (simp add: new_ini_def loops_inv_def calls_inv_def one_wait_def)
  from steps_inv [OF assms this] show ?thesis by (simp add: loops_inv_def calls_inv_def)
qed

theorem ini_machine_inv_witness:
  "\<exists>o'. ini_steps (new_ini None) [Period False 5, Resume 0, Async_sync] o' \<and> ob_period o' \<noteq> 0 \<and>
    (\<exists>l \<in> set (ob_loops o'). active l)"
proof -
  define o' where "o' = async_sync (loop_resume 0 (set_sync_period False 5 (new_ini None)))"
  have "ini_steps (new_ini None) [Period False 5, Resume 0, Async_sync] o'"
    unfolding o'_def by (simp add: new_ini_def set_sync_period_def loop_resume_def loop_wait_def Let_def)
  moreover have "ob_period o' \<noteq> 0"
    by (simp add: o'_def async_sync_def new_ini_def set_sync_period_def loop_resume_def loop_wait_def Let_def)
  ultimately show ?thesis using ini_machine_inv [of None _ o'] by blast
qed

text \<open>
  A period of zero is meant to stop the coroutine. If the timer has expired and the coroutine
  has not been resumed yet, cancelling ends no wait, and the coroutine goes on with waits of
  no length: every round puts another work of writing the file into the queue.
\<close>

theorem stop_missed:
  assumes "i < length (ob_loops o')" "ob_loops o' ! i = Fired" "ob_period o' \<noteq> 0"
  shows "\<exists>o2. ini_steps (set_sync_period here 0 o') (Resume i # concat (replicate n [Expire, Resume i])) o2 \<and>
    ob_works o2 = ob_works o' @ replicate (n + 1) Timer_work \<and> ob_period o2 = 0 \<and> ob_expiry o2 = 0 \<and>
    ob_loops o2 ! i = Waiting"
proof -
  have round: "\<exists>o2. ini_steps o1 (concat (replicate n [Expire, Resume i])) o2 \<and>
      ob_works o2 = ob_works o1 @ replicate n Timer_work \<and> ob_period o2 = 0 \<and> ob_expiry o2 = 0 \<and> ob_loops o2 ! i = Waiting"
    if "i < length (ob_loops o1)" "ob_loops o1 ! i = Waiting" "ob_period o1 = 0" "ob_expiry o1 = 0" for o1
    using that
  proof (induction n arbitrary: o1)
    case 0
    then show ?case by simp
  next
    case (Suc n)
    let ?o3 = "loop_resume i (timer_expires o1)"
    have o3: "i < length (ob_loops ?o3)" "ob_loops ?o3 ! i = Waiting" "ob_period ?o3 = 0" "ob_expiry ?o3 = 0"
        "ob_works ?o3 = ob_works o1 @ [Timer_work]"
      using Suc.prems by (simp_all add: loop_resume_def timer_expires_def loop_wait_def)
    obtain o2 where "ini_steps ?o3 (concat (replicate n [Expire, Resume i])) o2"
        "ob_works o2 = ob_works ?o3 @ replicate n Timer_work" "ob_period o2 = 0" "ob_expiry o2 = 0" "ob_loops o2 ! i = Waiting"
      using Suc.IH [OF o3(1-4)] by blast
    then show ?case using o3(5) by (intro exI [of _ o2]) simp
  qed
  let ?o1 = "loop_resume i (set_sync_period here 0 o')"
  have o1: "i < length (ob_loops ?o1)" "ob_loops ?o1 ! i = Waiting" "ob_period ?o1 = 0" "ob_expiry ?o1 = 0"
      "ob_works ?o1 = ob_works o' @ [Timer_work]"
    using assms by (simp_all add: loop_resume_def set_sync_period_def loop_wait_def)
  obtain o2 where "ini_steps ?o1 (concat (replicate n [Expire, Resume i])) o2"
      "ob_works o2 = ob_works ?o1 @ replicate n Timer_work" "ob_period o2 = 0" "ob_expiry o2 = 0" "ob_loops o2 ! i = Waiting"
    using round [OF o1(1-4)] by blast
  then show ?thesis using o1(5) by (intro exI [of _ o2]) simp
qed

theorem stop_missed_witness:
  "\<exists>o2. ini_steps (set_sync_period False 0 ((new_ini None)\<lparr>ob_period := 5, ob_loops := [Fired]\<rparr>))
      [Resume 0, Expire, Resume 0] o2 \<and> ob_works o2 = [Timer_work, Timer_work] \<and> ob_period o2 = 0"
  using stop_missed [of 0 "(new_ini None)\<lparr>ob_period := 5, ob_loops := [Fired]\<rparr>" False 1]
  by (auto simp: new_ini_def)

lemma flag_set: "n \<in> set ns \<Longrightarrow> n < length fs \<Longrightarrow> foldl (\<lambda>fs n. fs[n := True]) fs ns ! n"
proof (induction ns rule: rev_induct)
  case (snoc m ns)
  then show ?case by (auto simp: update_nth)
qed simp

text \<open>
  Cancelling a write that has not begun loses the file: the work opens it, which makes it
  empty, before it asks whether it was cancelled.
\<close>

theorem cancelled_sync_empties:
  assumes "ob_alive o'" "ob_works o' = []" "ob_groups o' \<noteq> []"
  shows "\<exists>o2. ini_steps o' [Async_sync, Cancel_all, Io_turn] o2 \<and> ob_file o2 = Some [] \<and> ob_groups o2 = ob_groups o' \<and>
    ob_answers o2 = ob_answers o' @ [(length (ob_flags o'), Some Operation_aborted)]"
proof -
  obtain g ks gs where gs: "ob_groups o' = (g, ks) # gs" using assms(3) by (cases "ob_groups o'") auto
  let ?o1 = "ini_cancel (async_sync o')"
  have "ob_flags ?o1 ! length (ob_flags o')"
    by (simp add: ini_cancel_def async_sync_def new_call_def Let_def update_nth)
  moreover have "ob_works ?o1 = [Sync_work (length (ob_flags o'))]" "ob_alive ?o1" "ob_groups ?o1 = ob_groups o'"
      "ob_answers ?o1 = ob_answers o'"
    using assms by (simp_all add: ini_cancel_def async_sync_def new_call_def Let_def)
  ultimately obtain o2 where o2: "run_work ?o1 = Some o2" "ob_file o2 = Some []" "ob_groups o2 = ob_groups o'"
      "ob_answers o2 = ob_answers o' @ [(length (ob_flags o'), Some Operation_aborted)]"
    by (simp add: run_work_def object_sync_def ini_sync_def gs)
  have "ini_steps o' [Async_sync, Cancel_all, Io_turn] o2"
    using o2(1) assms(1) by (simp add: async_sync_def new_call_def Let_def)
  with o2 show ?thesis by blast
qed

theorem cancelled_sync_empties_witness:
  "\<exists>o2. ini_steps ((new_ini (Some ''[a]''))\<lparr>ob_groups := [(''a'', [])]\<rparr>) [Async_sync, Cancel_all, Io_turn] o2 \<and>
    ob_file o2 = Some []"
  using cancelled_sync_empties [of "(new_ini (Some ''[a]''))\<lparr>ob_groups := [(''a'', [])]\<rparr>"]
  by (auto simp: new_ini_def)

text \<open>
  What the coroutine is for: when the timer expires, and the file thread has nothing else to
  do, the file is written, and an object that loads it has the same groups.
\<close>

theorem period_writes_file:
  assumes "i < length (ob_loops o')" "ob_loops o' ! i = Waiting" "ob_works o' = []" "storable (ob_groups o')"
  shows "\<exists>o2. ini_steps o' [Expire, Resume i, Io_turn] o2 \<and> ob_groups o2 = ob_groups o' \<and>
    (\<exists>o3. ini_steps (new_ini (ob_file o2)) [Async_load, Io_turn] o3 \<and> ob_groups o3 = ob_groups o' \<and>
      ob_answers o3 = [(0, None)])"
proof -
  obtain content where content: "ini_sync (\<lambda>_. False) (ob_groups o') = (None, content, ob_groups o')"
      "ini_load (\<lambda>_. False) (Some content) [] = (None, ob_groups o')"
    using stored_loads [OF assms(4)] by blast
  let ?o1 = "loop_resume i (timer_expires o')"
  have o1: "ob_works ?o1 = [Timer_work]" "ob_groups ?o1 = ob_groups o'"
    using assms by (simp_all add: loop_resume_def timer_expires_def loop_wait_def)
  define o2 where "o2 = ?o1\<lparr>ob_works := [], ob_file := Some content\<rparr>"
  have "run_work ?o1 = Some o2"
    using o1 content(1) by (simp add: run_work_def object_sync_def o2_def)
  then have "ini_steps o' [Expire, Resume i, Io_turn] o2"
    by simp
  moreover have "run_work (async_load (new_ini (ob_file o2))) =
      Some ((async_load (new_ini (ob_file o2)))\<lparr>ob_works := [], ob_groups := ob_groups o', ob_answers := [(0, None)]\<rparr>)"
    using content(2) by (simp add: run_work_def async_load_def new_call_def new_ini_def object_load_def o2_def Let_def)
  then have "\<exists>o3. ini_steps (new_ini (ob_file o2)) [Async_load, Io_turn] o3 \<and> ob_groups o3 = ob_groups o' \<and>
      ob_answers o3 = [(0, None)]"
    by (simp add: new_ini_def)
  ultimately show ?thesis using o1(2) by (intro exI [of _ o2]) (simp add: o2_def)
qed

theorem period_writes_file_witness:
  "\<exists>o2. ini_steps ((new_ini None)\<lparr>ob_groups := [(''net'', [(''port'', ''80'')])], ob_loops := [Waiting], ob_period := 5\<rparr>)
      [Expire, Resume 0, Io_turn] o2 \<and>
    (\<exists>o3. ini_steps (new_ini (ob_file o2)) [Async_load, Io_turn] o3 \<and> ob_groups o3 = [(''net'', [(''port'', ''80'')])])"
proof -
  have "storable [(''net'', [(''port'', ''80'')])]" by code_simp
  then show ?thesis
    using period_writes_file [of 0 "(new_ini None)\<lparr>ob_groups := [(''net'', [(''port'', ''80'')])], ob_loops := [Waiting], ob_period := 5\<rparr>"]
    by (auto simp: new_ini_def)
qed

end
