(* ===== verification/Args_Parser.thy ===== *)
theory Args_Parser
  imports String_List Numbers
begin

text \<open>
  The parser of command lines (\<^verbatim>\<open>cmdline::args_parser\<close> of \<^verbatim>\<open>libgs/core/args_parser.cpp\<close>):
  groups, which take a value, and flags are registered under several names; parsing yields
  what was given under their identifiers and the other arguments. Where the source prints a
  message and ends the process, the result is that exit. The unordered maps and the set are
  lists in the order of insertion, which is never looked at.
\<close>

section \<open>Registering\<close>

record arg_info =
  ai_group :: string
  ai_iden :: string

type_synonym args_cache = "(string \<times> arg_info) list"

record args_parser =
  m_group :: args_cache
  m_flag :: args_cache
  m_version :: string
  m_v :: string
  m_help_title :: string
  m_help :: string
  m_help_ex :: string
  m_h :: bool

definition new_args_parser :: "string \<Rightarrow> args_parser" where
  "new_args_parser help_title =
     \<lparr>m_group = [], m_flag = [], m_version = [], m_v = [], m_help_title = help_title, m_help = [], m_help_ex = [],
      m_h = False\<rparr>"

text \<open>\<^verbatim>\<open>emplace\<close> of an unordered map: an element that is there stays.\<close>

definition umap_emplace :: "(string \<times> 'v) list \<Rightarrow> string \<Rightarrow> 'v \<Rightarrow> (string \<times> 'v) list" where
  "umap_emplace m k v = (case map_of m k of None \<Rightarrow> m @ [(k, v)] | Some _ \<Rightarrow> m)"

definition check :: "string \<Rightarrow> bool" where
  "check str \<longleftrightarrow> str \<noteq> [] \<and>
     list_all (\<lambda>c. \<not> (schar c < 33 \<or> schar c = 61 \<or> schar c = 92 \<or> 126 < schar c)) (substr 1 (length str - 2) str)"

definition add_name :: "string \<Rightarrow> string \<Rightarrow> args_cache \<Rightarrow> string \<Rightarrow> args_cache" where
  "add_name buf identification cache arg =
     (let arg = str_trimmed arg in
      if \<not> check arg \<or> arg = ''--'' then cache
      else if length arg = 1 then
        if arg \<noteq> ''-'' then
          umap_emplace cache arg \<lparr>ai_group = buf, ai_iden = (if identification = [] then arg else identification)\<rparr>
        else cache
      else umap_emplace cache arg \<lparr>ai_group = buf, ai_iden = (if identification = [] then arg else identification)\<rparr>)"

definition add_names :: "nat \<Rightarrow> args_cache \<Rightarrow> string \<Rightarrow> string \<Rightarrow> args_cache" where
  "add_names id_source cache rule identification =
     (case from_string rule '','' True of
        None \<Rightarrow> cache
      | Some str_list \<Rightarrow> foldl (add_name (to_string id_source) identification) cache str_list)"

definition help_entry :: "string \<Rightarrow> string \<Rightarrow> string" where
  "help_entry rule description =
     ''    '' @ rule @ '' :'' @ [CHR 0x0A] @ ''        '' @ description @ [CHR 0x0A, CHR 0x0A]"

text \<open>The counter \<^verbatim>\<open>id_source\<close> is one for the whole program; the calls return its new value.\<close>

definition add_group :: "nat \<Rightarrow> string \<Rightarrow> string \<Rightarrow> string \<Rightarrow> args_parser \<Rightarrow> nat \<times> args_parser" where
  "add_group id_source rule description identification p =
     (id_source + 1,
      p\<lparr>m_group := add_names id_source (m_group p) rule identification,
        m_help := m_help p @ help_entry rule description\<rparr>)"

definition add_flag :: "nat \<Rightarrow> string \<Rightarrow> string \<Rightarrow> string \<Rightarrow> args_parser \<Rightarrow> nat \<times> args_parser" where
  "add_flag id_source rule description identification p =
     (id_source + 1,
      p\<lparr>m_flag := add_names id_source (m_flag p) rule identification,
        m_help := m_help p @ help_entry rule description\<rparr>)"

section \<open>Parsing\<close>

datatype exit_with = Show_version | Show_v | Show_help | Invalid_arguments | Too_many_parameters

record parse_state =
  ps_cache :: "string list"
  ps_result :: "(string \<times> string) list"
  ps_other :: "string list"

definition group_check_duplication :: "string \<Rightarrow> parse_state \<Rightarrow> exit_with + parse_state" where
  "group_check_duplication g s =
     (if g \<in> set (ps_cache s) then Inl Too_many_parameters else Inr (s\<lparr>ps_cache := g # ps_cache s\<rparr>))"

definition emplace_result :: "string \<Rightarrow> string \<Rightarrow> parse_state \<Rightarrow> parse_state" where
  "emplace_result iden val s = s\<lparr>ps_result := umap_emplace (ps_result s) iden val\<rparr>"

definition add_other :: "string \<Rightarrow> parse_state \<Rightarrow> parse_state" where
  "add_other arg s = s\<lparr>ps_other := ps_other s @ [arg]\<rparr>"

definition take_result :: "arg_info \<Rightarrow> string \<Rightarrow> parse_state \<Rightarrow> exit_with + parse_state" where
  "take_result info val s =
     res_bind (group_check_duplication (ai_group info) s) (\<lambda>s. Inr (emplace_result (ai_iden info) val s))"

definition take_other :: "string \<Rightarrow> parse_state \<Rightarrow> exit_with + parse_state" where
  "take_other arg s = res_bind (group_check_duplication arg s) (\<lambda>s. Inr (add_other arg s))"

text \<open>The arguments that ask for the version or the help.\<close>

definition special :: "args_parser \<Rightarrow> nat \<Rightarrow> string \<Rightarrow> exit_with option" where
  "special p argc arg =
     (if arg = ''-'' \<or> arg = ''--'' then Some Invalid_arguments
      else if arg = ''--version'' then
        Some (if 2 < argc then Too_many_parameters
              else if m_version p \<noteq> [] then Show_version
              else if m_v p \<noteq> [] then Show_v
              else Invalid_arguments)
      else if arg = ''-v'' then
        if m_v p \<noteq> [] then Some (if 2 < argc then Too_many_parameters else Show_v) else None
      else if arg = ''--help'' then
        Some (if 2 < argc then Too_many_parameters
              else if m_help p \<noteq> [] then Show_help
              else Invalid_arguments)
      else if arg = ''-h'' then
        if m_h p then Some (if 2 < argc then Too_many_parameters else Show_help) else None
      else None)"

definition is_letter :: "char \<Rightarrow> bool" where
  "is_letter c \<longleftrightarrow> \<not> (schar c < 0x41 \<or> (0x5A < schar c \<and> schar c < 0x61) \<or> 0x7A < schar c)"

text \<open>The letters of a cluster but the last, each a flag or another argument.\<close>

fun cluster_loop :: "args_parser \<Rightarrow> string \<Rightarrow> string \<Rightarrow> parse_state \<Rightarrow> exit_with + parse_state" where
  "cluster_loop p arg [] s = Inr s"
| "cluster_loop p arg (c # cs) s =
     res_bind (case map_of (m_flag p) [CHR ''-'', c] of
         None \<Rightarrow> take_other arg s
       | Some info \<Rightarrow> take_result info (ai_iden info) s)
       (cluster_loop p arg cs)"

text \<open>A group takes the next argument, which must be there and must not be a name.\<close>

definition take_value :: "args_parser \<Rightarrow> arg_info \<Rightarrow> string list \<Rightarrow> parse_state \<Rightarrow> exit_with + (parse_state \<times> string list)" where
  "take_value p info rest s =
     (case rest of
        [] \<Rightarrow> Inl Invalid_arguments
      | val # rest \<Rightarrow>
          if map_of (m_group p) val \<noteq> None \<or> map_of (m_flag p) val \<noteq> None then Inl Invalid_arguments
          else res_bind (take_result info val s) (\<lambda>s. Inr (s, rest)))"

definition parse_cluster :: "args_parser \<Rightarrow> string \<Rightarrow> string list \<Rightarrow> parse_state \<Rightarrow> exit_with + (parse_state \<times> string list)" where
  "parse_cluster p arg rest s =
     res_bind (cluster_loop p arg (substr 1 (length arg - 2) arg) s) (\<lambda>s.
       let tmp = [CHR ''-'', last arg] in
       case map_of (m_flag p) tmp of
         Some info \<Rightarrow> res_bind (take_result info (ai_iden info) s) (\<lambda>s. Inr (s, rest))
       | None \<Rightarrow>
           (case map_of (m_group p) tmp of
              Some info \<Rightarrow> take_value p info rest s
            | None \<Rightarrow> Inr (add_other arg s, rest)))"

definition parse_arg :: "args_parser \<Rightarrow> nat \<Rightarrow> string \<Rightarrow> string list \<Rightarrow> parse_state \<Rightarrow> exit_with + (parse_state \<times> string list)" where
  "parse_arg p argc arg rest s =
     (case special p argc arg of
        Some e \<Rightarrow> Inl e
      | None \<Rightarrow>
     (case map_of (m_group p) arg of
        Some info \<Rightarrow> take_value p info rest s
      | None \<Rightarrow>
     (case map_of (m_flag p) arg of
        Some info \<Rightarrow> res_bind (take_result info (ai_iden info) s) (\<lambda>s. Inr (s, rest))
      | None \<Rightarrow>
          if length arg \<le> 2 then res_bind (take_other arg s) (\<lambda>s. Inr (s, rest))
          else (case find_char (CHR ''='') arg of
             Some pos \<Rightarrow>
               (case map_of (m_group p) (substr 0 pos arg) of
                  None \<Rightarrow> res_bind (take_other arg s) (\<lambda>s. Inr (s, rest))
                | Some info \<Rightarrow> res_bind (take_result info (drop (pos + 1) arg) s) (\<lambda>s. Inr (s, rest)))
           | None \<Rightarrow>
               if arg ! 0 \<noteq> CHR ''-'' \<or> \<not> list_all is_letter (drop 1 arg) then
                 res_bind (take_other arg s) (\<lambda>s. Inr (s, rest))
               else parse_cluster p arg rest s))))"

lemma take_value_shorter: "take_value p info rest s = Inr (s', rest') \<Longrightarrow> length rest' < length rest"
  by (cases rest) (auto simp: take_value_def res_bind_Inr split: if_splits)

lemma parse_arg_shorter: "parse_arg p argc arg rest s = Inr (s', rest') \<Longrightarrow> length rest' \<le> length rest"
  using take_value_shorter [of p _ rest _ s' rest']
  by (fastforce simp: parse_arg_def parse_cluster_def Let_def res_bind_Inr split: option.splits if_splits)

function parse_args :: "args_parser \<Rightarrow> nat \<Rightarrow> string list \<Rightarrow> parse_state \<Rightarrow> exit_with + parse_state" where
  "parse_args p argc [] s = Inr s"
| "parse_args p argc (arg # rest) s =
     (case parse_arg p argc arg rest s of
        Inl e \<Rightarrow> Inl e
      | Inr (s, rest) \<Rightarrow> parse_args p argc rest s)"
  by pat_completeness auto
termination
  by (relation "measure (\<lambda>(p, argc, args, s). length args)") (auto dest!: parse_arg_shorter)

text \<open>\<open>argv\<close> without the name of the program, which is its first element.\<close>

definition parsing :: "args_parser \<Rightarrow> string list \<Rightarrow> exit_with + ((string \<times> string) list \<times> string list)" where
  "parsing p args =
     res_bind (parse_args p (length args + 1) args \<lparr>ps_cache = [], ps_result = [], ps_other = []\<rparr>)
       (\<lambda>s. Inr (ps_result s, ps_other s))"

definition parsing_strict :: "args_parser \<Rightarrow> string list \<Rightarrow> exit_with + (string \<times> string) list" where
  "parsing_strict p args =
     res_bind (parsing p args) (\<lambda>(res, other). if other \<noteq> [] then Inl Invalid_arguments else Inr res)"

section \<open>Command lines\<close>

text \<open>The ways to write an argument, the strings they become and what they stand for.\<close>

datatype item = Group_item string string | Joined_item string string | Flag_item string | Other_item string

fun render :: "item \<Rightarrow> string list" where
  "render (Group_item k v) = [k, v]"
| "render (Joined_item k v) = [k @ ''='' @ v]"
| "render (Flag_item k) = [k]"
| "render (Other_item a) = [a]"

definition info_of :: "args_cache \<Rightarrow> string \<Rightarrow> arg_info" where
  "info_of cache k = the (map_of cache k)"

fun binding :: "args_parser \<Rightarrow> item \<Rightarrow> (string \<times> string) list" where
  "binding p (Group_item k v) = [(ai_iden (info_of (m_group p) k), v)]"
| "binding p (Joined_item k v) = [(ai_iden (info_of (m_group p) k), v)]"
| "binding p (Flag_item k) = [(ai_iden (info_of (m_flag p) k), ai_iden (info_of (m_flag p) k))]"
| "binding p (Other_item a) = []"

fun other :: "item \<Rightarrow> string list" where
  "other (Other_item a) = [a]"
| "other _ = []"

text \<open>What the check for duplicates remembers of an item.\<close>

fun entry :: "args_parser \<Rightarrow> item \<Rightarrow> string" where
  "entry p (Group_item k v) = ai_group (info_of (m_group p) k)"
| "entry p (Joined_item k v) = ai_group (info_of (m_group p) k)"
| "entry p (Flag_item k) = ai_group (info_of (m_flag p) k)"
| "entry p (Other_item a) = a"

definition plain_name :: "string \<Rightarrow> bool" where
  "plain_name k \<longleftrightarrow> k \<notin> {''-'', ''--'', ''--version'', ''-v'', ''--help'', ''-h''}"

definition unknown :: "args_parser \<Rightarrow> string \<Rightarrow> bool" where
  "unknown p k \<longleftrightarrow> map_of (m_group p) k = None \<and> map_of (m_flag p) k = None"

fun good_item :: "args_parser \<Rightarrow> item \<Rightarrow> bool" where
  "good_item p (Group_item k v) \<longleftrightarrow> plain_name k \<and> map_of (m_group p) k \<noteq> None \<and> unknown p v"
| "good_item p (Joined_item k v) \<longleftrightarrow>
     CHR ''='' \<notin> set k \<and> map_of (m_group p) k \<noteq> None \<and> unknown p (k @ ''='' @ v) \<and> 2 < length (k @ ''='' @ v)"
| "good_item p (Flag_item k) \<longleftrightarrow> plain_name k \<and> map_of (m_group p) k = None \<and> map_of (m_flag p) k \<noteq> None"
| "good_item p (Other_item a) \<longleftrightarrow>
     plain_name a \<and> unknown p a \<and> (length a \<le> 2 \<or> CHR ''='' \<notin> set a \<and> a ! 0 \<noteq> CHR ''-'')"

definition apply_item :: "args_parser \<Rightarrow> item \<Rightarrow> parse_state \<Rightarrow> parse_state" where
  "apply_item p it s =
     \<lparr>ps_cache = entry p it # ps_cache s,
      ps_result = foldl (\<lambda>m (k, v). umap_emplace m k v) (ps_result s) (binding p it),
      ps_other = ps_other s @ other it\<rparr>"

lemma special_plain: "plain_name k \<Longrightarrow> special p argc k = None"
  by (simp add: plain_name_def special_def)

lemma special_assign: "special p argc (k @ CHR ''='' # v) = None"
  by (rule special_plain) (auto simp: plain_name_def append_eq_Cons_conv)

lemmas take_defs = take_result_def take_other_def group_check_duplication_def emplace_result_def add_other_def
  apply_item_def info_of_def

lemma parse_item:
  assumes "good_item p it" "entry p it \<notin> set (ps_cache s)"
  shows "parse_args p argc (render it @ rest) s = parse_args p argc rest (apply_item p it s)"
proof (cases it)
  case (Group_item k v)
  then show ?thesis
    using assms by (cases s) (auto simp: parse_arg_def special_plain take_value_def unknown_def take_defs)
next
  case (Joined_item k v)
  then have "find_char (CHR ''='') (k @ CHR ''='' # v) = Some (length k)" using assms(1) by simp
  with Joined_item show ?thesis
    using assms by (cases s) (auto simp: parse_arg_def special_assign unknown_def substr_def take_defs)
next
  case (Flag_item k)
  then show ?thesis using assms by (cases s) (auto simp: parse_arg_def special_plain take_defs)
next
  case (Other_item a)
  show ?thesis
  proof (cases "length a \<le> 2")
    case True
    then show ?thesis using Other_item assms by (cases s) (simp add: parse_arg_def special_plain unknown_def take_defs)
  next
    case False
    then have "find_char (CHR ''='') a = None" using Other_item assms(1) by (simp add: find_char_None)
    then show ?thesis using Other_item False assms by (cases s) (simp add: parse_arg_def special_plain unknown_def take_defs)
  qed
qed

lemma map_of_emplace: "map_of (umap_emplace m k v) = map_of (m @ [(k, v)])"
  by (auto simp: umap_emplace_def fun_eq_iff map_add_def split: option.splits)

lemma map_of_emplace_all: "map_of (foldl (\<lambda>m (k, v). umap_emplace m k v) m bs) = map_of (m @ bs)"
proof (induction bs arbitrary: m)
  case (Cons b bs)
  then show ?case by (cases b) (simp add: map_of_emplace)
qed simp

lemma parse_items:
  "list_all (good_item p) its \<Longrightarrow> distinct (map (entry p) its) \<Longrightarrow> set (map (entry p) its) \<inter> set (ps_cache s) = {} \<Longrightarrow>
   \<exists>s'. parse_args p argc (concat (map render its)) s = Inr s' \<and>
     map_of (ps_result s') = map_of (ps_result s @ concat (map (binding p) its)) \<and>
     ps_other s' = ps_other s @ concat (map other its)"
proof (induction its arbitrary: s)
  case (Cons it its)
  let ?s = "apply_item p it s"
  have "parse_args p argc (concat (map render (it # its))) s = parse_args p argc (concat (map render its)) ?s"
    using parse_item [of p it s argc "concat (map render its)"] Cons.prems by simp
  moreover have "set (map (entry p) its) \<inter> set (ps_cache ?s) = {}"
    using Cons.prems(2,3) by (auto simp: apply_item_def)
  with Cons.IH [of ?s] Cons.prems obtain s' where
    "parse_args p argc (concat (map render its)) ?s = Inr s'"
    "map_of (ps_result s') = map_of (ps_result ?s @ concat (map (binding p) its))"
    "ps_other s' = ps_other ?s @ concat (map other its)" by auto
  ultimately show ?case
    by (simp add: apply_item_def map_of_emplace_all)
qed simp

section \<open>Clusters of flags\<close>

definition letter_flag :: "args_parser \<Rightarrow> char \<Rightarrow> bool" where
  "letter_flag p c \<longleftrightarrow> is_letter c \<and> plain_name [CHR ''-'', c] \<and>
     map_of (m_group p) [CHR ''-'', c] = None \<and> map_of (m_flag p) [CHR ''-'', c] \<noteq> None"

text \<open>The flags of a cluster one after the other.\<close>

fun flags_result :: "args_parser \<Rightarrow> string \<Rightarrow> parse_state \<Rightarrow> exit_with + parse_state" where
  "flags_result p [] s = Inr s"
| "flags_result p (c # cs) s =
     (let info = info_of (m_flag p) [CHR ''-'', c] in
      res_bind (take_result info (ai_iden info) s) (flags_result p cs))"

lemma flags_apart:
  "list_all (letter_flag p) cs \<Longrightarrow>
   parse_args p argc (map (\<lambda>c. [CHR ''-'', c]) cs @ rest) s =
   (case flags_result p cs s of Inl e \<Rightarrow> Inl e | Inr s \<Rightarrow> parse_args p argc rest s)"
proof (induction cs arbitrary: s)
  case (Cons c cs)
  then have "letter_flag p c" by simp
  then show ?case
    using Cons by (auto simp: letter_flag_def parse_arg_def special_plain info_of_def Let_def res_bind_def
        split: sum.splits)
qed simp

lemma flags_append:
  "flags_result p (as @ bs) s = res_bind (flags_result p as s) (flags_result p bs)"
  by (induction as arbitrary: s) (auto simp: Let_def res_bind_def split: sum.splits)

lemma cluster_flags: "list_all (letter_flag p) cs \<Longrightarrow> cluster_loop p arg cs s = flags_result p cs s"
proof (induction cs arbitrary: s)
  case (Cons c cs)
  then have "\<exists>info. map_of (m_flag p) [CHR ''-'', c] = Some info" by (simp add: letter_flag_def)
  then show ?case
    using Cons by (auto simp: info_of_def Let_def res_bind_def split: sum.splits)
qed simp

section \<open>Properties\<close>

text \<open>C29.
  A command line written from groups with their values, joined or apart, from flags and from
  other arguments, each option once, parses to those values under the identifiers of their
  options and to the other arguments in order.
\<close>

theorem args_render_parse:
  assumes "list_all (good_item p) its" "distinct (map (entry p) its)"
  shows "\<exists>res. parsing p (concat (map render its)) = Inr (res, concat (map other its)) \<and>
    map_of res = map_of (concat (map (binding p) its))"
proof -
  obtain s' where "parse_args p (length (concat (map render its)) + 1) (concat (map render its))
      \<lparr>ps_cache = [], ps_result = [], ps_other = []\<rparr> = Inr s'"
    "map_of (ps_result s') = map_of (concat (map (binding p) its))" "ps_other s' = concat (map other its)"
    using parse_items [OF assms, of "\<lparr>ps_cache = [], ps_result = [], ps_other = []\<rparr>"
        "length (concat (map render its)) + 1"] by auto
  then show ?thesis by (simp add: parsing_def)
qed

text \<open>A parser with one group and three flags, as \<^verbatim>\<open>add_group\<close> and \<^verbatim>\<open>add_flag\<close> register them.\<close>

definition sample_parser :: args_parser where
  "sample_parser =
     snd (add_flag 3 ''-c'' ''third'' [] (snd (add_flag 2 ''-b'' ''second'' [] (snd (add_flag 1 ''-a, --all'' ''first'' ''all''
       (snd (add_group 0 ''-f, --file'' ''a file'' ''file'' (new_args_parser ''title''))))))))"

lemma sample_rules:
  "from_string ''-f, --file'' '','' True = Some [''-f'', '' --file'']"
  "from_string ''-a, --all'' '','' True = Some [''-a'', '' --all'']"
  "from_string ''-b'' '','' True = Some [''-b'']"
  "from_string ''-c'' '','' True = Some [''-c'']"
  by (simp_all add: from_string_pieces, code_simp+)

lemma sample_names:
  "foldl (add_name (to_string 0) ''file'') [] [''-f'', '' --file''] =
     [(''-f'', \<lparr>ai_group = ''0'', ai_iden = ''file''\<rparr>), (''--file'', \<lparr>ai_group = ''0'', ai_iden = ''file''\<rparr>)]"
  "foldl (add_name (to_string 3) []) (foldl (add_name (to_string 2) []) (foldl (add_name (to_string 1) ''all'') []
     [''-a'', '' --all'']) [''-b'']) [''-c''] =
     [(''-a'', \<lparr>ai_group = ''1'', ai_iden = ''all''\<rparr>), (''--all'', \<lparr>ai_group = ''1'', ai_iden = ''all''\<rparr>),
      (''-b'', \<lparr>ai_group = ''2'', ai_iden = ''-b''\<rparr>), (''-c'', \<lparr>ai_group = ''3'', ai_iden = ''-c''\<rparr>)]"
  by code_simp+

lemma sample_parser_caches:
  "m_group sample_parser = [(''-f'', \<lparr>ai_group = ''0'', ai_iden = ''file''\<rparr>), (''--file'', \<lparr>ai_group = ''0'', ai_iden = ''file''\<rparr>)]"
  "m_flag sample_parser = [(''-a'', \<lparr>ai_group = ''1'', ai_iden = ''all''\<rparr>), (''--all'', \<lparr>ai_group = ''1'', ai_iden = ''all''\<rparr>),
     (''-b'', \<lparr>ai_group = ''2'', ai_iden = ''-b''\<rparr>), (''-c'', \<lparr>ai_group = ''3'', ai_iden = ''-c''\<rparr>)]"
  using sample_names
  by (simp_all only: sample_parser_def add_flag_def add_group_def new_args_parser_def add_names_def sample_rules
      option.case args_parser.simps snd_conv)

theorem args_render_parse_witness:
  "\<exists>res. parsing sample_parser [''--file=x'', ''-a'', ''in''] = Inr (res, [''in'']) \<and> map_of res ''file'' = Some ''x''"
proof -
  have "list_all (good_item sample_parser) [Joined_item ''--file'' ''x'', Flag_item ''-a'', Other_item ''in'']"
    "distinct (map (entry sample_parser) [Joined_item ''--file'' ''x'', Flag_item ''-a'', Other_item ''in''])"
    by (simp_all add: sample_parser_caches info_of_def unknown_def plain_name_def)
  from args_render_parse [OF this] show ?thesis by (auto simp: sample_parser_caches info_of_def)
qed

text \<open>
  A cluster such as \<^verbatim>\<open>-abc\<close> of flags does what \<^verbatim>\<open>-a -b -c\<close> does, also when one of them was
  given before.
\<close>

theorem cluster_is_flags:
  assumes "list_all (letter_flag p) cs" "2 \<le> length cs" "unknown p (CHR ''-'' # cs)" "plain_name (CHR ''-'' # cs)"
  shows "parse_args p argc ((CHR ''-'' # cs) # rest) s = parse_args p argc (map (\<lambda>c. [CHR ''-'', c]) cs @ rest) s"
proof -
  obtain as c where c: "cs = as @ [c]" using assms(2) by (cases cs rule: rev_cases) auto
  with assms(2) have cs: "cs = as @ [c]" "as \<noteq> []" by auto
  have letters: "list_all is_letter cs" using assms(1) by (auto simp: list_all_iff letter_flag_def)
  have "\<not> is_letter (CHR ''='')" by (simp add: is_letter_def schar_def uchar_def)
  then have "CHR ''='' \<notin> set (CHR ''-'' # cs)" using letters by (auto simp: list_all_iff)
  then have no_assign: "find_char (CHR ''='') (CHR ''-'' # cs) = None" by (rule iffD2 [OF find_char_None])
  have "map_of (m_flag p) [CHR ''-'', c] = Some (info_of (m_flag p) [CHR ''-'', c])"
    using assms(1) cs(1) by (auto simp: letter_flag_def info_of_def)
  moreover have "cluster_loop p (CHR ''-'' # cs) as s = flags_result p as s"
    using assms(1) cs(1) by (intro cluster_flags) simp
  ultimately have "parse_arg p argc (CHR ''-'' # cs) rest s =
      res_bind (flags_result p cs s) (\<lambda>s. Inr (s, rest))"
    using assms(2-4) letters no_assign cs
    by (auto simp: parse_arg_def parse_cluster_def special_plain unknown_def substr_def flags_append Let_def res_bind_def
        split: sum.splits)
  then show ?thesis by (simp add: flags_apart [OF assms(1)] res_bind_def split: sum.splits)
qed

theorem cluster_is_flags_witness:
  "parse_args sample_parser 3 [''-ab'', ''x''] \<lparr>ps_cache = [], ps_result = [], ps_other = []\<rparr> =
   parse_args sample_parser 3 [''-a'', ''-b'', ''x''] \<lparr>ps_cache = [], ps_result = [], ps_other = []\<rparr>"
proof -
  have "list_all (letter_flag sample_parser) ''ab''" "unknown sample_parser ''-ab''"
    by (simp_all add: sample_parser_caches letter_flag_def unknown_def plain_name_def is_letter_def schar_def uchar_def)
  from cluster_is_flags [OF this(1) _ this(2), of 3 "[''x'']"] show ?thesis by (simp add: plain_name_def)
qed

text \<open>
  The numbers of the options and the arguments themselves share one set: an argument that
  reads like the number of an option given before is refused as a duplicate, and so is an
  argument that is given twice.
\<close>

theorem args_number_collides:
  assumes "good_item p (Flag_item k)" "good_item p (Other_item (entry p (Flag_item k)))" "good_item p (Other_item a)"
  shows "parsing p [k, entry p (Flag_item k)] = Inl Too_many_parameters \<and>
    parsing p [a, a] = Inl Too_many_parameters"
proof -
  let ?s = "\<lparr>ps_cache = [], ps_result = [], ps_other = []\<rparr>"
  have refused: "parse_args p argc [b] s = Inl Too_many_parameters"
    if "good_item p (Other_item b)" "b \<in> set (ps_cache s)" for b s argc
  proof -
    have "take_other b s = Inl Too_many_parameters" using that(2) by (simp add: take_defs)
    moreover have "length b \<le> 2 \<or> find_char (CHR ''='') b = None \<and> b ! 0 \<noteq> CHR ''-''"
      using that(1) by (auto intro: iffD2 [OF find_char_None])
    ultimately show ?thesis using that(1) by (auto simp: parse_arg_def special_plain unknown_def)
  qed
  have "parse_args p 3 [k, entry p (Flag_item k)] ?s =
      parse_args p 3 [entry p (Flag_item k)] (apply_item p (Flag_item k) ?s)"
    using parse_item [OF assms(1), of ?s 3 "[entry p (Flag_item k)]"] by simp
  then have "parse_args p 3 [k, entry p (Flag_item k)] ?s = Inl Too_many_parameters"
    using refused [OF assms(2)] by (simp add: apply_item_def)
  moreover have "parse_args p 3 [a, a] ?s = parse_args p 3 [a] (apply_item p (Other_item a) ?s)"
    using parse_item [OF assms(3), of ?s 3 "[a]"] by simp
  then have "parse_args p 3 [a, a] ?s = Inl Too_many_parameters"
    using refused [OF assms(3)] by (simp add: apply_item_def)
  ultimately show ?thesis by (simp add: parsing_def numeral_3_eq_3)
qed

theorem args_number_collides_witness:
  "parsing sample_parser [''-a'', ''1''] = Inl Too_many_parameters \<and>
   parsing sample_parser [''in'', ''in''] = Inl Too_many_parameters"
proof -
  have "good_item sample_parser (Flag_item ''-a'')" "good_item sample_parser (Other_item ''in'')"
    "entry sample_parser (Flag_item ''-a'') = ''1''" "good_item sample_parser (Other_item ''1'')"
    by (simp_all add: sample_parser_caches info_of_def unknown_def plain_name_def)
  then show ?thesis using args_number_collides [of sample_parser "''-a''" "''in''"] by simp
qed

text \<open>
  A cluster with two letters that are no flags ends the process, and one with a single such
  letter in front is listed twice.
\<close>

lemma cluster_unknown_letters:
  "parsing sample_parser [''-xyz''] = Inl Too_many_parameters"
  "parsing sample_parser [''-xy''] = Inr ([], [''-xy'', ''-xy''])"
  by (simp_all add: parsing_def parse_arg_def parse_cluster_def special_def sample_parser_caches is_letter_def schar_def
      uchar_def substr_def take_defs)

section \<open>Names of options\<close>

definition good_name :: "string \<Rightarrow> bool" where
  "good_name k \<longleftrightarrow> check k \<and> trim k = k \<and> CHR '','' \<notin> set k \<and> k \<noteq> ''-'' \<and> k \<noteq> ''--''"

lemma add_name_good:
  "good_name k \<Longrightarrow> add_name buf iden cache k =
   umap_emplace cache k \<lparr>ai_group = buf, ai_iden = (if iden = [] then k else iden)\<rparr>"
  by (simp add: add_name_def good_name_def str_trimmed_trim Let_def)

lemma add_names_fold:
  "list_all good_name ks \<Longrightarrow>
   map_of (foldl (add_name buf iden) cache ks) k =
   (case map_of cache k of
      Some info \<Rightarrow> Some info
    | None \<Rightarrow> if k \<in> set ks then Some \<lparr>ai_group = buf, ai_iden = (if iden = [] then k else iden)\<rparr> else None)"
  by (induction ks arbitrary: cache)
    (auto simp: add_name_good map_of_emplace map_add_def split: option.splits)

text \<open>
  A rule of names, separated by commas, registers each of them under one new number, except
  names that are registered already, which keep their meaning.
\<close>

theorem args_rule_names:
  assumes "list_all good_name ks" "ks \<noteq> []"
  shows "map_of (m_group (snd (add_group id_source (intercalate '','' ks) d iden p))) k =
    (case map_of (m_group p) k of
       Some info \<Rightarrow> Some info
     | None \<Rightarrow> if k \<in> set ks then Some \<lparr>ai_group = to_string id_source, ai_iden = (if iden = [] then k else iden)\<rparr>
              else None)"
proof -
  have names: "list_all (free_of '','') ks" "list_all (kept True) ks" "[] \<notin> set ks"
    using assms(1) by (auto simp: list_all_iff good_name_def free_of_single kept_def check_def)
  then have "intercalate '','' ks \<noteq> []"
    using assms(2) by (cases "('','', ks)" rule: intercalate.cases) auto
  moreover have "pieces '','' (intercalate '','' ks @ '','') = ks"
    using pieces_concat [of "'',''" ks "[]"] names(1) concat_intercalate [OF assms(2), of "'',''"] by simp
  ultimately have "from_string (intercalate '','' ks) '','' True = Some ks"
    using names(2) by (simp add: from_string_pieces filter_all)
  then show ?thesis by (simp add: add_group_def add_names_def add_names_fold [OF assms(1)])
qed

theorem args_rule_names_witness:
  "map_of (m_group (snd (add_group 0 (intercalate '','' [''-f'', ''--file'']) ''d'' ''file'' (new_args_parser [])))) ''--file'' =
   (case map_of (m_group (new_args_parser [])) ''--file'' of
      Some info \<Rightarrow> Some info
    | None \<Rightarrow> if ''--file'' \<in> set [''-f'', ''--file'']
        then Some \<lparr>ai_group = to_string 0, ai_iden = (if ''file'' = [] then ''--file'' else ''file'')\<rparr> else None)"
proof (rule args_rule_names)
  show "list_all good_name [''-f'', ''--file'']" by code_simp
qed simp

end
