(* ===== verification/Byte_Order.thy ===== *)
theory Byte_Order
  imports Prelude
begin

text \<open>
  Byte order (\<^verbatim>\<open>libgs/core/algorithm/detail/byte_order.h\<close>, \<^verbatim>\<open>byte_order.cpp\<close>). A number
  is a word of \<open>8 * k\<close> bits, its object representation the list of its bytes in the order of
  the addresses, which depends on the machine: \<open>big\<close> says that it is big endian. The
  library exchanges bytes with three assignments \<^verbatim>\<open>^=\<close>, which are three updates of the list
  here. The results are that the loops reverse the bytes, and that the image of \<^verbatim>\<open>hton(t)\<close>
  is the big endian image of \<^verbatim>\<open>t\<close> on both kinds of machine.
\<close>

section \<open>The bytes of a number\<close>

definition le_bytes :: "'a::len word \<Rightarrow> u8 list" where
  "le_bytes w = map (\<lambda>i. ucast (drop_bit (8 * i) w)) [0..<LENGTH('a) div 8]"

fun le_word :: "u8 list \<Rightarrow> 'a::len word" where
  "le_word [] = 0"
| "le_word (b # bs) = ucast b OR push_bit 8 (le_word bs)"

definition memory :: "bool \<Rightarrow> 'a::len word \<Rightarrow> u8 list" where
  "memory big w = (if big then rev (le_bytes w) else le_bytes w)"

definition load :: "bool \<Rightarrow> u8 list \<Rightarrow> 'a::len word" where
  "load big bs = le_word (if big then rev bs else bs)"

lemma length_le_bytes [simp]: "length (le_bytes (w :: 'a::len word)) = LENGTH('a) div 8"
  by (simp add: le_bytes_def)

lemma length_memory [simp]: "length (memory big (w :: 'a::len word)) = LENGTH('a) div 8"
  by (simp add: memory_def)

lemma bit_le_word:
  "bit (le_word bs :: 'a::len word) n \<longleftrightarrow>
   n < LENGTH('a) \<and> n div 8 < length bs \<and> bit (bs ! (n div 8)) (n mod 8)"
proof (induction bs arbitrary: n)
  case (Cons b bs)
  show ?case
  proof (cases "n < 8")
    case True
    then show ?thesis by (auto simp: bit_simps)
  next
    case False
    then obtain k where "n = 8 + k" by (auto dest: le_Suc_ex simp: not_less)
    moreover have "(8 + k) div 8 = Suc (k div 8)" "\<not> bit b (8 + k)"
      by simp (auto dest: bit_imp_le_length)
    ultimately show ?thesis using Cons.IH [of k] by (auto simp: bit_simps)
  qed
qed simp

lemma bit_le_bytes:
  "i < LENGTH('a) div 8 \<Longrightarrow> bit (le_bytes (w :: 'a::len word) ! i) n \<longleftrightarrow> n < 8 \<and> bit w (8 * i + n)"
  by (auto simp: le_bytes_def bit_simps)

lemma le_word_bytes:
  assumes "LENGTH('a) mod 8 = 0"
  shows "le_word (le_bytes w) = (w :: 'a::len word)"
proof (rule bit_word_eqI)
  fix n assume n: "n < LENGTH('a)"
  have "LENGTH('a) = 8 * (LENGTH('a) div 8)" using assms by presburger
  then have "n div 8 < LENGTH('a) div 8" using n by linarith
  then show "bit (le_word (le_bytes w) :: 'a word) n \<longleftrightarrow> bit w n"
    using n by (simp add: bit_le_word bit_le_bytes)
qed

lemma le_bytes_word:
  assumes "8 * length bs = LENGTH('a)"
  shows "le_bytes (le_word bs :: 'a::len word) = bs"
proof (rule nth_equalityI)
  show "length (le_bytes (le_word bs :: 'a word)) = length bs" using assms by simp
  fix i assume "i < length (le_bytes (le_word bs :: 'a word))"
  then have i: "i < length bs" "i < LENGTH('a) div 8" using assms by simp_all
  show "le_bytes (le_word bs :: 'a word) ! i = bs ! i"
  proof (rule bit_word_eqI)
    fix n assume "n < LENGTH(8)"
    then show "bit (le_bytes (le_word bs :: 'a word) ! i) n \<longleftrightarrow> bit (bs ! i) n"
      using i assms by (simp add: bit_le_bytes bit_le_word)
  qed
qed

lemma load_memory [simp]: "LENGTH('a) mod 8 = 0 \<Longrightarrow> load big (memory big w) = (w :: 'a::len word)"
  by (simp add: load_def memory_def le_word_bytes)

lemma memory_load [simp]: "8 * length bs = LENGTH('a) \<Longrightarrow> memory big (load big bs :: 'a::len word) = bs"
  by (simp add: load_def memory_def le_bytes_word)

section \<open>The functions of the library\<close>

definition is_little_endian :: "bool \<Rightarrow> bool" where
  "is_little_endian big \<longleftrightarrow> hd (memory big (0x12345678 :: u32)) = 0x78"

definition is_big_endian :: "bool \<Rightarrow> bool" where
  "is_big_endian big \<longleftrightarrow> \<not> is_little_endian big"

text \<open>\<^verbatim>\<open>m ^= n\<close> for the bytes at two positions, and the loop over the pairs.\<close>

definition xor_into :: "nat \<Rightarrow> nat \<Rightarrow> u8 list \<Rightarrow> u8 list" where
  "xor_into m n array = array[m := array ! m XOR array ! n]"

definition exchange :: "nat \<Rightarrow> nat \<Rightarrow> u8 list \<Rightarrow> u8 list" where
  "exchange len i array =
     (let m = i; n = len - i - 1 in xor_into m n (xor_into n m (xor_into m n array)))"

definition reverse_data :: "u8 list \<Rightarrow> nat \<Rightarrow> u8 list" where
  "reverse_data data len = fold (exchange len) [0..<drop_bit 1 len] data"

definition reverse_number :: "bool \<Rightarrow> 'a::len word \<Rightarrow> 'a word" where
  "reverse_number big t =
     (let sz = LENGTH('a) div 8 in load big (fold (exchange sz) [0..<drop_bit 1 sz] (memory big t)))"

definition hton :: "bool \<Rightarrow> 'a::len word \<Rightarrow> 'a word" where
  "hton big t = (if is_big_endian big then t else reverse_number big t)"

definition ntoh :: "bool \<Rightarrow> 'a::len word \<Rightarrow> 'a word" where
  "ntoh big t = (if is_big_endian big then t else reverse_number big t)"

definition hton_data :: "bool \<Rightarrow> u8 list \<Rightarrow> nat \<Rightarrow> u8 list" where
  "hton_data big data len = (if is_big_endian big then data else reverse_data data len)"

definition ntoh_data :: "bool \<Rightarrow> u8 list \<Rightarrow> nat \<Rightarrow> u8 list" where
  "ntoh_data big data len = (if is_big_endian big then data else reverse_data data len)"

section \<open>The loops reverse\<close>

lemma endian [simp]: "is_little_endian big \<longleftrightarrow> \<not> big" "is_big_endian big \<longleftrightarrow> big"
proof -
  have "memory True (0x12345678 :: u32) = [0x12, 0x34, 0x56, 0x78]"
    "memory False (0x12345678 :: u32) = [0x78, 0x56, 0x34, 0x12]"
    by (simp_all add: memory_def le_bytes_def upt_rec drop_bit_eq_div)
  then show "is_little_endian big \<longleftrightarrow> \<not> big" "is_big_endian big \<longleftrightarrow> big"
    by (cases big; simp add: is_big_endian_def is_little_endian_def)+
qed

lemma exchange_swaps:
  assumes "i < len - i - 1" "len \<le> length a"
  shows "exchange len i a = a[i := a ! (len - i - 1), len - i - 1 := a ! i]"
  using assms by (auto simp: exchange_def xor_into_def Let_def list_eq_iff_nth_eq nth_list_update xor.assoc xor.commute xor.left_commute)

lemma exchange_fold:
  assumes "len \<le> length a" "k \<le> len div 2"
  shows "length (fold (exchange len) [0..<k] a) = length a \<and>
    (\<forall>j < length a. fold (exchange len) [0..<k] a ! j =
      (if j < k \<or> len - k \<le> j \<and> j < len then a ! (len - 1 - j) else a ! j))"
  using assms(2)
proof (induction k)
  case (Suc k)
  let ?b = "fold (exchange len) [0..<k] a"
  have b: "length ?b = length a"
    "\<And>j. j < length a \<Longrightarrow> ?b ! j = (if j < k \<or> len - k \<le> j \<and> j < len then a ! (len - 1 - j) else a ! j)"
    using Suc by auto
  have k: "k < len - k - 1" "len - k - 1 < length a" using Suc.prems assms(1) by linarith+
  have step: "fold (exchange len) [0..<Suc k] a = ?b[k := ?b ! (len - k - 1), len - k - 1 := ?b ! k]"
    using exchange_swaps [of k len ?b] k(1) b(1) assms(1) by simp
  have "?b ! k = a ! k" "?b ! (len - k - 1) = a ! (len - k - 1)"
    using b(2) [of k] b(2) [of "len - k - 1"] k by auto
  then show ?case unfolding step
    using k b by (auto simp: nth_list_update Suc_diff_Suc)
qed auto

lemma reverse_data_rev:
  assumes "len \<le> length data"
  shows "reverse_data data len = rev (take len data) @ drop len data"
proof (rule nth_equalityI)
  have half: "drop_bit (Suc 0) len = len div 2" by (simp add: drop_bit_eq_div)
  note f = exchange_fold [OF assms order_refl]
  show "length (reverse_data data len) = length (rev (take len data) @ drop len data)"
    using f assms by (simp add: reverse_data_def half)
  fix j assume "j < length (reverse_data data len)"
  then have j: "j < length data" using f by (simp add: reverse_data_def half)
  then have v: "reverse_data data len ! j =
      (if j < len div 2 \<or> len - len div 2 \<le> j \<and> j < len then data ! (len - 1 - j) else data ! j)"
    using f by (simp add: reverse_data_def half)
  show "reverse_data data len ! j = (rev (take len data) @ drop len data) ! j"
  proof (cases "j < len")
    case True
    have mid: "j = len - 1 - j" if "\<not> j < len div 2" "\<not> len - len div 2 \<le> j" using True that by linarith
    have "reverse_data data len ! j = data ! (len - 1 - j)"
      unfolding v using mid True by auto
    then show ?thesis using True assms j by (simp add: nth_append rev_nth)
  next
    case False
    then have "reverse_data data len ! j = data ! j" unfolding v by auto
    then show ?thesis using False assms j by (simp add: nth_append)
  qed
qed

lemma reverse_number_bytes:
  "reverse_number big (t :: 'a::len word) = load big (rev (memory big t))"
  using reverse_data_rev [of "LENGTH('a) div 8" "memory big t"]
  by (simp add: reverse_number_def reverse_data_def Let_def)

lemma memory_hton:
  assumes "LENGTH('a) mod 8 = 0"
  shows "memory big (hton big (t :: 'a::len word)) = memory True t"
proof -
  have "8 * (LENGTH('a) div 8) = LENGTH('a)" using assms by presburger
  then have "memory big (reverse_number big t) = rev (memory big t)"
    by (simp add: reverse_number_bytes)
  then show ?thesis by (cases big) (simp_all add: hton_def, simp add: memory_def)
qed

section \<open>Properties\<close>

text \<open>
  Network order: on a machine of either kind the bytes of \<^verbatim>\<open>hton(t)\<close> in memory are those
  of \<^verbatim>\<open>t\<close> from the most significant to the least significant one, and \<^verbatim>\<open>ntoh\<close> recovers
  the number; exchanging the bytes of the number twice restores it.
\<close>

theorem network_order:
  assumes "LENGTH('a) mod 8 = 0"
  shows "memory big (hton big (t :: 'a::len word)) = rev (le_bytes t) \<and>
    ntoh big (hton big t) = t \<and> reverse_number big (reverse_number big t) = t"
proof -
  have sz: "8 * (LENGTH('a) div 8) = LENGTH('a)" using assms by presburger
  then have r: "reverse_number b (reverse_number b t) = t" for b
    using assms by (simp add: reverse_number_bytes)
  then show ?thesis
    using memory_hton [OF assms, of big t]
    by (simp add: hton_def ntoh_def memory_def split: if_splits)
qed

theorem network_order_witness:
  "memory False (hton False (0x0102 :: u16)) = [1, 2] \<and> ntoh False (hton False (0x0102 :: u16)) = 0x0102"
proof -
  have "le_bytes (0x0102 :: u16) = [2, 1]" by (simp add: le_bytes_def upt_rec drop_bit_eq_div)
  then show ?thesis using network_order [of False "0x0102 :: u16"] by simp
qed

text \<open>C2.
  The functions on memory reverse the first \<open>len\<close> bytes and leave the rest alone. As \<open>len\<close>
  counts bytes, the default length of one byte reverses nothing, whatever is pointed to.
\<close>

theorem reverse_data_spec:
  assumes "len \<le> length data"
  shows "reverse_data data len = rev (take len data) @ drop len data \<and>
    ntoh_data big (hton_data big data len) len = data \<and>
    hton_data big data (1 :: nat) = data"
proof -
  have "hton_data big data 1 = data"
    by (simp add: hton_data_def reverse_data_def drop_bit_eq_div)
  moreover have "reverse_data (reverse_data data len) len = data"
    using reverse_data_rev [OF assms] reverse_data_rev [of len "rev (take len data) @ drop len data"] assms by simp
  ultimately show ?thesis
    using reverse_data_rev [OF assms] by (simp add: hton_data_def ntoh_data_def)
qed

theorem reverse_data_spec_witness: "reverse_data [1, 2, 3, 4, 5] 4 = [4, 3, 2, 1, 5]"
  using reverse_data_spec [of 4 "[1, 2, 3, 4, 5]" False] by (simp add: numeral_eq_Suc)

end
