(* ===== verification/Uuid.thy ===== *)
theory Uuid
  imports Byte_Order Numbers
begin

text \<open>
  Universally unique identifiers (\<^verbatim>\<open>libgs/core/algorithm/uuid.h\<close>, \<^verbatim>\<open>detail/uuid.h\<close>). The
  union is its 16 bytes; the members \<^verbatim>\<open>wide_integers\<close>, \<^verbatim>\<open>internals\<close> and \<^verbatim>\<open>bytes\<close> are readings
  of them, in the byte order of the machine (\<open>big\<close> as in \<open>Byte_Order\<close>). The two random words
  of \<^verbatim>\<open>generate\<close> are parameters. \<^verbatim>\<open>sscanf\<close> and \<^verbatim>\<open>snprintf\<close> are modelled for the conversions
  the code has: \<^verbatim>\<open>%08x\<close> reads at most eight characters (after white space, with an optional
  sign and \<^verbatim>\<open>0x\<close>, as \<^verbatim>\<open>strtoul\<close> does), a character of the format must be met, and the first
  failure ends the scan, the fields read before it keeping their values.
\<close>

type_synonym uuid = "u8 list"

section \<open>Fields\<close>

definition uuid_d0 :: "bool \<Rightarrow> uuid \<Rightarrow> u32" where
  "uuid_d0 big u = load big (take 4 u)"

definition uuid_d1 :: "bool \<Rightarrow> uuid \<Rightarrow> u16" where
  "uuid_d1 big u = load big (take 2 (drop 4 u))"

definition uuid_d2 :: "bool \<Rightarrow> uuid \<Rightarrow> u16" where
  "uuid_d2 big u = load big (take 2 (drop 6 u))"

definition uuid_d3 :: "uuid \<Rightarrow> u8 list" where
  "uuid_d3 u = drop 8 u"

text \<open>The address and the size of each field, in the order of the arguments of \<^verbatim>\<open>sscanf\<close>.\<close>

definition uuid_fields :: "(nat \<times> nat) list" where
  "uuid_fields = [(0, 4), (4, 2), (6, 2)] @ map (\<lambda>i. (8 + i, 1)) [0..<8]"

definition field_bytes :: "bool \<Rightarrow> nat \<Rightarrow> int \<Rightarrow> u8 list" where
  "field_bytes big sz v =
     (if sz = 4 then memory big (word_of_int v :: u32)
      else if sz = 2 then memory big (word_of_int v :: u16) else [word_of_int v])"

definition store_field :: "bool \<Rightarrow> (nat \<times> nat) \<times> int \<Rightarrow> uuid \<Rightarrow> uuid" where
  "store_field big f u =
     (case f of ((pos, sz), v) \<Rightarrow> take pos u @ field_bytes big sz v @ drop (pos + sz) u)"

section \<open>Operations\<close>

definition generate :: "bool \<Rightarrow> u64 \<Rightarrow> u64 \<Rightarrow> uuid" where
  "generate big r0 r1 =
     (let obj = memory big r0 @ memory big r1;
          obj = obj[8 := (obj ! 8 AND 0x3F) OR 0x80]
      in obj[7 := (obj ! 7 AND 0x0F) OR 0x40])"

datatype scan_item = Lit char | Hex nat

definition scan_hex :: "nat \<Rightarrow> string \<Rightarrow> (int \<times> string) option" where
  "scan_hex width s =
     (let s1 = dropWhile isspace s;
          item = take width s1;
          body = (case item of c # cs \<Rightarrow> if c = CHR ''-'' \<or> c = CHR ''+'' then cs else item | [] \<Rightarrow> [])
      in if (take 2 body = ''0x'' \<or> take 2 body = ''0X'') \<and> \<not> has_hex_prefix body then None
         else case strto 16 item of
           None \<Rightarrow> None
         | Some (neg, v, n) \<Rightarrow> Some (if neg then - int v else int v, drop n s1))"

fun sscanf :: "scan_item list \<Rightarrow> string \<Rightarrow> int list" where
  "sscanf [] s = []"
| "sscanf (Lit c # fmt) s = (case s of x # r \<Rightarrow> if x = c then sscanf fmt r else [] | [] \<Rightarrow> [])"
| "sscanf (Hex w # fmt) s = (case scan_hex w s of None \<Rightarrow> [] | Some (v, r) \<Rightarrow> v # sscanf fmt r)"

definition plain_format :: "scan_item list" where
  "plain_format =
     [Hex 8, Lit CHR ''-'', Hex 4, Lit CHR ''-'', Hex 4, Lit CHR ''-'', Hex 2, Hex 2, Lit CHR ''-'',
      Hex 2, Hex 2, Hex 2, Hex 2, Hex 2, Hex 2]"

definition braced_format :: "scan_item list" where
  "braced_format = [Lit (CHR ''{'')] @ plain_format @ [Lit (CHR ''}'')]"

definition uuid_assign :: "bool \<Rightarrow> string \<Rightarrow> uuid \<Rightarrow> uuid" where
  "uuid_assign big s u =
     (if length s = 38 then fold (store_field big) (zip uuid_fields (sscanf plain_format s)) u
      else if length s = 40 then fold (store_field big) (zip uuid_fields (sscanf braced_format s)) u
      else u)"

text \<open>\<^verbatim>\<open>%08X\<close> and its kin, and \<^verbatim>\<open>snprintf(buffer, 40, ...)\<close>, which keeps 39 characters.\<close>

definition print_padded :: "nat \<Rightarrow> nat \<Rightarrow> string" where
  "print_padded w n = (let s = print_hex_upper n in replicate (w - length s) (CHR ''0'') @ s)"

definition uuid_body :: "bool \<Rightarrow> uuid \<Rightarrow> string" where
  "uuid_body big u =
     (let p = (\<lambda>i. print_padded 2 (unat (uuid_d3 u ! i)))
      in print_padded 8 (unat (uuid_d0 big u)) @ ''-'' @ print_padded 4 (unat (uuid_d1 big u)) @ ''-'' @
         print_padded 4 (unat (uuid_d2 big u)) @ ''-'' @ p 0 @ p 1 @ ''-'' @
         p 2 @ p 3 @ p 4 @ p 5 @ p 6 @ p 7)"

definition uuid_to_string :: "bool \<Rightarrow> uuid \<Rightarrow> bool \<Rightarrow> string" where
  "uuid_to_string big u parcel =
     take 39 (if parcel then ''{'' @ uuid_body big u @ ''}'' else uuid_body big u)"

fun memcmp :: "u8 list \<Rightarrow> u8 list \<Rightarrow> int" where
  "memcmp (a # as) (b # bs) = (if a = b then memcmp as bs else if a < b then - 1 else 1)"
| "memcmp _ _ = 0"

definition uuid_eq :: "uuid \<Rightarrow> uuid \<Rightarrow> bool" where
  "uuid_eq u v \<longleftrightarrow> memcmp v u = 0"

definition uuid_neq :: "uuid \<Rightarrow> uuid \<Rightarrow> bool" where
  "uuid_neq u v \<longleftrightarrow> \<not> uuid_eq u v"

definition uuid_less :: "uuid \<Rightarrow> uuid \<Rightarrow> bool" where
  "uuid_less u v \<longleftrightarrow> memcmp u v < 0"

definition uuid_greater :: "uuid \<Rightarrow> uuid \<Rightarrow> bool" where
  "uuid_greater u v \<longleftrightarrow> memcmp u v > 0"

section \<open>Printed fields\<close>

abbreviation upper_hex :: "nat \<Rightarrow> char" where
  "upper_hex d \<equiv> toupper (digit_char d)"

fun hex_digits :: "nat \<Rightarrow> nat \<Rightarrow> string" where
  "hex_digits 0 n = []"
| "hex_digits (Suc w) n = hex_digits w (n div 16) @ [upper_hex (n mod 16)]"

lemma length_hex_digits [simp]: "length (hex_digits w n) = w"
  by (induction w n rule: hex_digits.induct) simp_all

lemma print_hex_upper_step:
  "print_hex_upper n = (if n < 16 then [upper_hex n] else print_hex_upper (n div 16) @ [upper_hex (n mod 16)])"
  by (simp add: print_hex_upper_def print_base.simps [of 16 n])

lemma zero_char: "upper_hex 0 = CHR ''0''"
  by code_simp

lemma hex_digits_0: "hex_digits w 0 = replicate w (CHR ''0'')"
  by (induction w) (simp_all add: zero_char replicate_append_same)

lemma print_padded_digits: "0 < w \<Longrightarrow> n < 16 ^ w \<Longrightarrow> print_padded w n = hex_digits w n"
proof (induction w arbitrary: n)
  case (Suc w)
  show ?case
  proof (cases "n < 16")
    case True
    then show ?thesis
      by (simp add: print_padded_def Let_def print_hex_upper_step [of n] hex_digits_0)
  next
    case False
    then have "0 < w" using Suc.prems(2) by (cases w) auto
    moreover have "n div 16 < 16 ^ w" using Suc.prems(2) by (simp add: less_mult_imp_div_less)
    ultimately have "print_padded w (n div 16) = hex_digits w (n div 16)" using Suc.IH by blast
    then show ?thesis using False
      by (simp add: print_padded_def Let_def print_hex_upper_step [of n])
  qed
qed simp

lemma hex_digits_head: "n < 16 ^ Suc w \<Longrightarrow> hex_digits (Suc w) n = upper_hex (n div 16 ^ w) # hex_digits w (n mod 16 ^ w)"
proof (induction w arbitrary: n)
  case (Suc w)
  have "n div 16 < 16 ^ Suc w" using Suc.prems by (simp add: less_mult_imp_div_less)
  moreover have e: "n mod 16 ^ Suc w = 16 * (n div 16 mod 16 ^ w) + n mod 16"
    using mod_mult2_eq [of n 16 "16 ^ w"] by simp
  have "n mod 16 ^ Suc w div 16 = n div 16 mod 16 ^ w" "n mod 16 ^ Suc w mod 16 = n mod 16"
    unfolding e by simp_all
  moreover have "n div 16 div 16 ^ w = n div 16 ^ Suc w"
    by (simp add: div_mult2_eq)
  ultimately show ?case using Suc.IH [of "n div 16"] by simp
qed simp

lemma hex_digits_base: "list_all (is_base_digit 16) (hex_digits w n)"
proof (induction w n rule: hex_digits.induct)
  case (2 w n)
  then show ?case using hex_chars [of "n mod 16"] by (simp add: is_base_digit_def)
qed simp

lemma hex_digits_value: "n < 16 ^ w \<Longrightarrow> digits_value 16 (hex_digits w n) = n"
proof (induction w arbitrary: n)
  case (Suc w)
  have "n div 16 < 16 ^ w" using Suc.prems by (simp add: less_mult_imp_div_less)
  moreover have "digit_value (upper_hex (n mod 16)) = n mod 16"
    using hex_chars(1) [of "n mod 16"] digit_value_char [of "n mod 16"] by simp
  ultimately show ?case using Suc.IH [of "n div 16"] by (simp add: digits_value_def)
qed (simp add: digits_value_def)

section \<open>Reading what was printed\<close>

lemma scan_hex_digits:
  assumes "0 < w" "n < 16 ^ w"
  shows "scan_hex w (hex_digits w n @ r) = Some (int n, r)"
proof -
  let ?ds = "hex_digits w n"
  obtain c cs where ds: "?ds = c # cs" using assms(1) by (cases ?ds) (auto dest: arg_cong [of _ _ length])
  have all: "list_all (is_base_digit 16) ?ds" by (rule hex_digits_base)
  then have c: "\<not> isspace c \<and> c \<noteq> CHR ''-'' \<and> c \<noteq> CHR ''+''"
    using base_digit_not_space_sign [of 16 c] ds by simp
  have w: "w = Suc (length cs)" using arg_cong [OF ds, of length] by simp
  have "is_base_digit 16 d" if "d \<in> set ?ds" for d using all that by (simp add: list_all_iff)
  moreover have "\<not> is_base_digit 16 (CHR ''x'')" "\<not> is_base_digit 16 (CHR ''X'')" by code_simp+
  ultimately have no: "take 2 ?ds \<noteq> ''0x''" "take 2 ?ds \<noteq> ''0X''"
    by (metis in_set_takeD list.set_intros(1) list.set_intros(2))+
  have "strto 16 ?ds = Some (False, digits_value 16 ?ds, length ?ds)"
    using strto_digits [OF _ all] hex_prefix_not_digits [OF all] ds by simp
  then have "scan_hex (Suc (length cs)) ((c # cs) @ r) = Some (int n, r)"
    using no c hex_digits_value [OF assms(2)] unfolding ds by (simp add: scan_hex_def Let_def)
  then show ?thesis unfolding ds using w by simp
qed

text \<open>What a format reads when each of its fields was printed with the width it asks for.\<close>

fun render :: "scan_item list \<Rightarrow> nat list \<Rightarrow> string" where
  "render [] vs = []"
| "render (Lit c # fmt) vs = c # render fmt vs"
| "render (Hex w # fmt) [] = []"
| "render (Hex w # fmt) (v # vs) = hex_digits w v @ render fmt vs"

fun fits :: "scan_item list \<Rightarrow> nat list \<Rightarrow> bool" where
  "fits [] vs \<longleftrightarrow> vs = []"
| "fits (Lit c # fmt) vs \<longleftrightarrow> fits fmt vs"
| "fits (Hex w # fmt) [] \<longleftrightarrow> False"
| "fits (Hex w # fmt) (v # vs) \<longleftrightarrow> 0 < w \<and> v < 16 ^ w \<and> fits fmt vs"

lemma sscanf_render: "fits fmt vs \<Longrightarrow> sscanf fmt (render fmt vs @ r) = map int vs"
  by (induction fmt vs rule: fits.induct) (simp_all add: scan_hex_digits)

lemma fits_Lit: "fits (fmt @ [Lit c]) vs \<longleftrightarrow> fits fmt vs"
  by (induction fmt vs rule: fits.induct) simp_all

lemma render_append: "fits fmt vs \<Longrightarrow> render (fmt @ fmt') vs = render fmt vs @ render fmt' []"
  by (induction fmt vs rule: fits.induct) simp_all

definition uuid_values :: "bool \<Rightarrow> uuid \<Rightarrow> nat list" where
  "uuid_values big u =
     [unat (uuid_d0 big u), unat (uuid_d1 big u), unat (uuid_d2 big u)] @ map unat (take 8 (uuid_d3 u))"

lemma sixteen:
  assumes "length u = (16 :: nat)"
  obtains a b c d e f g h i j k l m n p q where "u = [a, b, c, d, e, f, g, h, i, j, k, l, m, n, p, q]"
  using assms by (auto simp: numeral_eq_Suc length_Suc_conv)

lemma unat_bound: "unat (w :: 'a::len word) < 2 ^ LENGTH('a)"
  by (rule unsigned_less)

lemma u8_less: "unat (b :: u8) < 16\<^sup>2"
  using unat_bound [of b] by simp

lemma uuid_values_fit: "length u = 16 \<Longrightarrow> fits plain_format (uuid_values big u)"
  by (elim sixteen)
    (use unat_bound [of "uuid_d0 big u"] unat_bound [of "uuid_d1 big u"] unat_bound [of "uuid_d2 big u"] u8_less in
      \<open>simp add: plain_format_def uuid_values_def uuid_d3_def\<close>)

lemma uuid_body_render:
  assumes "length u = 16"
  shows "uuid_body big u = render plain_format (uuid_values big u)"
proof -
  have "print_padded 8 (unat (uuid_d0 big u)) = hex_digits 8 (unat (uuid_d0 big u))"
    "print_padded 4 (unat (uuid_d1 big u)) = hex_digits 4 (unat (uuid_d1 big u))"
    "print_padded 4 (unat (uuid_d2 big u)) = hex_digits 4 (unat (uuid_d2 big u))"
    using unat_bound [of "uuid_d0 big u"] unat_bound [of "uuid_d1 big u"] unat_bound [of "uuid_d2 big u"]
    by (simp_all add: print_padded_digits)
  moreover have "print_padded 2 (unat b) = hex_digits 2 (unat b)" for b :: u8
    using u8_less [of b] by (simp add: print_padded_digits)
  ultimately show ?thesis
    using assms by (elim sixteen) (simp add: uuid_body_def Let_def plain_format_def uuid_values_def uuid_d3_def)
qed

lemma length_uuid_body: "length u = 16 \<Longrightarrow> length (uuid_body big u) = 36"
  by (elim sixteen) (simp add: uuid_body_render, simp add: plain_format_def uuid_values_def uuid_d3_def)

lemma store_all:
  assumes "length u = 16" "length v = 16"
  shows "fold (store_field big) (zip uuid_fields (map int (uuid_values big u))) v = u"
proof -
  have "memory big (uuid_d0 big u) = take 4 u" "memory big (uuid_d1 big u) = take 2 (drop 4 u)"
    "memory big (uuid_d2 big u) = take 2 (drop 6 u)"
    using assms(1) by (simp_all add: uuid_d0_def uuid_d1_def uuid_d2_def)
  then show ?thesis
    using assms by (elim sixteen)
      (simp add: uuid_values_def uuid_fields_def store_field_def field_bytes_def uuid_d3_def upt_rec word_of_int_uint)
qed

section \<open>Generated identifiers\<close>

text \<open>
  The text of an identifier of version 4: groups of 8, 4, 4, 4 and 12 upper case digits, the
  third beginning with the version and the fourth with the variant.
\<close>

definition upper_digit :: "char \<Rightarrow> bool" where
  "upper_digit c \<longleftrightarrow> c \<in> set ''0123456789ABCDEF''"

definition version4_text :: "string \<Rightarrow> bool" where
  "version4_text s \<longleftrightarrow> length s = 36 \<and>
     list_all (\<lambda>(i, c).
       if i \<in> {8, 13, 18, 23} then c = CHR ''-''
       else if i = 14 then c = CHR ''4''
       else if i = 19 then c \<in> {CHR ''8'', CHR ''9'', CHR ''A'', CHR ''B''}
       else upper_digit c) (zip [0..<length s] s)"

lemma upper_hex_digit: "d < 16 \<Longrightarrow> upper_digit (upper_hex d)"
proof -
  have "list_all (\<lambda>d. upper_digit (upper_hex d)) [0..<16]" by code_simp
  then show "d < 16 \<Longrightarrow> upper_digit (upper_hex d)" by (simp add: list_all_iff)
qed

lemma hex_digits_upper: "list_all upper_digit (hex_digits w n)"
proof (induction w n rule: hex_digits.induct)
  case (2 w n)
  then show ?case using upper_hex_digit [of "n mod 16"] by simp
qed simp

lemma length_generate [simp]: "length (generate big r0 r1) = 16"
  by (simp add: generate_def Let_def)

lemma small_byte:
  assumes "unat (x :: u8) < 4"
  shows "x \<in> {0, 1, 2, 3}"
proof -
  have "unat x = 0 \<or> unat x = 1 \<or> unat x = 2 \<or> unat x = 3" using assms by linarith
  then show ?thesis by (simp add: word_unat_eq_iff)
qed

lemma variant_byte: "unat (drop_bit 4 ((b :: u8) AND 0x3F OR 0x80)) \<in> {8, 9, 10, 11}"
proof -
  let ?x = "drop_bit 4 b AND 3"
  have "?x = take_bit 2 (drop_bit 4 b)" by (simp add: take_bit_eq_mask mask_eq_exp_minus_1)
  then have "unat ?x < 4" using take_bit_nat_less_exp [of 2 "unat (drop_bit 4 b)"] by (simp add: unsigned_take_bit_eq)
  then have "?x \<in> {0, 1, 2, 3}" by (rule small_byte)
  moreover have "drop_bit 4 (0x3F :: u8) = 3" "drop_bit 4 (0x80 :: u8) = 8" by (simp_all add: drop_bit_eq_div)
  then have "drop_bit 4 (b AND 0x3F OR 0x80) = ?x OR 8" by (simp only: drop_bit_or drop_bit_and)
  ultimately show ?thesis by auto
qed

lemma version_byte: "drop_bit 4 ((b :: u8) AND 0x0F OR 0x40) = 4"
proof -
  have "drop_bit 4 (0x0F :: u8) = 0" "drop_bit 4 (0x40 :: u8) = 4" by (simp_all add: drop_bit_eq_div)
  then show ?thesis by (simp only: drop_bit_or drop_bit_and) simp
qed

lemma top_nibble: "unat (le_word [a, b] :: u16) div 16 ^ 3 = unat (drop_bit 4 b)"
proof -
  have "drop_bit 12 (le_word [a, b] :: u16) = ucast (drop_bit 4 b)"
  proof (rule bit_word_eqI)
    fix n assume "n < LENGTH(16)"
    show "bit (drop_bit 12 (le_word [a, b] :: u16)) n \<longleftrightarrow> bit (ucast (drop_bit 4 b) :: u16) n"
    proof (cases "n < 4")
      case True
      then have "(12 + n) div 8 = 1" "(12 + n) mod 8 = 4 + n" by presburger+
      then show ?thesis using True by (simp add: bit_le_word bit_simps del: le_word.simps)
    next
      case False
      then show ?thesis using bit_imp_le_length [of b "4 + n"]
        by (auto simp: bit_le_word bit_simps simp del: le_word.simps)
    qed
  qed
  then have "unat (drop_bit 12 (le_word [a, b] :: u16)) = unat (drop_bit 4 b)"
    using unat_bound [of "drop_bit 4 b"] by (simp add: unsigned_ucast_eq take_bit_eq_mod)
  then show ?thesis by (simp only: unat_drop_bit_eq) (simp add: drop_bit_eq_div del: le_word.simps)
qed

lemma three_of: "length xs = 3 \<Longrightarrow> list_all P xs \<Longrightarrow> \<exists>a b c. xs = [a, b, c] \<and> list_all P [a, b, c]"
  by (auto simp: numeral_eq_Suc length_Suc_conv)

lemma four_of: "length xs = 4 \<Longrightarrow> list_all P xs \<Longrightarrow> \<exists>a b c d. xs = [a, b, c, d] \<and> list_all P [a, b, c, d]"
  by (auto simp: numeral_eq_Suc length_Suc_conv)

lemma eight_of:
  "length xs = 8 \<Longrightarrow> list_all P xs \<Longrightarrow>
   \<exists>a b c d e f g h. xs = [a, b, c, d, e, f, g, h] \<and> list_all P [a, b, c, d, e, f, g, h]"
  by (auto simp: numeral_eq_Suc length_Suc_conv)

lemma hex_digits_2: "hex_digits 2 n = [upper_hex (n div 16 mod 16), upper_hex (n mod 16)]"
  by (simp add: numeral_2_eq_2)

lemma version_digits:
  obtains a b c where "hex_digits 4 (unat (le_word [x, (y AND 0x0F) OR 0x40] :: u16)) = [CHR ''4'', a, b, c]"
    "list_all upper_digit [a, b, c]"
proof -
  let ?n = "unat (le_word [x, (y AND 0x0F) OR 0x40] :: u16)"
  have "?n < 16 ^ Suc 3" using unat_bound [of "le_word [x, (y AND 0x0F) OR 0x40] :: u16"] by simp
  moreover have "?n div 16 ^ 3 = 4" unfolding top_nibble version_byte by simp
  moreover have "upper_hex 4 = CHR ''4''" by code_simp
  ultimately have "hex_digits (Suc 3) ?n = CHR ''4'' # hex_digits 3 (?n mod 16 ^ 3)"
    using hex_digits_head [of ?n 3] by presburger
  moreover obtain a b c where "hex_digits 3 (?n mod 16 ^ 3) = [a, b, c]" "list_all upper_digit [a, b, c]"
    using three_of [OF length_hex_digits hex_digits_upper] by blast
  ultimately show ?thesis using that by simp
qed

lemma variant_char: "k \<in> {8, 9, 10, 11} \<Longrightarrow> upper_hex k \<in> {CHR ''8'', CHR ''9'', CHR ''A'', CHR ''B''}"
proof -
  have "upper_hex 8 = CHR ''8''" "upper_hex 9 = CHR ''9''" "upper_hex 10 = CHR ''A''" "upper_hex 11 = CHR ''B''"
    by code_simp+
  then show "k \<in> {8, 9, 10, 11} \<Longrightarrow> upper_hex k \<in> {CHR ''8'', CHR ''9'', CHR ''A'', CHR ''B''}"
    by (elim insertE; blast)
qed

lemma variant_digit:
  "upper_hex (unat ((y :: u8) AND 0x3F OR 0x80) div 16 mod 16) \<in> {CHR ''8'', CHR ''9'', CHR ''A'', CHR ''B''}"
proof -
  have "unat (y AND 0x3F OR 0x80) div 16 = unat (drop_bit 4 (y AND 0x3F OR 0x80))"
    by (simp only: unat_drop_bit_eq) (simp add: drop_bit_eq_div)
  then have "unat (y AND 0x3F OR 0x80) div 16 \<in> {8, 9, 10, 11}" using variant_byte [of y] by (simp only:)
  then have "unat (y AND 0x3F OR 0x80) div 16 mod 16 \<in> {8, 9, 10, 11}" by fastforce
  then show ?thesis by (rule variant_char)
qed

lemma generate_False:
  obtains a b c d e f g h i j k l m n p q where
    "generate False r0 r1 = [a, b, c, d, e, f, g, (h AND 0x0F) OR 0x40, (i AND 0x3F) OR 0x80, j, k, l, m, n, p, q]"
proof -
  have "length (memory False r0 @ memory False r1) = 16" by simp
  then show ?thesis using that
    by (elim sixteen) (simp add: generate_def Let_def)
qed

section \<open>Order\<close>

lemma memcmp_refl [simp]: "memcmp u u = 0"
  by (induction u) simp_all

lemma memcmp_eq: "length u = length v \<Longrightarrow> memcmp u v = 0 \<longleftrightarrow> u = v"
  by (induction u v rule: memcmp.induct) auto

lemma memcmp_swap: "memcmp u v = - memcmp v u"
  by (induction u v rule: memcmp.induct) auto

lemma memcmp_trans:
  "length u = length v \<Longrightarrow> length v = length w \<Longrightarrow> memcmp u v < 0 \<Longrightarrow> memcmp v w < 0 \<Longrightarrow> memcmp u w < 0"
proof (induction u v arbitrary: w rule: memcmp.induct)
  case (1 a as b bs)
  then show ?case by (cases w) (auto split: if_splits)
qed auto

lemma uuid_read:
  assumes "length u = 16" "length v = 16" "length tail2 = 2"
  shows "uuid_assign big (uuid_to_string big u False @ tail2) v = u"
    "uuid_assign big (uuid_to_string big u True @ tail2) v = u"
proof -
  note fit = uuid_values_fit [OF assms(1), of big] and body = uuid_body_render [OF assms(1), of big]
    and len = length_uuid_body [OF assms(1), of big] and all = store_all [OF assms(1,2), of big]
  have "sscanf plain_format (uuid_body big u @ tail2) = map int (uuid_values big u)"
    unfolding body by (rule sscanf_render [OF fit])
  then show "uuid_assign big (uuid_to_string big u False @ tail2) v = u"
    using len assms(3) all by (simp add: uuid_assign_def uuid_to_string_def)
  have "fits braced_format (uuid_values big u)"
    using fit by (simp add: braced_format_def fits_Lit)
  moreover have "render braced_format (uuid_values big u) = ''{'' @ uuid_body big u @ ''}''"
    using render_append [OF fit, of "[Lit (CHR ''}'')]"] by (simp add: braced_format_def body)
  ultimately have "sscanf braced_format (''{'' @ uuid_body big u @ ''}'' @ tail2) = map int (uuid_values big u)"
    using sscanf_render [of braced_format "uuid_values big u" tail2] by simp
  then show "uuid_assign big (uuid_to_string big u True @ tail2) v = u"
    using len assms(3) all by (simp add: uuid_assign_def uuid_to_string_def)
qed

lemma uuid_own_text:
  assumes "length u = 16"
  shows "uuid_assign big (uuid_to_string big u parcel) v = v"
proof -
  have brace: "\<not> isspace (CHR ''{'')" "\<not> is_base_digit 16 (CHR ''{'')" by code_simp+
  moreover have "\<not> has_hex_prefix (CHR ''{'' # cs)" for cs
    by (simp add: has_hex_prefix_def split: list.split)
  ultimately have "strto 16 (CHR ''{'' # cs) = None" for cs by (simp add: strto_def Let_def)
  with brace show ?thesis
  using length_uuid_body [OF assms, of big] by (simp add: uuid_assign_def uuid_to_string_def plain_format_def scan_hex_def)
qed


lemma generated_version4: "version4_text (uuid_to_string False (generate False r0 r1) False)"
proof -
  obtain a b c d e f g h i j k l m n p q where
    u: "generate False r0 r1 = [a, b, c, d, e, f, g, (h AND 0x0F) OR 0x40, (i AND 0x3F) OR 0x80, j, k, l, m, n, p, q]"
    by (rule generate_False)
  note digits = length_hex_digits hex_digits_upper
  have d2: "uuid_d2 False (generate False r0 r1) = le_word [g, (h AND 0x0F) OR 0x40]"
    by (simp add: u uuid_d2_def load_def del: le_word.simps)
  obtain x1 x2 x3 x4 x5 x6 x7 x8 where x: "hex_digits 8 (unat (uuid_d0 False (generate False r0 r1))) = [x1, x2, x3, x4, x5, x6, x7, x8]"
    "list_all upper_digit [x1, x2, x3, x4, x5, x6, x7, x8]" using eight_of [OF digits] by blast
  obtain y1 y2 y3 y4 where y: "hex_digits 4 (unat (uuid_d1 False (generate False r0 r1))) = [y1, y2, y3, y4]"
    "list_all upper_digit [y1, y2, y3, y4]" using four_of [OF digits] by blast
  obtain z1 z2 z3 where z: "hex_digits 4 (unat (uuid_d2 False (generate False r0 r1))) = [CHR ''4'', z1, z2, z3]"
    "list_all upper_digit [z1, z2, z3]"
    unfolding d2 by (rule version_digits [where x = g and y = h])
  let ?a = "\<lambda>b. upper_hex (unat b div 16 mod 16)" and ?b = "\<lambda>b. upper_hex (unat b mod 16)"
  note pieces = x y z variant_digit [of i] hex_digits_2 upper_hex_digit
  have "uuid_to_string False (generate False r0 r1) False = render plain_format (uuid_values False (generate False r0 r1))"
    by (simp add: uuid_to_string_def length_uuid_body flip: uuid_body_render)
  moreover have "uuid_d3 (generate False r0 r1) = [(i AND 0x3F) OR 0x80, j, k, l, m, n, p, q]"
    by (simp add: u uuid_d3_def)
  ultimately have "uuid_to_string False (generate False r0 r1) False =
      [x1, x2, x3, x4, x5, x6, x7, x8, CHR ''-'', y1, y2, y3, y4, CHR ''-'', CHR ''4'', z1, z2, z3, CHR ''-'',
       ?a ((i AND 0x3F) OR 0x80), ?b ((i AND 0x3F) OR 0x80), ?a j, ?b j, CHR ''-'', ?a k, ?b k, ?a l, ?b l, ?a m, ?b m, ?a n, ?b n, ?a p, ?b p, ?a q, ?b q]"
      (is "_ = ?t") by (simp add: pieces plain_format_def uuid_values_def)
  moreover have "[0..<length ?t] = [0, 1, 2, 3, 4, 5, 6, 7, 8, 9, 10, 11, 12, 13, 14, 15, 16, 17, 18, 19, 20, 21,
      22, 23, 24, 25, 26, 27, 28, 29, 30, 31, 32, 33, 34, 35]" by (simp add: upt_rec)
  ultimately show ?thesis using x y z variant_digit [of i] by (simp add: upper_hex_digit version4_text_def)
qed

section \<open>Properties\<close>

text \<open>
  Reading what was printed: the text of an identifier, with or without braces, followed by
  any two characters is read back as the identifier, in either byte order; the text itself,
  which has 36 or 38 characters where \<^verbatim>\<open>operator=\<close> tests for 38 and 40, changes nothing.
\<close>

theorem uuid_text_read:
  assumes "length u = 16" "length v = 16" "length rest = 2"
  shows "uuid_assign big (uuid_to_string big u parcel @ rest) v = u \<and>
    uuid_assign big (uuid_to_string big u parcel) v = v"
  using uuid_read [OF assms, of big] uuid_own_text [OF assms(1), of big parcel v] by (cases parcel) auto

theorem uuid_text_read_witness:
  "uuid_assign False (uuid_to_string False (replicate 16 7) True) (replicate 16 0) = replicate 16 0"
  using uuid_text_read [of "replicate 16 7" "replicate 16 0" "''  ''" False True] by simp

text \<open>
  Every generated identifier, whatever the random words, is printed as one of version 4 by
  a little endian machine.
\<close>

theorem uuid_version4: "version4_text (uuid_to_string False (generate False r0 r1) False)"
  by (rule generated_version4)

text \<open>
  The comparisons form a strict linear order with the identifiers that compare equal being
  the identical ones.
\<close>

theorem uuid_order:
  assumes "length u = 16" "length v = 16" "length w = 16"
  shows "(uuid_eq u v \<longleftrightarrow> u = v) \<and> (uuid_neq u v \<longleftrightarrow> uuid_less u v \<or> uuid_less v u) \<and>
    (uuid_greater u v \<longleftrightarrow> uuid_less v u) \<and> \<not> (uuid_less u v \<and> uuid_less v u) \<and>
    (uuid_less u v \<and> uuid_less v w \<longrightarrow> uuid_less u w)"
  using memcmp_eq [of v u] memcmp_swap [of u v] memcmp_trans [of u v w] assms
  by (auto simp: uuid_eq_def uuid_neq_def uuid_less_def uuid_greater_def)

theorem uuid_order_witness: "uuid_less (replicate 16 1) (2 # replicate 15 0) \<longleftrightarrow> uuid_greater (2 # replicate 15 0) (replicate 16 1)"
  using uuid_order [of "2 # replicate 15 0" "replicate 16 1" "replicate 16 1"] by simp

text \<open>On a big endian machine the version is written into the low byte of the third group.\<close>

lemma version_big_endian:
  "uuid_to_string True (generate True 0 0) False = ''00000000-0000-0040-8000-000000000000''"
  by code_simp

end
