(* ===== verification/Value.thy ===== *)
theory Value
  imports Numbers
begin

text \<open>
  The class \<^verbatim>\<open>value\<close> (\<^verbatim>\<open>libgs/core/detail/value.h\<close>), a string with conversions, and the
  conversion \<^verbatim>\<open>ston<T>\<close> that chooses a function by the type (\<^verbatim>\<open>algorithm/detail/base.h\<close>).
  A member declared \<^verbatim>\<open>noexcept\<close> has an outcome: it returns, or an exception leaves it and
  the program is terminated. Values are set from strings, integers and truth values; other
  arguments go through \<^verbatim>\<open>std::format\<close> and are not modelled, nor are the floating point
  conversions.
\<close>

section \<open>Conversion by type\<close>

text \<open>The integral types; \<^verbatim>\<open>int8_t\<close> is \<open>Schar_t\<close>, the 64-bit ones are \<open>Long_t\<close> and \<open>Ulong_t\<close>.\<close>

datatype int_type =
  Bool_t | Char_t | Schar_t | Uchar_t | Short_t | Ushort_t | Int_t | Uint_t | Long_t | Ulong_t | Llong_t | Ullong_t

definition ston :: "stold_fn \<Rightarrow> int_type \<Rightarrow> string \<Rightarrow> nat \<Rightarrow> int option \<Rightarrow> int res" where
  "ston stold T str base odv =
     (case T of
        Bool_t \<Rightarrow> res_bind (stob stold str base None) (\<lambda>b. Inr (if b then 1 else 0))
      | Char_t \<Rightarrow> sto_s stold 8 str base odv
      | Schar_t \<Rightarrow> try_stobtot str odv
      | Uchar_t \<Rightarrow> sto_u stold 8 str base odv
      | Short_t \<Rightarrow> sto_s stold 16 str base odv
      | Ushort_t \<Rightarrow> sto_u stold 16 str base odv
      | Int_t \<Rightarrow> sto_s stold 32 str base odv
      | Uint_t \<Rightarrow> sto_u stold 32 str base odv
      | Long_t \<Rightarrow> sto_s stold 64 str base odv
      | Ulong_t \<Rightarrow> sto_u stold 64 str base odv
      | Llong_t \<Rightarrow> sto_s stold 64 str base odv
      | Ullong_t \<Rightarrow> sto_u stold 64 str base odv)"

datatype 'a outcome = Returns 'a | Terminates

definition no_except :: "'a res \<Rightarrow> 'a outcome" where
  "no_except r = (case r of Inl e \<Rightarrow> Terminates | Inr v \<Rightarrow> Returns v)"

definition ston_or :: "stold_fn \<Rightarrow> int_type \<Rightarrow> string \<Rightarrow> nat \<Rightarrow> int \<Rightarrow> int outcome" where
  "ston_or stold T str base d = no_except (ston stold T str base (Some d))"

section \<open>The class\<close>

record cxx_value =
  m_str :: string

datatype value_arg = Text_arg string | Int_arg int | Bool_arg bool

definition format_arg :: "value_arg \<Rightarrow> string" where
  "format_arg arg =
     (case arg of
        Text_arg s \<Rightarrow> s
      | Int_arg n \<Rightarrow> (if n < 0 then CHR ''-'' # to_string (nat (- n)) else to_string (nat n))
      | Bool_arg b \<Rightarrow> if b then ''true'' else ''false'')"

definition set_value :: "value_arg \<Rightarrow> cxx_value \<Rightarrow> cxx_value" where
  "set_value arg v = v\<lparr>m_str := format_arg arg\<rparr>"

definition new_value :: "value_arg \<Rightarrow> cxx_value" where
  "new_value arg = set_value arg \<lparr>m_str = []\<rparr>"

definition value_get :: "stold_fn \<Rightarrow> int_type \<Rightarrow> cxx_value \<Rightarrow> nat \<Rightarrow> int res" where
  "value_get stold T v base = ston stold T (m_str v) base None"

definition value_get_or :: "stold_fn \<Rightarrow> int_type \<Rightarrow> cxx_value \<Rightarrow> nat \<Rightarrow> int \<Rightarrow> int outcome" where
  "value_get_or stold T v base d = ston_or stold T (m_str v) base d"

definition to_bool :: "stold_fn \<Rightarrow> cxx_value \<Rightarrow> nat \<Rightarrow> int outcome" where
  "to_bool stold v base = value_get_or stold Bool_t v base 0"

definition to_int :: "stold_fn \<Rightarrow> cxx_value \<Rightarrow> nat \<Rightarrow> int res" where
  "to_int stold v base = value_get stold Int_t v base"

definition to_uint :: "stold_fn \<Rightarrow> cxx_value \<Rightarrow> nat \<Rightarrow> int res" where
  "to_uint stold v base = value_get stold Uint_t v base"

definition to_long :: "stold_fn \<Rightarrow> cxx_value \<Rightarrow> nat \<Rightarrow> int res" where
  "to_long stold v base = value_get stold Long_t v base"

definition to_ulong :: "stold_fn \<Rightarrow> cxx_value \<Rightarrow> nat \<Rightarrow> int res" where
  "to_ulong stold v base = value_get stold Ulong_t v base"

definition to_bool_or :: "stold_fn \<Rightarrow> cxx_value \<Rightarrow> nat \<Rightarrow> int \<Rightarrow> int outcome" where
  "to_bool_or stold v base d = value_get_or stold Bool_t v base d"

definition to_int_or :: "stold_fn \<Rightarrow> cxx_value \<Rightarrow> nat \<Rightarrow> int \<Rightarrow> int outcome" where
  "to_int_or stold v base d = value_get_or stold Int_t v base d"

definition to_uint_or :: "stold_fn \<Rightarrow> cxx_value \<Rightarrow> nat \<Rightarrow> int \<Rightarrow> int outcome" where
  "to_uint_or stold v base d = value_get_or stold Uint_t v base d"

definition to_long_or :: "stold_fn \<Rightarrow> cxx_value \<Rightarrow> nat \<Rightarrow> int \<Rightarrow> int outcome" where
  "to_long_or stold v base d = value_get_or stold Long_t v base d"

definition to_ulong_or :: "stold_fn \<Rightarrow> cxx_value \<Rightarrow> nat \<Rightarrow> int \<Rightarrow> int outcome" where
  "to_ulong_or stold v base d = value_get_or stold Ulong_t v base d"

definition value_is_alpha :: "cxx_value \<Rightarrow> bool" where "value_is_alpha v = is_alpha (m_str v)"
definition value_is_digit :: "cxx_value \<Rightarrow> bool" where "value_is_digit v = is_digit (m_str v)"
definition value_is_rlnum :: "cxx_value \<Rightarrow> bool" where "value_is_rlnum v = is_rlnum (m_str v)"
definition value_is_alnum :: "cxx_value \<Rightarrow> bool" where "value_is_alnum v = is_alnum (m_str v)"
definition value_is_ascii :: "cxx_value \<Rightarrow> bool" where "value_is_ascii v = is_ascii (m_str v)"

text \<open>\<^verbatim>\<open><=>\<close> as a sign, and \<^verbatim>\<open>==\<close>; strings compare by their bytes.\<close>

definition value_compare :: "cxx_value \<Rightarrow> string \<Rightarrow> int" where
  "value_compare v s = (if m_str v < s then - 1 else if m_str v = s then 0 else 1)"

definition value_eq :: "cxx_value \<Rightarrow> string \<Rightarrow> bool" where
  "value_eq v s \<longleftrightarrow> m_str v = s"

section \<open>Lemmas\<close>

lemma strto_negative:
  assumes "ds \<noteq> []" "list_all (is_base_digit base) ds" "base \<le> 36" "2 \<le> base"
  shows "strto base (CHR ''-'' # ds) = Some (True, digits_value base ds, Suc (length ds))"
proof -
  have "\<not> isspace (CHR ''-'')" by code_simp
  moreover have "takeWhile (is_base_digit base) ds = ds" using assms(2) by (auto simp: list_all_iff)
  moreover have "base = 16 \<longrightarrow> \<not> has_hex_prefix ds" using hex_prefix_not_digits [of ds] assms(2) by blast
  ultimately show ?thesis using assms(1,4) by (auto simp: strto_def Let_def simp del: takeWhile_eq_all_conv)
qed

lemma decimal: "to_string n \<noteq> []" "list_all (is_base_digit 10) (to_string n)" "digits_value 10 (to_string n) = n"
  using print_base_digits [of 10 n] by (simp_all add: to_string_def)

lemma strto_decimal: "strto 10 (to_string n) = Some (False, n, length (to_string n))"
  using strto_digits [OF decimal(1,2), of n] by (simp add: decimal(3))

lemma stol_format:
  assumes "- (2 ^ 63) \<le> n" "n < 2 ^ 63"
  shows "stol 10 (format_arg (Int_arg n)) = Inr (n, length (format_arg (Int_arg n)))"
  using assms strto_negative [OF decimal(1,2) _ _, of "nat (- n)"] strto_decimal [of "nat n"]
  by (simp add: format_arg_def stol_def decimal(3) nat_less_iff nat_le_iff)

lemma cast_s_id: "0 < w \<Longrightarrow> - (2 ^ (w - 1)) \<le> n \<Longrightarrow> n < 2 ^ (w - 1) \<Longrightarrow> cast_s w n = n"
proof -
  assume w: "0 < w" "- (2 ^ (w - 1)) \<le> n" "n < 2 ^ (w - 1)"
  have "(2 :: int) ^ w = 2 ^ (w - 1) + 2 ^ (w - 1)" using w(1) by (cases w) simp_all
  then have "(n + 2 ^ (w - 1)) mod 2 ^ w = n + 2 ^ (w - 1)" using w by (intro mod_pos_pos_trivial) linarith+
  then show "cast_s w n = n" by (simp add: cast_s_def)
qed

lemma stob_word_head: "tolower c \<noteq> CHR ''t'' \<Longrightarrow> tolower c \<noteq> CHR ''f'' \<Longrightarrow> stob_word (c # s) = - 1"
  by (simp add: stob_word_def strcasecmp_eq_def str_to_lower_def Let_def tolower_def isupper_def schar_def uchar_def)

lemma stob_word_number: "stob_word (format_arg (Int_arg n)) = - 1"
proof -
  have digit: "stob_word (to_string k) = - 1" for k
  proof -
    obtain c cs where s: "to_string k = c # cs" using decimal(1) [of k] by (cases "to_string k") auto
    then have "isdigit c" using decimal(2) [of k]
      by (auto simp: is_base_digit_def digit_value_def split: if_splits)
    then have "tolower c = c" "c \<noteq> CHR ''t''" "c \<noteq> CHR ''f''"
      by (auto simp: tolower_def isupper_def isdigit_def schar_def uchar_def)
    then show ?thesis by (simp add: s stob_word_head)
  qed
  have "tolower (CHR ''-'') = CHR ''-''" by code_simp
  then show ?thesis by (simp add: format_arg_def digit stob_word_head)
qed

lemma sto_s_format:
  assumes "- (2 ^ 63) \<le> n" "n < 2 ^ 63"
  shows "sto_s stold w (format_arg (Int_arg n)) 10 odv = Inr (cast_s w n)"
  using stol_format [OF assms] by (simp add: sto_s_def sto_int_def)

lemma sto_u_format:
  assumes "0 \<le> n" "n < 2 ^ 64"
  shows "sto_u stold w (format_arg (Int_arg n)) 10 odv = Inr (cast_u w n)"
  using assms sto_u_print [of 10 "nat n" stold w odv]
  by (simp add: format_arg_def to_string_def cast_u_def)

lemma stob_text:
  "stob stold ''true'' base odv = Inr True" "stob stold ''false'' base odv = Inr False"
proof -
  have "stob_word ''true'' = 1" "stob_word ''false'' = 0" by code_simp+
  then show "stob stold ''true'' base odv = Inr True" "stob stold ''false'' base odv = Inr False"
    by (simp_all add: stob_def)
qed

section \<open>Properties\<close>

text \<open>C30.
  A value set from a number in the range of a type reads as that number, with and without
  a default, and one set from a truth value as that truth value.
\<close>

theorem value_roundtrip:
  shows "(- (2 ^ 63) \<le> n \<and> n < 2 ^ 63 \<longrightarrow> to_long stold (new_value (Int_arg n)) 10 = Inr n \<and>
      to_long_or stold (new_value (Int_arg n)) 10 d = Returns n) \<and>
    (- (2 ^ 31) \<le> n \<and> n < 2 ^ 31 \<longrightarrow> to_int stold (new_value (Int_arg n)) 10 = Inr n \<and>
      to_int_or stold (new_value (Int_arg n)) 10 d = Returns n) \<and>
    (0 \<le> n \<and> n < 2 ^ 64 \<longrightarrow> to_ulong stold (new_value (Int_arg n)) 10 = Inr n \<and>
      to_ulong_or stold (new_value (Int_arg n)) 10 d = Returns n) \<and>
    (0 \<le> n \<and> n < 2 ^ 32 \<longrightarrow> to_uint stold (new_value (Int_arg n)) 10 = Inr n \<and>
      to_uint_or stold (new_value (Int_arg n)) 10 d = Returns n) \<and>
    to_bool stold (new_value (Bool_arg b)) base = Returns (if b then 1 else 0)"
proof -
  note defs = new_value_def set_value_def to_long_def to_long_or_def to_int_def to_int_or_def to_ulong_def
    to_ulong_or_def to_uint_def to_uint_or_def value_get_def value_get_or_def ston_or_def ston_def no_except_def
  have "to_bool stold (new_value (Bool_arg b)) base = Returns (if b then 1 else 0)"
    by (simp add: to_bool_def defs format_arg_def stob_text res_bind_def)
  moreover have "sto_s stold 64 (format_arg (Int_arg n)) 10 odv = Inr n" if "- (2 ^ 63) \<le> n" "n < 2 ^ 63" for odv
    using sto_s_format [OF that] cast_s_id [of 64 n] that by simp
  moreover have "sto_s stold 32 (format_arg (Int_arg n)) 10 odv = Inr n" if "- (2 ^ 31) \<le> n" "n < 2 ^ 31" for odv
    using sto_s_format [of n] cast_s_id [of 32 n] that by simp
  moreover have "sto_u stold 64 (format_arg (Int_arg n)) 10 odv = Inr n" if "0 \<le> n" "n < 2 ^ 64" for odv
    using sto_u_format [OF that] that by (simp add: cast_u_def)
  moreover have "sto_u stold 32 (format_arg (Int_arg n)) 10 odv = Inr n" if "0 \<le> n" "n < 2 ^ 32" for odv
    using sto_u_format [of n] that by (simp add: cast_u_def)
  ultimately show ?thesis by (simp add: defs)
qed

theorem value_roundtrip_witness:
  "to_int (\<lambda>s. Inl Invalid_argument) (new_value (Int_arg (- 5))) 10 = Inr (- 5) \<and>
   to_bool (\<lambda>s. Inl Invalid_argument) (new_value (Bool_arg True)) 10 = Returns 1"
  using value_roundtrip [of "- 5" "\<lambda>s. Inl Invalid_argument" 0 True 10] by simp

text \<open>
  The text of a number in a base, and what the language makes of a number in a type: the type's
  width, its sign, and which numbers \<^verbatim>\<open>strtol\<close> and \<^verbatim>\<open>strtoul\<close> take.
\<close>

definition signed_text :: "nat \<Rightarrow> int \<Rightarrow> string" where
  "signed_text base n = (if n < 0 then CHR ''-'' # print_base base (nat (- n)) else print_base base (nat n))"

fun type_bits :: "int_type \<Rightarrow> nat" where
  "type_bits Bool_t = 1" | "type_bits Char_t = 8" | "type_bits Schar_t = 8" | "type_bits Uchar_t = 8"
| "type_bits Short_t = 16" | "type_bits Ushort_t = 16" | "type_bits Int_t = 32" | "type_bits Uint_t = 32"
| "type_bits Long_t = 64" | "type_bits Ulong_t = 64" | "type_bits Llong_t = 64" | "type_bits Ullong_t = 64"

definition type_signed :: "int_type \<Rightarrow> bool" where
  "type_signed T \<longleftrightarrow> T \<in> {Char_t, Schar_t, Short_t, Int_t, Long_t, Llong_t}"

definition reduced :: "int_type \<Rightarrow> int \<Rightarrow> int" where
  "reduced T n = (if type_signed T then signed_take_bit (type_bits T - 1) n else take_bit (type_bits T) n)"

definition readable :: "int_type \<Rightarrow> int \<Rightarrow> bool" where
  "readable T n \<longleftrightarrow> (if type_signed T then - (2 ^ 63) \<le> n \<and> n < 2 ^ 63 else \<bar>n\<bar> < 2 ^ 64)"

lemma signed_text_decimal: "format_arg (Int_arg n) = signed_text 10 n"
  by (simp add: format_arg_def signed_text_def to_string_def)

lemma strto_signed:
  assumes "2 \<le> base" "base \<le> 36"
  shows "strto base (signed_text base n) = Some (n < 0, nat \<bar>n\<bar>, length (signed_text base n))"
  using strto_negative [of "print_base base (nat (- n))" base] strto_digits [of "print_base base (nat n)" base]
    print_base_digits [OF assms, of "nat (- n)"] print_base_digits [OF assms, of "nat n"] hex_prefix_not_digits assms
  by (auto simp: signed_text_def)

lemma digits_value_less: "list_all (is_base_digit base) ds \<Longrightarrow> 0 < base \<Longrightarrow> digits_value base ds < base ^ length ds"
proof (induction ds rule: rev_induct)
  case (snoc d ds)
  then have "digits_value base ds + 1 \<le> base ^ length ds" "digit_value d < base"
    by (simp_all add: is_base_digit_def)
  then have "(digits_value base ds + 1) * base \<le> base ^ length ds * base" by (intro mult_right_mono) simp_all
  with \<open>digit_value d < base\<close> show ?case by (simp add: digits_value_def algebra_simps)
qed (simp add: digits_value_def)

text \<open>A number out of range is too long to be taken for a truth value.\<close>

lemma long_no_word:
  assumes "2 \<le> base" "base \<le> 36" "2 ^ 63 \<le> \<bar>n\<bar>"
  shows "stob_word (signed_text base n) = - 1"
proof -
  have "5 < length (print_base base k)" if "2 ^ 63 \<le> k" for k
  proof (rule ccontr)
    assume short: "\<not> 5 < length (print_base base k)"
    have "k < base ^ length (print_base base k)"
      using print_base_digits [OF assms(1,2), of k] digits_value_less [of base "print_base base k"] assms(1) by simp
    also have "\<dots> \<le> base ^ 5" using short assms(1) by (intro power_increasing) auto
    also have "\<dots> \<le> 36 ^ 5" using assms(2) by (rule power_mono) simp
    finally show False using that by simp
  qed
  from this [of "nat (- n)"] this [of "nat n"] have "5 < length (signed_text base n)"
    using assms(3) by (auto simp: signed_text_def nat_le_iff le_nat_iff)
  then show ?thesis by (simp add: stob_word_def)
qed

lemma sto_s_signed:
  assumes "2 \<le> base" "base \<le> 36" "0 < w"
  shows "sto_s stold w (signed_text base n) base odv =
    (if - (2 ^ 63) \<le> n \<and> n < 2 ^ 63 then Inr (signed_take_bit (w - 1) n)
     else case odv of Some d \<Rightarrow> Inr d | None \<Rightarrow> Inl Runtime_error)"
  using strto_signed [OF assms(1,2), of n] long_no_word [OF assms(1,2), of n] assms(3)
  by (auto simp: sto_s_def sto_int_def stol_def try_stobtot_def cast_s_def signed_take_bit_eq_take_bit_shift take_bit_eq_mod)

lemma sto_u_signed:
  assumes "2 \<le> base" "base \<le> 36" "w \<le> 64"
  shows "sto_u stold w (signed_text base n) base odv =
    (if \<bar>n\<bar> < 2 ^ 64 then Inr (take_bit w n) else case odv of Some d \<Rightarrow> Inr d | None \<Rightarrow> Inl Runtime_error)"
proof -
  have "(n mod 2 ^ 64) mod 2 ^ w = n mod 2 ^ w"
    by (rule mod_mod_cancel) (rule le_imp_power_dvd [OF assms(3)])
  moreover have "2 ^ 64 \<le> nat \<bar>n\<bar> \<longleftrightarrow> \<not> \<bar>n\<bar> < 2 ^ 64" by (simp add: le_nat_iff not_less)
  ultimately show ?thesis
    using strto_signed [OF assms(1,2), of n] long_no_word [OF assms(1,2), of n]
    by (auto simp: sto_u_def sto_int_def stoul_def try_stobtot_def cast_u_def take_bit_eq_mod)
qed

text \<open>C31.
  The text of any number in any base reads, in that base and as any integral type but
  \<^verbatim>\<open>bool\<close> and \<^verbatim>\<open>int8_t\<close>, as the number reduced to the type's width, without an error, as long as
  it fits 64 bits: a number too large for a narrow type wraps, as does a negative number read
  as an unsigned type. Past 64 bits it is an error, or the default.
\<close>

theorem number_reduced:
  assumes "2 \<le> base" "base \<le> 36" "T \<notin> {Bool_t, Schar_t}"
  shows "value_get stold T (new_value (Text_arg (signed_text base n))) base =
      (if readable T n then Inr (reduced T n) else Inl Runtime_error) \<and>
    value_get_or stold T (new_value (Text_arg (signed_text base n))) base d =
      Returns (if readable T n then reduced T n else d) \<and>
    new_value (Int_arg n) = new_value (Text_arg (signed_text 10 n))"
  using assms sto_s_signed [OF assms(1,2)] sto_u_signed [OF assms(1,2)]
  by (cases T) (simp_all add: value_get_def value_get_or_def ston_or_def ston_def no_except_def readable_def reduced_def
      type_signed_def new_value_def set_value_def signed_text_decimal format_arg_def [of "Text_arg s" for s])

theorem number_reduced_witness:
  "value_get (\<lambda>s. Inl Invalid_argument) Int_t (new_value (Int_arg 4294967301)) 10 = Inr 5 \<and>
   value_get (\<lambda>s. Inl Invalid_argument) Ushort_t (new_value (Text_arg (signed_text 16 (- 1)))) 16 = Inr 65535"
  using number_reduced [of 10 Int_t "\<lambda>s. Inl Invalid_argument" 4294967301 0]
    number_reduced [of 16 Ushort_t "\<lambda>s. Inl Invalid_argument" "- 1" 0]
  by (simp add: readable_def reduced_def type_signed_def signed_take_bit_eq_take_bit_shift take_bit_eq_mod)

text \<open>
  The default of \<^verbatim>\<open>to_bool_or\<close> is never used: a text that is neither a number nor a truth value
  terminates the program, in \<^verbatim>\<open>to_bool\<close> as well. And \<^verbatim>\<open>get<int8_t>\<close> rejects every number.
\<close>

theorem bool_default_unused:
  assumes "stob_word (m_str v) < 0" "strto base (m_str v) = None" 
  shows "to_bool_or stold v base d = Terminates \<and> to_bool stold v base = Terminates \<and>
    to_int_or stold v base d = Returns d \<and> value_get stold Schar_t (new_value (Int_arg n)) 10 = Inl Runtime_error"
  using assms stob_word_number [of n]
  by (simp add: to_bool_or_def to_bool_def to_int_or_def value_get_or_def value_get_def ston_or_def ston_def stob_def
      sto_int_def stol_def sto_s_def try_stobtot_def no_except_def res_bind_def Let_def new_value_def set_value_def)

theorem bool_default_unused_witness:
  "to_bool_or (\<lambda>s. Inl Invalid_argument) (new_value (Text_arg ''?'')) 10 1 = Terminates"
proof -
  have "stob_word (m_str (new_value (Text_arg ''?''))) < 0" "strto 10 (m_str (new_value (Text_arg ''?''))) = None"
    by code_simp+
  from bool_default_unused [OF this] show ?thesis by blast
qed

end
