(* ===== verification/Modules.thy ===== *)
theory Modules
  imports Std_Map
begin

text \<open>
  Initialisers of modules (\<^verbatim>\<open>libgs/core/modules.cpp\<close>, \<^verbatim>\<open>detail/modules.h\<close>): functions
  registered under a level, run once, level by level. A function of type \<open>'f\<close> is opaque;
  what it does to the run is given by two parameters: how the call or the awaiting of it ends,
  and how the wait for the future that it returns ends. Each may return, throw, or never end.
  The last is what may become of every \<^verbatim>\<open>co_wait\<close> (\<^verbatim>\<open>coro/detail/utilities.h:63\<close>), whose
  thread may poll before there is something to run (\<open>late_work_is_lost\<close> of \<open>Executor\<close>). A run
  yields what it has called and begun to wait for, in order, how it ended, and the map it leaves.
\<close>

datatype 'f func_obj = Init_func 'f | Future_init_func 'f | Await_init_func 'f

type_synonym 'f func_map = "(nat, 'f func_obj list) std_map"

datatype run_end = Ends | Throws | Hangs

datatype 'f event = Called 'f | Launched 'f | Awaited 'f | Waited 'f

section \<open>Registration\<close>

text \<open>\<^const>\<open>None\<close> is an empty \<^verbatim>\<open>std::function\<close>.\<close>

definition reg_init_p :: "'f func_map \<Rightarrow> 'f option func_obj \<Rightarrow> nat \<Rightarrow> 'f func_map res" where
  "reg_init_p m func level =
     (let add = (\<lambda>g. let m1 = map_ensure m level [] in map_put m1 level (the (map_of m1 level) @ [g]))
      in case func of
           Init_func (Some f) \<Rightarrow> Inr (add (Init_func f))
         | Future_init_func (Some f) \<Rightarrow> Inr (add (Future_init_func f))
         | Await_init_func (Some f) \<Rightarrow> Inr (add (Await_init_func f))
         | _ \<Rightarrow> Inl Runtime_error)"

text \<open>The overload is chosen by the type that the function returns.\<close>

datatype return_kind = Returns_void | Returns_future | Returns_awaitable

definition reg_init :: "'f func_map \<Rightarrow> return_kind \<Rightarrow> 'f option \<Rightarrow> nat \<Rightarrow> 'f func_map res" where
  "reg_init m kind func level =
     (case kind of
        Returns_void \<Rightarrow> reg_init_p m (Init_func func) level
      | Returns_future \<Rightarrow> reg_init_p m (Future_init_func func) level
      | Returns_awaitable \<Rightarrow> reg_init_p m (Await_init_func func) level)"

section \<open>Runs\<close>

text \<open>
  The loop over the functions of a level: the events, how it ended, and the futures
  collected. \<open>co\<close> tells \<^verbatim>\<open>co_run_init\<close> from \<^verbatim>\<open>run_init\<close>, which skips awaitables.
\<close>

fun run_functions :: "bool \<Rightarrow> ('f \<Rightarrow> run_end) \<Rightarrow> 'f func_obj list \<Rightarrow> 'f list \<Rightarrow> 'f event list \<times> run_end \<times> 'f list" where
  "run_functions co call [] future_list = ([], Ends, future_list)"
| "run_functions co call (Init_func f # fs) future_list =
     (if call f \<noteq> Ends then ([Called f], call f, future_list)
      else map_prod (Cons (Called f)) id (run_functions co call fs future_list))"
| "run_functions co call (Future_init_func f # fs) future_list =
     (if call f \<noteq> Ends then ([Launched f], call f, future_list)
      else map_prod (Cons (Launched f)) id (run_functions co call fs (future_list @ [f])))"
| "run_functions co call (Await_init_func f # fs) future_list =
     (if \<not> co then run_functions co call fs future_list
      else if call f \<noteq> Ends then ([Awaited f], call f, future_list)
      else map_prod (Cons (Awaited f)) id (run_functions co call fs future_list))"

text \<open>\<^verbatim>\<open>futrue.wait()\<close> does not throw; \<^verbatim>\<open>co_wait(futrue)\<close> rethrows what the future holds.\<close>

fun wait_futures :: "bool \<Rightarrow> ('f \<Rightarrow> run_end) \<Rightarrow> 'f list \<Rightarrow> 'f event list \<times> run_end" where
  "wait_futures co wait [] = ([], Ends)"
| "wait_futures co wait (f # fs) =
     (let r = (if wait f = Throws \<and> \<not> co then Ends else wait f) in
      if r \<noteq> Ends then ([Waited f], r)
      else map_prod (Cons (Waited f)) id (wait_futures co wait fs))"

fun run_levels :: "bool \<Rightarrow> ('f \<Rightarrow> run_end) \<Rightarrow> ('f \<Rightarrow> run_end) \<Rightarrow> 'f func_map \<Rightarrow> 'f event list \<times> run_end" where
  "run_levels co call wait [] = ([], Ends)"
| "run_levels co call wait ((level, func_list) # m) =
     (case run_functions co call func_list [] of
        (es, r, future_list) \<Rightarrow>
          if r \<noteq> Ends then (es, r)
          else
            (case wait_futures co wait future_list of
               (ws, r) \<Rightarrow>
                 if r \<noteq> Ends then (es @ ws, r)
                 else map_prod (append (es @ ws)) id (run_levels co call wait m)))"

text \<open>Both move the registered functions out of the static map, which is left empty.\<close>

definition run_init :: "('f \<Rightarrow> run_end) \<Rightarrow> ('f \<Rightarrow> run_end) \<Rightarrow> 'f func_map \<Rightarrow> 'f event list \<times> run_end \<times> 'f func_map" where
  "run_init call wait init_map =
     (let (es, r) = run_levels False call wait init_map in (es, r, []))"

definition co_run_init :: "('f \<Rightarrow> run_end) \<Rightarrow> ('f \<Rightarrow> run_end) \<Rightarrow> 'f func_map \<Rightarrow> 'f event list \<times> run_end \<times> 'f func_map" where
  "co_run_init call wait init_map =
     (let (es, r) = run_levels True call wait init_map in (es, r, []))"

section \<open>What a run should be\<close>

text \<open>
  From the registrations in their order: the levels ascending; in each the functions in the
  order of registration, and then every future that the level has launched.
\<close>

fun start_event :: "bool \<Rightarrow> 'f func_obj \<Rightarrow> 'f event list" where
  "start_event co (Init_func f) = [Called f]"
| "start_event co (Future_init_func f) = [Launched f]"
| "start_event co (Await_init_func f) = (if co then [Awaited f] else [])"

fun future_of :: "'f func_obj \<Rightarrow> 'f list" where
  "future_of (Future_init_func f) = [f]"
| "future_of _ = []"

definition level_trace :: "bool \<Rightarrow> 'f func_obj list \<Rightarrow> 'f event list" where
  "level_trace co fs = concat (map (start_event co) fs) @ map Waited (concat (map future_of fs))"

text \<open>How the call or the wait of an event ends.\<close>

fun event_end :: "('f \<Rightarrow> run_end) \<Rightarrow> ('f \<Rightarrow> run_end) \<Rightarrow> 'f event \<Rightarrow> run_end" where
  "event_end call wait (Called f) = call f"
| "event_end call wait (Launched f) = call f"
| "event_end call wait (Awaited f) = call f"
| "event_end call wait (Waited f) = wait f"

definition at_level :: "(nat \<times> 'f func_obj) list \<Rightarrow> nat \<Rightarrow> 'f func_obj list" where
  "at_level regs l = map snd (filter (\<lambda>r. fst r = l) regs)"

definition levels :: "(nat \<times> 'f func_obj) list \<Rightarrow> nat list" where
  "levels regs = sort (remdups (map fst regs))"

definition init_trace :: "bool \<Rightarrow> (nat \<times> 'f func_obj) list \<Rightarrow> 'f event list" where
  "init_trace co regs = concat (map (\<lambda>l. level_trace co (at_level regs l)) (levels regs))"

definition register_all :: "(nat \<times> 'f func_obj) list \<Rightarrow> 'f func_map res" where
  "register_all regs =
     foldl (\<lambda>m (level, func). res_bind m (\<lambda>m. reg_init_p m (map_func_obj Some func) level)) (Inr []) regs"

section \<open>Lemmas\<close>

lemma reg_init_p_ok:
  "reg_init_p m (map_func_obj Some func) level =
   Inr (let m1 = map_ensure m level [] in map_put m1 level (the (map_of m1 level) @ [func]))"
  by (cases func) (simp_all add: reg_init_p_def Let_def)

lemma register_all_snoc:
  "register_all (regs @ [(l, f)]) = res_bind (register_all regs) (\<lambda>m. reg_init_p m (map_func_obj Some f) l)"
  by (simp add: register_all_def)

lemma at_level_snoc: "at_level (regs @ [(l, f)]) k = at_level regs k @ (if k = l then [f] else [])"
  by (simp add: at_level_def)

lemma register_all_ok:
  "\<exists>m. register_all regs = Inr m \<and> sorted_keys m \<and> fst ` set m = fst ` set regs \<and>
     (\<forall>l. map_of m l = (if l \<in> fst ` set regs then Some (at_level regs l) else None))"
proof (induction regs rule: rev_induct)
  case Nil
  show ?case by (simp add: register_all_def at_level_def)
next
  case (snoc r regs)
  obtain l f where r: "r = (l, f)" by (cases r)
  obtain m where m: "register_all regs = Inr m" "sorted_keys m" "fst ` set m = fst ` set regs"
    "\<And>k. map_of m k = (if k \<in> fst ` set regs then Some (at_level regs k) else None)"
    using snoc.IH by blast
  let ?m1 = "map_ensure m l []"
  let ?m2 = "map_put ?m1 l (the (map_of ?m1 l) @ [f])"
  have none: "at_level regs k = []" if "k \<notin> fst ` set regs" for k
    using that by (auto simp: at_level_def filter_empty_conv image_iff)
  have "fst ` set ?m1 = insert l (fst ` set m)"
    using m(4) [of l] by (auto simp: map_ensure_def map_put_keys m(3) split: option.splits if_splits)
  then have "fst ` set ?m2 = fst ` set (regs @ [r])"
    by (simp only: map_put_keys m(3) r) auto
  moreover have "map_of ?m2 k = (if k \<in> fst ` set (regs @ [r]) then Some (at_level (regs @ [r]) k) else None)" for k
    by (auto simp: r map_of_ensure m(4) at_level_snoc none)
  moreover have "sorted_keys ?m2" using m(2) by (intro sorted_keys_put sorted_keys_ensure)
  ultimately show ?case
    by (simp add: r register_all_snoc m(1) res_bind_def reg_init_p_ok Let_def)
qed

lemma sorted_keys_levels:
  assumes "sorted_keys m" "fst ` set m = fst ` set regs"
    "\<And>l. map_of m l = (if l \<in> fst ` set regs then Some (at_level regs l) else None)"
  shows "m = map (\<lambda>l. (l, at_level regs l)) (levels regs)"
proof -
  have "sorted_wrt (<) (map fst m)" using assms(1) by (simp add: sorted_keys_def)
  then have sd: "sorted (map fst m)" "distinct (map fst m)" by (simp_all add: strict_sorted_iff)
  have "map fst m = sorted_list_of_set (fst ` set m)"
    using sd by (simp add: sorted_list_of_set.idem_if_sorted_distinct flip: set_map)
  also have "\<dots> = levels regs"
    unfolding assms(2) levels_def by (simp add: sorted_list_of_set_sort_remdups flip: set_map)
  finally have keys: "map fst m = levels regs" .
  have "x = (fst x, at_level regs (fst x))" if "x \<in> set m" for x
  proof -
    have "map_of m (fst x) = Some (snd x)" using sd(2) that by (simp add: map_of_eq_Some_iff)
    moreover have "fst x \<in> fst ` set regs" using that assms(2) by blast
    ultimately show ?thesis using assms(3) [of "fst x"] by (cases x) auto
  qed
  then have "map (\<lambda>x. (fst x, at_level regs (fst x))) m = m" by (intro map_idI) auto
  then show ?thesis unfolding keys [symmetric] by (simp add: comp_def)
qed

lemma run_functions_trace:
  "run_functions co call fs futures = (es, r, fl) \<Longrightarrow>
   prefix es (concat (map (start_event co) fs)) \<and>
   (r = Ends \<longrightarrow> es = concat (map (start_event co) fs) \<and> fl = futures @ concat (map future_of fs)) \<and>
   (r \<noteq> Ends \<longrightarrow> es \<noteq> [] \<and> event_end call wait (last es) = r)"
  by (induction co call fs futures arbitrary: es rule: run_functions.induct)
    (auto simp: map_prod_def split: prod.splits if_splits)

lemma wait_futures_trace:
  "wait_futures co wait fl = (ws, r) \<Longrightarrow>
   prefix ws (map Waited fl) \<and> (r = Ends \<longrightarrow> ws = map Waited fl) \<and>
   (r \<noteq> Ends \<longrightarrow> ws \<noteq> [] \<and> event_end call wait (last ws) = r \<and> (r = Throws \<longrightarrow> co))"
  by (induction co wait fl arbitrary: ws rule: wait_futures.induct)
    (auto simp: map_prod_def Let_def split: prod.splits if_splits)

lemma run_levels_trace:
  "run_levels co call wait m = (es, r) \<Longrightarrow>
   prefix es (concat (map (\<lambda>(l, fs). level_trace co fs) m)) \<and>
   (r = Ends \<longrightarrow> es = concat (map (\<lambda>(l, fs). level_trace co fs) m)) \<and>
   (r \<noteq> Ends \<longrightarrow> es \<noteq> [] \<and> event_end call wait (last es) = r)"
proof (induction m arbitrary: es)
  case (Cons lf m)
  obtain level fs where lf: "lf = (level, fs)" by (cases lf)
  obtain fes fr fl where f: "run_functions co call fs [] = (fes, fr, fl)" by (cases "run_functions co call fs []")
  note ft = run_functions_trace [OF f, of wait]
  obtain ws wr where w: "wait_futures co wait fl = (ws, wr)" by (cases "wait_futures co wait fl")
  note wt = wait_futures_trace [OF w, of call]
  show ?case
  proof (cases "fr = Ends \<and> wr = Ends")
    case True
    obtain es2 where "run_levels co call wait m = (es2, r)" "es = (fes @ ws) @ es2"
      using Cons.prems True by (auto simp: lf f w map_prod_def split: prod.splits)
    then show ?thesis using Cons.IH [of es2] ft wt True by (auto simp: lf level_trace_def)
  next
    case False
    then have "es = (if fr \<noteq> Ends then fes else fes @ ws) \<and> r = (if fr \<noteq> Ends then fr else wr)"
      using Cons.prems by (auto simp: lf f w split: if_splits)
    then show ?thesis using ft wt False by (auto simp: lf level_trace_def prefix_def)
  qed
qed simp

section \<open>Properties\<close>

text \<open>C23.
  Whatever the functions do, a run starts and waits in the order of the levels, in a level
  in the order of registration and with every future waited for before the next level: its
  events are a beginning of that reference sequence. It is all of it if the run returns; if it
  does not, it is cut at a call or a wait that throws or never ends, as a wait of the coroutine
  may. The map is empty in every case, so that the functions that are left are forgotten.
\<close>

theorem modules_in_order:
  assumes "register_all regs = Inr m"
  shows "(\<exists>t r. co_run_init call wait m = (t, r, []) \<and> prefix t (init_trace True regs) \<and>
      (if r = Ends then t = init_trace True regs else t \<noteq> [] \<and> event_end call wait (last t) = r)) \<and>
    (\<exists>t r. run_init call wait m = (t, r, []) \<and> prefix t (init_trace False regs) \<and>
      (if r = Ends then t = init_trace False regs else t \<noteq> [] \<and> event_end call wait (last t) = r))"
proof -
  have m: "m = map (\<lambda>l. (l, at_level regs l)) (levels regs)"
    using register_all_ok [of regs] assms by (intro sorted_keys_levels) auto
  have trace: "concat (map (\<lambda>(l, fs). level_trace co fs) m) = init_trace co regs" for co
    unfolding m by (simp add: init_trace_def comp_def)
  obtain t1 r1 t2 r2 where "run_levels True call wait m = (t1, r1)" "run_levels False call wait m = (t2, r2)" by fastforce
  then show ?thesis
    using run_levels_trace [of True call wait m t1 r1] run_levels_trace [of False call wait m t2 r2]
    by (simp add: co_run_init_def run_init_def trace)
qed

theorem modules_in_order_witness:
  "co_run_init (\<lambda>f. if f = 9 then Throws else Ends) (\<lambda>f. Ends) [(0, [Future_init_func 1, Init_func 2]), (5, [Await_init_func (3 :: nat)])] =
     ([Launched 1, Called 2, Waited 1, Awaited 3], Ends, []) \<and>
   prefix (fst (co_run_init (\<lambda>f. Ends) (\<lambda>f. Hangs) [(0, [Future_init_func 1, Init_func 2]), (5, [Await_init_func (3 :: nat)])]))
     (init_trace True [(5, Await_init_func 3), (0, Future_init_func 1), (0, Init_func 2)])"
proof -
  let ?regs = "[(5, Await_init_func 3), (0, Future_init_func 1), (0, Init_func (2 :: nat))]"
  have "register_all ?regs = Inr [(0, [Future_init_func 1, Init_func 2]), (5, [Await_init_func 3])]"
    by (simp add: register_all_def reg_init_p_def map_ensure_def Let_def)
  from modules_in_order [OF this, of "\<lambda>f. Ends" "\<lambda>f. Hangs"] show ?thesis
    by (auto simp: co_run_init_def)
qed

text \<open>
  Registering an empty function throws and registers nothing; a function is registered at
  the end of its level, whatever was registered before.
\<close>

theorem reg_init_spec:
  assumes "sorted_keys m"
  shows "reg_init m kind None level = Inl Runtime_error \<and>
    (\<exists>m' g. reg_init m kind (Some f) level = Inr m' \<and> sorted_keys m' \<and> set_func_obj g = {f} \<and>
       map_of m' = (map_of m)(level \<mapsto> (case map_of m level of None \<Rightarrow> [] | Some fs \<Rightarrow> fs) @ [g]))"
proof -
  have ok: "\<exists>m'. (let m1 = map_ensure m level [] in map_put m1 level (the (map_of m1 level) @ [g])) = m' \<and> sorted_keys m' \<and>
       map_of m' = (map_of m)(level \<mapsto> (case map_of m level of None \<Rightarrow> [] | Some fs \<Rightarrow> fs) @ [g])" for g
    using assms by (auto simp: Let_def map_of_ensure fun_eq_iff)
  show ?thesis
    using ok [of "Init_func f"] ok [of "Future_init_func f"] ok [of "Await_init_func f"]
    by (cases kind) (force simp: reg_init_def reg_init_p_def Let_def)+
qed

theorem reg_init_spec_witness:
  "reg_init [(1 :: nat, [Init_func (7 :: nat)])] Returns_void None 1 = Inl Runtime_error"
  using reg_init_spec [of "[(1, [Init_func (7 :: nat)])]" Returns_void 1 8] by simp

end
