(* ===== verification/App_Utils.thy ===== *)
theory App_Utils
  imports Cxx_Strings Std_Map
begin

text \<open>
  Paths and environment of the running program (\<^verbatim>\<open>libgs/core/app_utls.cpp\<close> and
  \<^verbatim>\<open>detail/app_utls_unix.cpp\<close>). The functions take an error code and are \<^verbatim>\<open>noexcept\<close>; \<open>None\<close>
  says that the program does not go on: an exception leaves such a function, or memory
  outside a buffer is read. Names are valid UTF-8, so that their conversion to wide
  characters and back changes nothing.
\<close>

section \<open>The process\<close>

text \<open>
  What the functions ask the system for: the answers of \<^verbatim>\<open>readlink\<close> and \<^verbatim>\<open>getcwd\<close> (a number
  of an error, with what the buffer holds then, or a name), the array \<^verbatim>\<open>environ\<close> and \<^verbatim>\<open>errno\<close>.
\<close>

record process =
  exe_link :: "nat + string"
  work_dir :: "nat \<times> string + string"
  environ :: "string list"
  errno :: nat

definition no_error :: nat where
  "no_error = 0"

text \<open>The buffer of 1024 bytes has no room for the terminator of a longer name.\<close>

definition file_path :: "process \<Rightarrow> (string \<times> nat \<times> process) option" where
  "file_path w =
     (case exe_link w of
        Inl e \<Rightarrow> Some ([], e, w\<lparr>errno := e\<rparr>)
      | Inr target \<Rightarrow> if length target < 1024 then Some (target, no_error, w) else None)"

definition dir_path :: "process \<Rightarrow> (string \<times> nat \<times> process) option" where
  "dir_path w =
     (case file_path w of
        None \<Rightarrow> None
      | Some (exe, error, w) \<Rightarrow>
          if error \<noteq> no_error then Some ([], error, w)
          else
            Some (case rfind_char (CHR ''/'') exe of
                    None \<Rightarrow> (''./'', no_error, w)
                  | Some index \<Rightarrow>
                      (if index = length exe - 1 then ''./'' else take (index + 1) exe, no_error, w)))"

text \<open>\<^verbatim>\<open>chdir\<close> answers the number of an error or the name of the directory it goes to.\<close>

definition set_current_directory :: "(string \<Rightarrow> nat + string) \<Rightarrow> string \<Rightarrow> process \<Rightarrow> bool \<times> nat \<times> process" where
  "set_current_directory chdir path w =
     (case chdir path of
        Inl e \<Rightarrow> (False, e, w\<lparr>errno := e\<rparr>)
      | Inr d \<Rightarrow> (True, no_error, w\<lparr>work_dir := Inr d\<rparr>))"

definition current_directory :: "process \<Rightarrow> string \<times> nat \<times> process" where
  "current_directory w =
     (let (str, error, w) =
        (case work_dir w of
           Inl (e, left) \<Rightarrow> (left, e, w\<lparr>errno := e\<rparr>)
         | Inr d \<Rightarrow> (d, no_error, w))
      in (if \<not> ends_with ''/'' str then str @ ''/'' else str, error, w))"

text \<open>The functions without an error code throw it.\<close>

definition checked_path :: "string \<times> nat \<times> process \<Rightarrow> string res" where
  "checked_path r = (case r of (path, error, w) \<Rightarrow> if error \<noteq> no_error then Inl (System_error error) else Inr path)"

section \<open>The environment\<close>

text \<open>The functions of POSIX on \<^verbatim>\<open>environ\<close>, when memory suffices.\<close>

definition env_name :: "string \<Rightarrow> bool" where
  "env_name name \<longleftrightarrow> name \<noteq> [] \<and> CHR ''='' \<notin> set name"

fun env_get :: "string list \<Rightarrow> string \<Rightarrow> string option" where
  "env_get [] name = None"
| "env_get (e # es) name =
     (if name \<noteq> [] \<and> starts_with (name @ ''='') e then Some (drop (length name + 1) e) else env_get es name)"

fun env_replace :: "string list \<Rightarrow> string \<Rightarrow> string \<Rightarrow> string list" where
  "env_replace [] name val = [name @ ''='' @ val]"
| "env_replace (e # es) name val =
     (if starts_with (name @ ''='') e then (name @ ''='' @ val) # es else e # env_replace es name val)"

definition EINVAL :: nat where
  "EINVAL = 22"

definition posix_setenv :: "string \<Rightarrow> string \<Rightarrow> bool \<Rightarrow> process \<Rightarrow> bool \<times> process" where
  "posix_setenv name val overwrite w =
     (if \<not> env_name name then (False, w\<lparr>errno := EINVAL\<rparr>)
      else if overwrite \<or> env_get (environ w) name = None
        then (True, w\<lparr>environ := env_replace (environ w) name val\<rparr>)
      else (True, w))"

definition posix_unsetenv :: "string \<Rightarrow> process \<Rightarrow> bool \<times> process" where
  "posix_unsetenv name w =
     (if \<not> env_name name then (False, w\<lparr>errno := EINVAL\<rparr>)
      else (True, w\<lparr>environ := filter (\<lambda>e. \<not> starts_with (name @ ''='') e) (environ w)\<rparr>))"

text \<open>Not finding a name leaves \<^verbatim>\<open>errno\<close> as it was, and that is the error reported.\<close>

definition getenv :: "string \<Rightarrow> process \<Rightarrow> string option \<times> nat" where
  "getenv key w =
     (case env_get (environ w) key of
        Some val \<Rightarrow> (Some val, no_error)
      | None \<Rightarrow> (None, errno w))"

definition getenv_checked :: "string \<Rightarrow> process \<Rightarrow> string option res" where
  "getenv_checked key w = (case getenv key w of (res, error) \<Rightarrow> if error \<noteq> no_error then Inl (System_error error) else Inr res)"

definition env_entry :: "(string, string) std_map \<Rightarrow> string \<Rightarrow> (string, string) std_map" where
  "env_entry envs tmp =
     (case find_char (CHR ''='') tmp of
        None \<Rightarrow> map_ensure envs tmp []
      | Some pos \<Rightarrow> map_ensure envs (take pos tmp) (drop (pos + 1) tmp))"

definition getenvs :: "process \<Rightarrow> (string, string) std_map" where
  "getenvs w = foldl env_entry [] (environ w)"

definition setenv :: "string \<Rightarrow> string \<Rightarrow> bool \<Rightarrow> process \<Rightarrow> bool \<times> nat \<times> process" where
  "setenv key val overwrite w =
     (let (ok, w) = posix_setenv key val overwrite w in
      if \<not> ok then (False, errno w, w) else (True, no_error, w))"

definition unsetenv :: "string \<Rightarrow> process \<Rightarrow> bool \<times> nat \<times> process" where
  "unsetenv key w =
     (let (ok, w) = posix_unsetenv key w in
      if \<not> ok then (False, errno w, w) else (True, no_error, w))"

section \<open>Absolute paths\<close>

definition is_absolute_path :: "string \<Rightarrow> bool" where
  "is_absolute_path str =
     (if starts_with ''/'' str then True
      else if starts_with ''~'' str then length str = 1 \<or> str ! 1 = CHR ''/''
      else False)"

text \<open>
  The path before its slashes are tidied. The directory of the program is asked for by the
  function that throws, and a missing \<^verbatim>\<open>HOME\<close> makes a string of a null pointer.
\<close>

definition expanded_path :: "string \<Rightarrow> process \<Rightarrow> (string \<times> process) option" where
  "expanded_path str w =
     (if \<not> is_absolute_path str then
        (case dir_path w of
           None \<Rightarrow> None
         | Some (dir, error, w) \<Rightarrow> if error \<noteq> no_error then None else Some (dir @ str, w))
      else if starts_with ''~'' str then
        (case env_get (environ w) ''HOME'' of
           None \<Rightarrow> None
         | Some home \<Rightarrow> Some ((if ends_with ''/'' home then butlast home else home) @ drop 1 str, w))
      else Some (str, w))"

definition absolute_path :: "string \<Rightarrow> process \<Rightarrow> (string \<times> nat \<times> process) option" where
  "absolute_path str w =
     (case expanded_path str w of
        None \<Rightarrow> None
      | Some (result, w) \<Rightarrow>
          (case str_replace result ''/./'' ''/'' False of
             None \<Rightarrow> None
           | Some (result, n) \<Rightarrow>
               (case str_replace result ''//'' ''/'' False of
                  None \<Rightarrow> None
                | Some (result, n) \<Rightarrow> Some (result, no_error, w))))"

section \<open>Replacing by a shorter string\<close>

lemma all_le_Suc: "(\<forall>j \<le> Suc n. P j) \<longleftrightarrow> P 0 \<and> (\<forall>j \<le> n. P (Suc j))"
  by (metis Suc_le_mono le0 not0_implies_Suc)

lemma find_sub_none: "find_sub p s = None \<longleftrightarrow> (\<forall>j \<le> length s. \<not> prefix p (drop j s))"
proof (induction s)
  case (Cons x s)
  then show ?case by (simp add: all_le_Suc)
qed auto

lemma prefix_nth:
  assumes "p \<noteq> []"
  shows "prefix p (drop j s) \<longleftrightarrow> j + length p \<le> length s \<and> (\<forall>i < length p. s ! (j + i) = p ! i)"
proof
  assume "prefix p (drop j s)"
  then obtain t where t: "drop j s = p @ t" by (auto simp: prefix_def)
  then have "length s - j = length p + length t" by (metis length_append length_drop)
  then have len: "j + length p \<le> length s" using assms by (cases "length s < j") auto
  have "s ! (j + i) = p ! i" if "i < length p" for i
    using arg_cong [OF t, of "\<lambda>l. l ! i"] that len by (simp add: nth_append)
  with len show "j + length p \<le> length s \<and> (\<forall>i < length p. s ! (j + i) = p ! i)" by blast
next
  assume r: "j + length p \<le> length s \<and> (\<forall>i < length p. s ! (j + i) = p ! i)"
  then have "take (length p) (drop j s) = p" by (intro nth_equalityI) auto
  then show "prefix p (drop j s)" by (metis take_is_prefix)
qed

text \<open>
  Replacing an occurrence by its first character makes no new one before it, when that
  character is not in the middle of the search string.
\<close>

lemma replaced_before:
  assumes fnd: "fnd = c # mid @ [x]" "c \<notin> set mid"
    and before: "\<forall>j < start. \<not> prefix fnd (drop j s)" and at: "prefix fnd (drop start s)"
  shows "\<forall>j < start. \<not> prefix fnd (drop j (take start s @ [c] @ r))"
proof (intro allI impI notI)
  fix j assume j: "j < start" and occ: "prefix fnd (drop j (take start s @ [c] @ r))"
  have ne: "fnd \<noteq> []" using fnd by simp
  have len: "start + length fnd \<le> length s" and c: "s ! start = c"
    using at prefix_nth [OF ne, of start s] fnd(1) by (auto dest: spec [of _ 0])
  have occ': "(take start s @ [c] @ r) ! (j + i) = fnd ! i" if "i < length fnd" for i
    using occ prefix_nth [OF ne] that by blast
  show False
  proof (cases "j + length fnd \<le> start + 1")
    case True
    have "s ! (j + i) = fnd ! i" if "i < length fnd" for i
      using occ' [OF that] True that len c by (cases "j + i = start") (auto simp: nth_append)
    then have "prefix fnd (drop j s)" using prefix_nth [OF ne, of j s] True len j by auto
    with before j show False by blast
  next
    case False
    then have i: "start - j < length fnd" "0 < start - j" "start - j - 1 < length mid"
      using j fnd(1) by auto
    have "c = fnd ! (start - j)" using occ' [OF i(1)] j len by (simp add: nth_append)
    also have "\<dots> = mid ! (start - j - 1)" using i fnd(1) by (auto simp: nth_Cons' nth_append)
    finally show False using fnd(2) i(3) by simp
  qed
qed

lemma find_from_none:
  assumes "find_from fnd s n = None" "\<forall>j < n. \<not> prefix fnd (drop j s)" "n \<le> length s"
  shows "find_sub fnd s = None"
  unfolding find_sub_none
proof (intro allI impI)
  fix j assume j: "j \<le> length s"
  show "\<not> prefix fnd (drop j s)"
  proof (cases "j < n")
    case False
    have "find_sub fnd (drop n s) = None" using assms(1,3) by (simp add: find_from_def)
    then have "\<not> prefix fnd (drop (j - n) (drop n s))" using j unfolding find_sub_none by simp
    then show ?thesis using False by simp
  qed (use assms(2) in blast)
qed

lemma find_sub_first: "find_sub p s = Some n \<Longrightarrow> prefix p (drop n s) \<and> (\<forall>j < n. \<not> prefix p (drop j s))"
proof (induction s arbitrary: n)
  case (Cons x s)
  then show ?case by (auto split: if_splits simp: less_Suc_eq_0_disj)
qed (auto split: if_splits)

lemma str_replace_loop_shrinks:
  assumes fnd: "fnd = c # mid @ [x]" "c \<notin> set mid" and f: "\<And>a b. f (a @ fnd @ b) = f (a @ [c] @ b)"
    and before: "\<forall>j < n. \<not> prefix fnd (drop j s)" and "n \<le> length s"
  shows "\<exists>q k'. str_replace_loop fnd [c] False s n k = Some (q, k') \<and> find_sub fnd q = None \<and> f q = f s"
  using before assms(5)
proof (induction "length s" arbitrary: s n k rule: less_induct)
  case less
  show ?case
  proof (cases "find_from fnd s n")
    case None
    then show ?thesis
      using find_from_none [OF None less.prems] by (simp add: str_replace_loop.simps [of fnd "[c]" False s n])
  next
    case (Some start)
    then obtain d where d: "start = n + d" "find_sub fnd (drop n s) = Some d"
      by (auto simp: find_from_def split: if_splits)
    have at: "prefix fnd (drop start s)" and "\<forall>j < d. \<not> prefix fnd (drop j (drop n s))"
      using find_sub_first [OF d(2)] d(1) by (auto simp: add.commute)
    then have before: "\<forall>j < start. \<not> prefix fnd (drop j s)"
      using less.prems(1) d(1) by (metis add_diff_inverse_nat drop_drop less_diff_conv2 linorder_not_le nat_add_left_cancel_less add.commute)
    obtain r where r: "drop start s = fnd @ r" using at by (auto simp: prefix_def)
    then have s: "s = take start s @ fnd @ r" by (metis append_take_drop_id)
    have len: "start + length fnd \<le> length s" using find_sub_length [OF d(2)] less.prems(2) d(1) by simp
    have rest: "drop (start + length fnd) s = r"
      using r by (metis add.commute append_eq_conv_conj drop_drop)
    let ?s = "take start s @ [c] @ r"
    have "length ?s < length s" using s len fnd(1) by (metis One_nat_def add_less_cancel_left add_less_cancel_right append_Cons length_Cons length_append lessI less_Suc_eq_0_disj list.size(3) not_add_less2 plus_1_eq_Suc)
    moreover have "start \<le> length ?s" using len by simp
    ultimately obtain q k' where "str_replace_loop fnd [c] False ?s start (k + 1) = Some (q, k')"
        "find_sub fnd q = None" "f q = f ?s"
      using less.hyps [of ?s start "k + 1"] replaced_before [OF fnd before at, of r] by blast
    then show ?thesis
      using Some f [of "take start s" r] s rest by (simp add: str_replace_loop.simps [of fnd "[c]" False s n])
  qed
qed


section \<open>Paths\<close>

text \<open>The names a path goes through: what stands between its slashes, but for \<^verbatim>\<open>.\<close> and nothing.\<close>

fun splits :: "char \<Rightarrow> string \<Rightarrow> string list" where
  "splits c [] = [[]]"
| "splits c (x # xs) =
     (if x = c then [] # splits c xs
      else case splits c xs of [] \<Rightarrow> [[x]] | p # ps \<Rightarrow> (x # p) # ps)"

definition path_names :: "string \<Rightarrow> string list" where
  "path_names s = filter (\<lambda>x. x \<noteq> [] \<and> x \<noteq> ''.'') (splits (CHR ''/'') s)"

lemma splits_append: "splits c (a @ c # b) = splits c a @ splits c b"
proof (induction a)
  case (Cons x a)
  have "splits c a \<noteq> []" by (cases a) (auto split: list.splits)
  with Cons show ?case by (cases "splits c a") auto
qed simp

lemma path_names_slash: "path_names (a @ CHR ''/'' # b) = path_names a @ path_names b"
  by (simp add: path_names_def splits_append)

lemma path_names_tidy:
  "path_names (a @ ''/./'' @ b) = path_names (a @ ''/'' @ b)"
  "path_names (a @ ''//'' @ b) = path_names (a @ ''/'' @ b)"
proof -
  have "path_names ''.'' = []" "path_names [] = []" by (simp_all add: path_names_def)
  then show "path_names (a @ ''/./'' @ b) = path_names (a @ ''/'' @ b)"
    "path_names (a @ ''//'' @ b) = path_names (a @ ''/'' @ b)"
    using path_names_slash [of a "CHR ''.'' # CHR ''/'' # b"] path_names_slash [of "''.''" b]
      path_names_slash [of a "CHR ''/'' # b"] path_names_slash [of "[]" b] path_names_slash [of a b]
    by simp_all
qed


lemma starts_with_slash:
  "starts_with ''/'' (a @ ''/./'' @ b) = starts_with ''/'' (a @ ''/'' @ b)"
  "starts_with ''/'' (a @ ''//'' @ b) = starts_with ''/'' (a @ ''/'' @ b)"
  by (cases a; simp add: starts_with_def)+

text \<open>An occurrence of \<^verbatim>\<open>/./\<close> does not reach over a slash.\<close>

lemma find_dot:
  "find_sub ''/./'' (a @ CHR ''/'' # b) = None \<longleftrightarrow>
   find_sub ''/./'' (a @ ''/'') = None \<and> find_sub ''/./'' (CHR ''/'' # b) = None"
proof (induction a)
  case (Cons x a)
  have "prefix ''/./'' ((x # a) @ CHR ''/'' # b) \<longleftrightarrow> prefix ''/./'' ((x # a) @ ''/'')"
    by (cases a; cases "tl a") auto
  with Cons show ?case by auto
qed auto

lemma find_dot_slashes:
  "(find_sub ''/./'' (a @ ''//'' @ b) = None) = (find_sub ''/./'' (a @ ''/'' @ b) = None)"
  using find_dot [of a "CHR ''/'' # b"] find_dot [of "''/''" b] find_dot [of a b] by simp

definition tidy :: "string \<Rightarrow> bool" where
  "tidy q \<longleftrightarrow> find_sub ''/./'' q = None \<and> find_sub ''//'' q = None"

lemma tidied:
  "\<exists>r n q k. str_replace s ''/./'' ''/'' False = Some (r, n) \<and> str_replace r ''//'' ''/'' False = Some (q, k) \<and>
     tidy q \<and> path_names q = path_names s \<and> starts_with ''/'' q = starts_with ''/'' s"
proof -
  obtain r n where r: "str_replace s ''/./'' ''/'' False = Some (r, n)" "find_sub ''/./'' r = None"
      "(path_names r, starts_with ''/'' r) = (path_names s, starts_with ''/'' s)"
    using str_replace_loop_shrinks [of "''/./''" "CHR ''/''" "''.''" "CHR ''/''"
        "\<lambda>s. (path_names s, starts_with ''/'' s)" 0 s 0] path_names_tidy(1) starts_with_slash(1)
    by (auto simp: str_replace_def)
  obtain q k where "str_replace r ''//'' ''/'' False = Some (q, k)" "find_sub ''//'' q = None"
      "(path_names q, starts_with ''/'' q, find_sub ''/./'' q = None) =
       (path_names r, starts_with ''/'' r, find_sub ''/./'' r = None)"
    using str_replace_loop_shrinks [of "''//''" "CHR ''/''" "[]" "CHR ''/''"
        "\<lambda>s. (path_names s, starts_with ''/'' s, find_sub ''/./'' s = None)" 0 r 0]
      path_names_tidy(2) starts_with_slash(2) find_dot_slashes
    by (auto simp: str_replace_def)
  with r show ?thesis by (auto simp: tidy_def)
qed

lemma str_replace_none:
  "find_sub fnd s = None \<Longrightarrow> str_replace s fnd repl step = Some (s, 0)"
  by (simp add: str_replace_def str_replace_loop.simps [of fnd repl step s 0] find_from_def)

text \<open>
  Whatever path it is given, \<^verbatim>\<open>absolute_path\<close> returns if the path could be expanded and only
  then, and reports no error. What it returns holds neither \<^verbatim>\<open>//\<close> nor \<^verbatim>\<open>/./\<close>, goes through
  the same names as the expanded path, and is returned unchanged when it is asked for again.
\<close>

theorem absolute_path_normal:
  "case expanded_path str w of
     None \<Rightarrow> absolute_path str w = None
   | Some (r, w') \<Rightarrow>
       \<exists>q. absolute_path str w = Some (q, no_error, w') \<and> tidy q \<and> path_names q = path_names r \<and>
         (starts_with ''/'' r \<longrightarrow> absolute_path q w' = Some (q, no_error, w'))"
proof (cases "expanded_path str w")
  case None
  then show ?thesis by (simp add: absolute_path_def)
next
  case (Some e)
  obtain r w' where e: "expanded_path str w = Some (r, w')" using Some by (cases e) auto
  obtain r' n q k where q: "str_replace r ''/./'' ''/'' False = Some (r', n)"
      "str_replace r' ''//'' ''/'' False = Some (q, k)" "tidy q" "path_names q = path_names r"
      "starts_with ''/'' q = starts_with ''/'' r"
    using tidied [of r] by blast
  have "expanded_path q w' = Some (q, w')" if "starts_with ''/'' q"
    using that by (auto simp: expanded_path_def is_absolute_path_def starts_with_def)
  then have "starts_with ''/'' r \<longrightarrow> absolute_path q w' = Some (q, no_error, w')"
    using q(3,5) by (simp add: absolute_path_def str_replace_none tidy_def)
  with q e show ?thesis by (auto simp: absolute_path_def)
qed

definition sample_process :: process where
  "sample_process =
     \<lparr>exe_link = Inr ''/opt/app'', work_dir = Inr ''/tmp'', environ = [''HOME=/u/'', ''A=1=2''], errno = 0\<rparr>"

theorem absolute_path_normal_witness:
  "absolute_path ''.//x/./y'' sample_process = Some (''/opt/x/y'', no_error, sample_process) \<and>
   absolute_path ''~/a'' sample_process = Some (''/u/a'', no_error, sample_process) \<and>
   absolute_path ''/opt/x/y'' sample_process = Some (''/opt/x/y'', no_error, sample_process)"
proof -
  have e: "expanded_path ''.//x/./y'' sample_process = Some (''/opt/.//x/./y'', sample_process)" by code_simp
  then obtain q where q: "absolute_path ''.//x/./y'' sample_process = Some (q, no_error, sample_process)"
      "absolute_path q sample_process = Some (q, no_error, sample_process)"
    using absolute_path_normal [of "''.//x/./y''" sample_process] by (auto simp: starts_with_def)
  have "absolute_path ''.//x/./y'' sample_process = Some (''/opt/x/y'', no_error, sample_process)"
    by (simp add: e absolute_path_def str_replace_def str_replace_loop.simps find_from_def)
  moreover have "absolute_path ''~/a'' sample_process = Some (''/u/a'', no_error, sample_process)"
    by (simp add: sample_process_def absolute_path_def expanded_path_def is_absolute_path_def starts_with_def
        ends_with_def str_replace_def str_replace_loop.simps find_from_def)
  ultimately show ?thesis using q by simp
qed


section \<open>The environment as a map\<close>

text \<open>An environment in which every entry names a variable, as programs are started with.\<close>

definition env_ok :: "string list \<Rightarrow> bool" where
  "env_ok es = list_all (\<lambda>e. CHR ''='' \<in> set e \<and> hd e \<noteq> CHR ''='') es"

definition env_map :: "process \<Rightarrow> string \<Rightarrow> string option" where
  "env_map w name = (if env_name name then env_get (environ w) name else None)"

datatype env_call = Setenv string string bool | Unsetenv string

fun env_run :: "env_call list \<Rightarrow> process \<Rightarrow> process" where
  "env_run [] w = w"
| "env_run (Setenv k v ov # calls) w = env_run calls (snd (snd (setenv k v ov w)))"
| "env_run (Unsetenv k # calls) w = env_run calls (snd (snd (unsetenv k w)))"

text \<open>What the calls promise, on maps.\<close>

fun env_spec :: "env_call list \<Rightarrow> (string \<rightharpoonup> string) \<Rightarrow> (string \<rightharpoonup> string)" where
  "env_spec [] m = m"
| "env_spec (Setenv k v ov # calls) m =
     env_spec calls (if env_name k \<and> (ov \<or> m k = None) then m(k \<mapsto> v) else m)"
| "env_spec (Unsetenv k # calls) m = env_spec calls (m(k := None))"

lemma env_ok_Cons: "env_ok (e # es) \<longleftrightarrow> (\<exists>n v. e = n @ ''='' @ v \<and> env_name n) \<and> env_ok es"
proof -
  have "CHR ''='' \<in> set e \<and> hd e \<noteq> CHR ''='' \<longleftrightarrow> (\<exists>n v. e = n @ ''='' @ v \<and> env_name n)"
  proof
    assume e: "CHR ''='' \<in> set e \<and> hd e \<noteq> CHR ''=''"
    then obtain n v where "e = n @ CHR ''='' # v" "CHR ''='' \<notin> set n" by (metis split_list_first)
    with e show "\<exists>n v. e = n @ ''='' @ v \<and> env_name n"
      by (intro exI [of _ n] exI [of _ v]) (cases n; auto simp: env_name_def)
  next
    assume "\<exists>n v. e = n @ ''='' @ v \<and> env_name n"
    then show "CHR ''='' \<in> set e \<and> hd e \<noteq> CHR ''=''"
      by (auto simp: env_name_def) (metis hd_in_set)
  qed
  then show ?thesis by (simp add: env_ok_def)
qed

lemma env_ok_Nil [simp]: "env_ok []"
  by (simp add: env_ok_def)

lemma starts_entry:
  assumes "env_name name" "env_name n"
  shows "starts_with (name @ ''='') (n @ ''='' @ v) \<longleftrightarrow> name = n"
proof
  assume "starts_with (name @ ''='') (n @ ''='' @ v)"
  then obtain r where "n @ CHR ''='' # v = name @ CHR ''='' # r"
    unfolding starts_with_def by (metis append.assoc append_Cons append_Nil append_take_drop_id)
  then have "takeWhile (\<lambda>c. c \<noteq> CHR ''='') (n @ CHR ''='' # v) =
      takeWhile (\<lambda>c. c \<noteq> CHR ''='') (name @ CHR ''='' # r)" by simp
  moreover have "takeWhile (\<lambda>c. c \<noteq> CHR ''='') l = l" if "env_name l" for l
    using that by (auto simp: env_name_def takeWhile_eq_all_conv)
  ultimately show "name = n" using assms by (simp add: takeWhile_tail)
qed (simp add: starts_with_def)

lemma env_get_Cons:
  assumes "env_name name" "env_name n"
  shows "env_get ((n @ ''='' @ v) # es) name = (if name = n then Some v else env_get es name)"
  using starts_entry [OF assms, of v] assms(1) by (simp add: env_name_def)

lemma env_replace_spec:
  assumes "env_name k"
  shows "env_ok es \<Longrightarrow> env_ok (env_replace es k v)"
    and "env_ok es \<Longrightarrow> env_name name \<Longrightarrow>
      env_get (env_replace es k v) name = (if name = k then Some v else env_get es name)"
proof (induction es)
  case Nil
  {
    case 1
    then show ?case using assms by (auto simp: env_ok_Cons)
  next
    case 2
    then show ?case using env_get_Cons [OF 2(2) assms, of v "[]"] by simp
  }
next
  case (Cons e es)
  {
    case 1
    then obtain n u where e: "e = n @ ''='' @ u" "env_name n" "env_ok es" unfolding env_ok_Cons by blast
    show ?case
      using Cons.IH(1) [OF e(3)] e starts_entry [OF assms e(2), of u] assms unfolding env_replace.simps
      by (auto simp: env_ok_Cons)
  next
    case 2
    then obtain n u where e: "e = n @ ''='' @ u" "env_name n" "env_ok es" unfolding env_ok_Cons by blast
    show ?case
      unfolding env_replace.simps e(1) starts_entry [OF assms e(2)]
      using Cons.IH(2) [OF e(3) 2(2)] env_get_Cons [OF 2(2) e(2)] env_get_Cons [OF 2(2) assms]
      by (auto simp del: env_get.simps)
  }
qed

lemma env_unset_spec:
  assumes "env_name k"
  shows "env_ok es \<Longrightarrow> env_ok (filter (\<lambda>e. \<not> starts_with (k @ ''='') e) es)"
    and "env_ok es \<Longrightarrow> env_name name \<Longrightarrow>
      env_get (filter (\<lambda>e. \<not> starts_with (k @ ''='') e) es) name = (if name = k then None else env_get es name)"
proof (induction es)
  case (Cons e es)
  {
    case 1
    then show ?case using Cons.IH(1) by (auto simp: env_ok_Cons)
  next
    case 2
    then obtain n u where e: "e = n @ ''='' @ u" "env_name n" "env_ok es" unfolding env_ok_Cons by blast
    show ?case
      using Cons.IH(2) [OF e(3) 2(2)] env_get_Cons [OF 2(2) e(2)] starts_entry [OF assms e(2), of u]
      unfolding e(1) by (auto simp del: env_get.simps)
  }
qed auto

lemma getenvs_spec:
  "env_ok es \<Longrightarrow> map_of (foldl env_entry m es) name =
     (case map_of m name of Some v \<Rightarrow> Some v | None \<Rightarrow> if env_name name then env_get es name else None)"
proof (induction es arbitrary: m)
  case (Cons e es)
  then obtain n u where e: "e = n @ ''='' @ u" "env_name n" "env_ok es" unfolding env_ok_Cons by blast
  then have "env_entry m e = map_ensure m n u" by (simp add: env_entry_def env_name_def)
  then show ?case
    using Cons.IH [OF e(3), of "map_ensure m n u"] e(1,2) env_get_Cons [OF _ e(2), of name u es]
    by (auto simp: map_of_ensure simp del: env_get.simps split: option.splits)
qed (auto split: option.splits)


lemma env_step:
  assumes "env_ok (environ w)"
  shows "env_ok (environ (env_run calls w)) \<and> env_map (env_run calls w) = env_spec calls (env_map w)"
  using assms
proof (induction calls w rule: env_run.induct)
  case (2 k v ov calls w)
  let ?w = "snd (snd (setenv k v ov w))"
  have "env_ok (environ ?w)"
    using env_replace_spec(1) 2(2) by (auto simp: setenv_def posix_setenv_def)
  moreover have "env_map ?w =
      (if env_name k \<and> (ov \<or> env_map w k = None) then (env_map w)(k \<mapsto> v) else env_map w)"
    using env_replace_spec(2) [OF _ 2(2)] by (auto simp: setenv_def posix_setenv_def env_map_def fun_eq_iff)
  ultimately show ?case using 2(1) by simp
next
  case (3 k calls w)
  let ?w = "snd (snd (unsetenv k w))"
  have "env_ok (environ ?w)"
    using env_unset_spec(1) 3(2) by (auto simp: unsetenv_def posix_unsetenv_def)
  moreover have "env_map ?w = (env_map w)(k := None)"
    using env_unset_spec(2) [OF _ 3(2)] by (auto simp: unsetenv_def posix_unsetenv_def env_map_def fun_eq_iff)
  ultimately show ?case using 3(1) by (metis env_run.simps(3) env_spec.simps(3))
qed simp

text \<open>
  The environment is a map: after any calls of \<^verbatim>\<open>setenv\<close> and \<^verbatim>\<open>unsetenv\<close> the variables are those
  of the map on which the calls are done, \<^verbatim>\<open>getenv\<close> finds each of them, and \<^verbatim>\<open>getenvs\<close> lists
  them and nothing else. For a variable that is not set \<^verbatim>\<open>getenv\<close> reports the \<^verbatim>\<open>errno\<close> of the
  last call that failed.
\<close>

theorem environment_is_map:
  assumes "env_ok (environ w)" "env_name name"
  shows "getenv name (env_run calls w) =
      (case env_spec calls (env_map w) name of
         Some v \<Rightarrow> (Some v, no_error)
       | None \<Rightarrow> (None, errno (env_run calls w))) \<and>
    map_of (getenvs (env_run calls w)) = env_spec calls (env_map w)"
proof
  let ?w = "env_run calls w"
  have ok: "env_ok (environ ?w)" "env_map ?w = env_spec calls (env_map w)"
    using env_step [OF assms(1)] by auto
  show "getenv name ?w = (case env_spec calls (env_map w) name of
      Some v \<Rightarrow> (Some v, no_error) | None \<Rightarrow> (None, errno ?w))"
    using assms(2) by (simp add: getenv_def env_map_def flip: ok(2))
  show "map_of (getenvs ?w) = env_spec calls (env_map w)"
    unfolding ok(2) [symmetric] by (rule ext) (simp add: getenvs_def getenvs_spec [OF ok(1)] env_map_def)
qed

definition sample_calls :: "env_call list" where
  "sample_calls = [Setenv ''B'' ''x'' False, Setenv ''A'' ''y'' False, Setenv ''B='' ''z'' True, Unsetenv ''HOME'']"

theorem environment_is_map_witness:
  "getenv ''B'' (env_run sample_calls sample_process) = (Some ''x'', no_error) \<and>
   getenv ''A'' (env_run sample_calls sample_process) = (Some ''1=2'', no_error) \<and>
   getenv ''HOME'' (env_run sample_calls sample_process) = (None, EINVAL) \<and>
   getenvs (env_run sample_calls sample_process) = [(''A'', ''1=2''), (''B'', ''x'')]"
proof -
  have ok: "env_ok (environ sample_process)" by (simp add: env_ok_def sample_process_def)
  have run: "env_run sample_calls sample_process =
      sample_process\<lparr>environ := [''A=1=2'', ''B=x''], errno := EINVAL\<rparr>" by code_simp
  have "env_spec sample_calls (env_map sample_process) name =
      (if name = ''HOME'' then None else if name = ''A'' then Some ''1=2'' else if name = ''B'' then Some ''x''
       else env_map sample_process name)" for name
    by (simp add: sample_calls_def env_name_def) (simp add: env_map_def env_name_def sample_process_def starts_with_def)
  then show ?thesis
    using environment_is_map [OF ok, of "''B''" sample_calls] environment_is_map [OF ok, of "''A''" sample_calls]
      environment_is_map [OF ok, of "''HOME''" sample_calls]
    unfolding run by (simp add: env_name_def getenvs_def env_entry_def map_ensure_def)
qed

text \<open>
  Both names of directories end in a slash; the name of the directory of the program is the
  beginning of its path, up to the last slash.
\<close>

lemma rfind_char_nth: "rfind_char c s = Some i \<Longrightarrow> i < length s \<and> s ! i = c"
  by (auto simp: rfind_char_def rev_nth dest!: find_char_Some)

lemma directories_end_in_slash:
  "dir_path w = Some (d, no_error, w') \<Longrightarrow> ends_with ''/'' d"
  "ends_with ''/'' (fst (current_directory w))"
proof -
  show "ends_with ''/'' (fst (current_directory w))"
    by (auto simp: current_directory_def ends_with_def Let_def split: sum.splits prod.splits)
  have "ends_with ''/'' (take (i + 1) s)" if "rfind_char (CHR ''/'') s = Some i" for s i
    using rfind_char_nth [OF that] by (simp add: ends_with_def take_Suc_conv_app_nth)
  moreover have "ends_with ''/'' ''./''" by (simp add: ends_with_def)
  moreover assume "dir_path w = Some (d, no_error, w')"
  ultimately show "ends_with ''/'' d"
    by (auto simp: dir_path_def split: option.splits if_splits)
qed

end
