(* ===== verification/Dyn_Library.thy ===== *)
theory Dyn_Library
  imports App_Utils
begin

text \<open>
  Dynamic libraries (\<^verbatim>\<open>libgs/core/library.cpp\<close>, \<^verbatim>\<open>detail/library_impl.hii\<close> and
  \<^verbatim>\<open>detail/library_unix.cpp\<close>) on Linux. The dynamic linker is a parameter: the handle it has for
  a file it can open; it counts how often each handle is open. As POSIX has it, \<^verbatim>\<open>dlopen\<close> tells
  its errors through \<^verbatim>\<open>dlerror\<close> and does not set \<^verbatim>\<open>errno\<close>. The count of loads is a
  \<^verbatim>\<open>std::atomic_int\<close>, whose sums wrap at 32 bits.
\<close>

record library =
  m_file_name :: string
  m_load_count :: "32 word"
  m_handle :: "nat option"
  m_version :: string

record linker =
  refs :: "nat \<Rightarrow> nat"
  dl_errno :: nat

section \<open>The name of the file\<close>

definition candidates :: "string \<Rightarrow> string \<Rightarrow> string list" where
  "candidates name version =
     [name, name @ ''.so'', name @ ''.so.'' @ version] @
     (if CHR ''/'' \<notin> set name then
        [''lib'' @ name, ''lib'' @ name @ ''.so'', ''lib'' @ name @ ''.so.'' @ version]
      else [])"

fun first_existing :: "(string \<Rightarrow> bool) \<Rightarrow> process \<Rightarrow> string list \<Rightarrow> string \<Rightarrow> string option" where
  "first_existing exists w [] name = Some name"
| "first_existing exists w (c # cs) name =
     (case absolute_path c w of
        None \<Rightarrow> None
      | Some (abs_name, error, w) \<Rightarrow>
          if \<not> exists abs_name then first_existing exists w cs name else Some abs_name)"

definition set_lib_name :: "(string \<Rightarrow> bool) \<Rightarrow> process \<Rightarrow> string \<Rightarrow> library \<Rightarrow> library option" where
  "set_lib_name exists w name lib =
     (case first_existing exists w (candidates name (m_version lib)) name of
        None \<Rightarrow> None
      | Some n \<Rightarrow> Some (lib\<lparr>m_file_name := n\<rparr>))"

definition new_library :: "(string \<Rightarrow> bool) \<Rightarrow> process \<Rightarrow> string \<Rightarrow> string \<Rightarrow> library option" where
  "new_library exists w name version =
     set_lib_name exists w name \<lparr>m_file_name = [], m_load_count = 0, m_handle = None, m_version = version\<rparr>"

section \<open>Loading and unloading\<close>

definition ENOENT :: nat where
  "ENOENT = 2"

definition load_native ::
    "(string \<Rightarrow> bool) \<Rightarrow> (string \<Rightarrow> nat option) \<Rightarrow> library \<Rightarrow> linker \<Rightarrow> nat \<times> library \<times> linker" where
  "load_native exists dlopen lib ld =
     (if \<not> exists (m_file_name lib) then (ENOENT, lib, ld)
      else case dlopen (m_file_name lib) of
             None \<Rightarrow> (dl_errno ld, lib\<lparr>m_handle := None\<rparr>, ld)
           | Some h \<Rightarrow> (no_error, lib\<lparr>m_handle := Some h\<rparr>, ld\<lparr>refs := (refs ld)(h := refs ld h + 1)\<rparr>))"

text \<open>\<^verbatim>\<open>dlclose\<close> fails for a handle that is not open.\<close>

definition unload_native :: "nat \<Rightarrow> linker \<Rightarrow> nat \<times> linker" where
  "unload_native h ld =
     (if refs ld h = 0 then (dl_errno ld, ld)
      else (no_error, ld\<lparr>refs := (refs ld)(h := refs ld h - 1)\<rparr>))"

definition impl_load ::
    "(string \<Rightarrow> bool) \<Rightarrow> (string \<Rightarrow> nat option) \<Rightarrow> library \<Rightarrow> linker \<Rightarrow> nat \<times> library \<times> linker" where
  "impl_load exists dlopen lib ld =
     (if m_handle lib \<noteq> None then (no_error, lib\<lparr>m_load_count := m_load_count lib + 1\<rparr>, ld)
      else
        let (error, lib, ld) = load_native exists dlopen lib ld in
        if error = no_error then (error, lib\<lparr>m_load_count := m_load_count lib + 1\<rparr>, ld)
        else (error, lib, ld))"

text \<open>
  The error code passed in is left alone unless the library is closed. No member of the class
  calls this function.
\<close>

definition impl_unload :: "nat \<Rightarrow> library \<Rightarrow> linker \<Rightarrow> nat \<times> library \<times> linker" where
  "impl_unload error lib ld =
     (case m_handle lib of
        None \<Rightarrow> (error, lib, ld)
      | Some h \<Rightarrow>
          let lib = lib\<lparr>m_load_count := m_load_count lib - 1\<rparr> in
          if m_load_count lib = 0 then
            let (error, ld) = unload_native h ld in
            (error, if error = no_error then lib\<lparr>m_handle := None\<rparr> else lib, ld)
          else (error, lib, ld))"

text \<open>The two members of the class.\<close>

definition library_load ::
    "(string \<Rightarrow> bool) \<Rightarrow> (string \<Rightarrow> nat option) \<Rightarrow> library \<Rightarrow> linker \<Rightarrow> nat \<times> library \<times> linker" where
  "library_load = impl_load"

definition library_unload ::
    "(string \<Rightarrow> bool) \<Rightarrow> (string \<Rightarrow> nat option) \<Rightarrow> library \<Rightarrow> linker \<Rightarrow> nat \<times> library \<times> linker" where
  "library_unload = impl_load"

text \<open>Moving copies the handle and the count; the object moved from keeps them.\<close>

definition lib_moved :: "library \<Rightarrow> library \<times> library" where
  "lib_moved other = (other, other\<lparr>m_file_name := [], m_version := []\<rparr>)"

definition is_loaded :: "library \<Rightarrow> bool" where
  "is_loaded lib \<longleftrightarrow> m_handle lib \<noteq> None"

text \<open>\<^verbatim>\<open>dlsym\<close> is a parameter; an address of 0 is what it gives for a missing symbol.\<close>

definition lib_interface :: "(nat \<Rightarrow> string \<Rightarrow> nat) \<Rightarrow> library \<Rightarrow> string \<Rightarrow> nat res" where
  "lib_interface dlsym lib ifname =
     (case m_handle lib of None \<Rightarrow> Inl Runtime_error | Some h \<Rightarrow> Inr (dlsym h ifname))"

definition lib_exists :: "(nat \<Rightarrow> string \<Rightarrow> nat) \<Rightarrow> library \<Rightarrow> string \<Rightarrow> bool res" where
  "lib_exists dlsym lib ifname =
     (case m_handle lib of None \<Rightarrow> Inl Runtime_error | Some h \<Rightarrow> Inr (dlsym h ifname \<noteq> 0))"

section \<open>The count of the implementation\<close>

text \<open>
  What the two functions of the implementation promise to each other: up to the width of the
  count, the library is loaded exactly while some load is not undone, and the linker then holds
  one reference for it.
\<close>

definition counted :: "nat \<Rightarrow> nat \<Rightarrow> nat \<Rightarrow> library \<Rightarrow> linker \<Rightarrow> bool" where
  "counted h base n lib ld \<longleftrightarrow>
     n < 2 ^ 32 \<and> unat (m_load_count lib) = n \<and> m_handle lib = (if n = 0 then None else Some h) \<and>
     refs ld h = (if n = 0 then base else base + 1)"

lemma counted_load:
  assumes "counted h base n lib ld" "n + 1 < 2 ^ 32" "exists (m_file_name lib)" "dlopen (m_file_name lib) = Some h"
  shows "\<exists>lib' ld'. impl_load exists dlopen lib ld = (no_error, lib', ld') \<and> counted h base (n + 1) lib' ld' \<and>
    m_file_name lib' = m_file_name lib"
  using assms by (auto simp: counted_def impl_load_def load_native_def unat_word_ariths)

lemma counted_unload:
  assumes "counted h base (Suc n) lib ld"
  shows "\<exists>lib' ld'. impl_unload no_error lib ld = (no_error, lib', ld') \<and> counted h base n lib' ld' \<and>
    m_file_name lib' = m_file_name lib"
proof -
  have "m_load_count lib \<noteq> 0" using assms by (auto simp: counted_def)
  then have "unat (m_load_count lib - 1) = n"
    using assms unat_minus_one [of "m_load_count lib"] by (auto simp: counted_def)
  moreover from this have "m_load_count lib - 1 = 0 \<longleftrightarrow> n = 0" by (auto simp: unat_eq_0)
  ultimately show ?thesis using assms by (auto simp: counted_def impl_unload_def unload_native_def Let_def)
qed

text \<open>At the width of the count it is lost: the load that wraps it leaves a loaded library with count 0.\<close>

lemma load_count_wraps:
  assumes "m_load_count lib = - 1" "m_handle lib = Some h"
  shows "impl_load exists dlopen lib ld = (no_error, lib\<lparr>m_load_count := 0\<rparr>, ld)"
  using assms by (simp add: impl_load_def)

definition sample_library :: library where
  "sample_library = \<lparr>m_file_name = ''/l.so'', m_load_count = 0, m_handle = None, m_version = []\<rparr>"

section \<open>Programs\<close>

text \<open>What a program may do with its libraries.\<close>

datatype lib_op =
    New string string
  | Load nat
  | Unload nat
  | Move nat
  | Assign nat nat
  | Destroy nat

type_synonym lib_state = "library option list \<times> linker"

definition lib_step ::
    "(string \<Rightarrow> bool) \<Rightarrow> (string \<Rightarrow> nat option) \<Rightarrow> process \<Rightarrow> lib_state \<Rightarrow> lib_op \<Rightarrow> lib_state" where
  "lib_step exists dlopen w s c =
     (case s of (libs, ld) \<Rightarrow>
        let lib = (\<lambda>i. if i < length libs then libs ! i else None) in
        (case c of
           New name version \<Rightarrow> (libs @ [new_library exists w name version], ld)
         | Load i \<Rightarrow>
             (case lib i of None \<Rightarrow> s
              | Some l \<Rightarrow> (case library_load exists dlopen l ld of (error, l, ld) \<Rightarrow> (libs[i := Some l], ld)))
         | Unload i \<Rightarrow>
             (case lib i of None \<Rightarrow> s
              | Some l \<Rightarrow> (case library_unload exists dlopen l ld of (error, l, ld) \<Rightarrow> (libs[i := Some l], ld)))
         | Move i \<Rightarrow>
             (case lib i of None \<Rightarrow> s
              | Some l \<Rightarrow> (libs[i := Some (snd (lib_moved l))] @ [Some (fst (lib_moved l))], ld))
         | Assign i j \<Rightarrow>
             (case lib j of None \<Rightarrow> s
              | Some l \<Rightarrow>
                  if i = j \<or> lib i = None then s
                  else (libs[i := Some (fst (lib_moved l)), j := Some (snd (lib_moved l))], ld))
         | Destroy i \<Rightarrow> (libs[i := None], ld)))"

lemma impl_load_refs: "impl_load exists dlopen lib ld = (e, lib', ld') \<Longrightarrow> refs ld h \<le> refs ld' h"
  by (auto simp: impl_load_def load_native_def Let_def split: if_splits option.splits)

lemma lib_step_refs: "refs (snd s) h \<le> refs (snd (lib_step exists dlopen w s c)) h"
  by (auto simp: lib_step_def library_load_def library_unload_def Let_def dest!: impl_load_refs [where h = h]
      split: lib_op.splits option.splits prod.splits if_splits)

text \<open>
  No program closes a library: the member that unloads calls the one that loads, and destroying
  an object closes nothing. Whatever a program does, the linker gives up no reference, and
  unloading a library that was never loaded loads it.
\<close>

theorem never_unloaded:
  "refs (snd s) h \<le> refs (snd (foldl (lib_step exists dlopen w) s ops)) h \<and>
   library_unload exists dlopen = library_load exists dlopen"
proof
  show "refs (snd s) h \<le> refs (snd (foldl (lib_step exists dlopen w) s ops)) h"
  proof (induction ops arbitrary: s)
    case (Cons c ops)
    show ?case using order_trans [OF lib_step_refs Cons.IH] by simp
  qed simp
qed (simp add: library_load_def library_unload_def)

text \<open>
  A library that cannot be opened is reported by the \<^verbatim>\<open>errno\<close> of some earlier call. If that is
  zero, the load succeeds, counts itself and leaves a library that is not loaded.
\<close>

theorem failed_load_succeeds:
  assumes "exists (m_file_name lib)" "dlopen (m_file_name lib) = None" "\<not> is_loaded lib" "dl_errno ld = no_error"
  shows "case library_load exists dlopen lib ld of (error, lib', ld') \<Rightarrow>
    error = no_error \<and> m_load_count lib' = m_load_count lib + 1 \<and> \<not> is_loaded lib' \<and>
    lib_interface dlsym lib' name = Inl Runtime_error"
  using assms by (simp add: library_load_def impl_load_def load_native_def is_loaded_def lib_interface_def)

theorem failed_load_succeeds_witness:
  "case library_load (\<lambda>_. True) (\<lambda>_. None) sample_library \<lparr>refs = \<lambda>_. 0, dl_errno = 0\<rparr> of
     (error, lib, ld) \<Rightarrow> error = no_error \<and> m_load_count lib = 1 \<and> \<not> is_loaded lib"
  using failed_load_succeeds [of "\<lambda>_. True" sample_library "\<lambda>_. None" "\<lparr>refs = \<lambda>_. 0, dl_errno = 0\<rparr>"
      "\<lambda>_ _. 0" "''f''"]
  by (auto simp: sample_library_def is_loaded_def no_error_def split: prod.splits)

text \<open>The file is the first candidate there is, by its absolute path.\<close>

lemma first_existing_cases:
  assumes "first_existing exists w cs name = Some n"
  shows "n = name \<or> (\<exists>c \<in> set cs. \<exists>w w'. absolute_path c w = Some (n, no_error, w') \<and> exists n)"
  using assms
proof (induction cs arbitrary: w)
  case (Cons c cs)
  obtain a e w' where a: "absolute_path c w = Some (a, e, w')" using Cons.prems by (cases "absolute_path c w") auto
  moreover have "e = no_error" using a by (auto simp: absolute_path_def split: option.splits)
  ultimately show ?case using Cons.IH [of w'] Cons.prems by (auto split: if_splits)
qed simp

end
