(* ===== verification/Socket_Helper.thy ===== *)
theory Socket_Helper
  imports Prelude
begin

text \<open>
  Reading and writing a socket (\<^verbatim>\<open>libgs/http/cxx/detail/socket_operation_helper.h\<close>): loops
  that resume after an interrupted call where the last one stopped. What asio does is a list
  of outcomes, one for each call: for the synchronous functions the error of
  \<^verbatim>\<open>non_blocking(false)\<close>, then the number of bytes moved and the error of the transfer. A list
  that runs out is a call that has not returned (\<^const>\<open>None\<close>). asio documents that a transfer
  moves at most the bytes it was given, and \<^verbatim>\<open>asio::write\<close> all of them unless it fails.
\<close>

datatype io_error = No_error | Interrupted | Io_failed nat

type_synonym transfer = "nat \<times> io_error"

section \<open>The loops\<close>

text \<open>
  \<^verbatim>\<open>write\<close> with \<^verbatim>\<open>asio::async_write\<close>: what goes out, and on return \<^verbatim>\<open>sum\<close> with the error.
\<close>

fun helper_co_write :: "string \<Rightarrow> nat \<Rightarrow> transfer list \<Rightarrow> string \<times> (nat \<times> io_error) option" where
  "helper_co_write buffer got [] = ([], None)"
| "helper_co_write buffer got ((n, error) # calls) =
     (let asio_buf = drop got buffer; got' = got + n
      in if error = Interrupted then map_prod (append (take n asio_buf)) id (helper_co_write buffer got' calls)
         else (take n asio_buf, Some (got', error)))"

fun sync_write :: "string \<Rightarrow> nat \<Rightarrow> (io_error \<times> transfer) list \<Rightarrow> string \<times> (nat \<times> io_error) option" where
  "sync_write buffer got [] = ([], None)"
| "sync_write buffer got ((blocking, n, error) # calls) =
     (if blocking \<noteq> No_error then ([], Some (got, blocking))
      else
        let asio_buf = drop got buffer; got' = got + n
        in if error = Interrupted then map_prod (append (take n asio_buf)) id (sync_write buffer got' calls)
           else (take n asio_buf, Some (got', error)))"

text \<open>\<^verbatim>\<open>read\<close> with \<^verbatim>\<open>async_read_some\<close>: each call stores the bytes it was given at \<^verbatim>\<open>sum\<close>.\<close>

fun co_read_some :: "string \<Rightarrow> nat \<Rightarrow> (string \<times> io_error) list \<Rightarrow> string \<times> (nat \<times> io_error) option" where
  "co_read_some buffer got [] = (buffer, None)"
| "co_read_some buffer got ((bytes, error) # calls) =
     (let buffer' = take got buffer @ bytes @ drop (got + length bytes) buffer; got' = got + length bytes
      in if error = Interrupted then co_read_some buffer' got' calls
         else (buffer', Some (got', error)))"

text \<open>The overloads that throw: \<^verbatim>\<open>system_error\<close> in place of the error.\<close>

definition checked :: "'a \<times> (nat \<times> io_error) option \<Rightarrow> 'a \<times> nat res option" where
  "checked r =
     (case r of (d, None) \<Rightarrow> (d, None)
      | (d, Some (got, error)) \<Rightarrow> (d, Some (if error = No_error then Inr got else Inl Runtime_error)))"

section \<open>What asio documents\<close>

fun write_calls_ok :: "nat \<Rightarrow> transfer list \<Rightarrow> bool" where
  "write_calls_ok room [] \<longleftrightarrow> True"
| "write_calls_ok room ((n, error) # calls) \<longleftrightarrow>
     n \<le> room \<and> (error = No_error \<longrightarrow> n = room) \<and> write_calls_ok (room - n) calls"

fun read_calls_ok :: "nat \<Rightarrow> (string \<times> io_error) list \<Rightarrow> bool" where
  "read_calls_ok room [] \<longleftrightarrow> True"
| "read_calls_ok room ((bytes, error) # calls) \<longleftrightarrow>
     length bytes \<le> room \<and> read_calls_ok (room - length bytes) calls"

section \<open>Lemmas\<close>

lemma helper_co_write_sent:
  assumes "write_calls_ok (length buffer - got) calls" "got \<le> length buffer"
  shows "case helper_co_write buffer got calls of
      (sent, None) \<Rightarrow> prefix sent (drop got buffer)
    | (sent, Some (got', error)) \<Rightarrow> got \<le> got' \<and> got' \<le> length buffer \<and> error \<noteq> Interrupted \<and>
        sent = take (got' - got) (drop got buffer) \<and> (error = No_error \<longrightarrow> got' = length buffer)"
  using assms
proof (induction buffer got calls rule: helper_co_write.induct)
  case (2 buffer got n error calls)
  have n: "n \<le> length buffer - got" "got + n \<le> length buffer" using "2.prems" by auto
  have split: "drop got buffer = take n (drop got buffer) @ drop (got + n) buffer"
    by (metis append_take_drop_id drop_drop add.commute)
  show ?case
  proof (cases "error = Interrupted")
    case True
    obtain sent r where w: "helper_co_write buffer (got + n) calls = (sent, r)" by (cases "helper_co_write buffer (got + n) calls")
    have ih: "case (sent, r) of
        (sent, None) \<Rightarrow> prefix sent (drop (got + n) buffer)
      | (sent, Some (got', error)) \<Rightarrow> got + n \<le> got' \<and> got' \<le> length buffer \<and> error \<noteq> Interrupted \<and>
          sent = take (got' - (got + n)) (drop (got + n) buffer) \<and> (error = No_error \<longrightarrow> got' = length buffer)"
      using "2.IH" [OF refl refl True] "2.prems" n True by (simp add: w [symmetric] diff_diff_left)
    show ?thesis
    proof (cases r)
      case None
      then have "prefix (take n (drop got buffer) @ sent) (drop got buffer)"
        using ih by (subst split) simp
      then show ?thesis using True w None by simp
    next
      case (Some se)
      obtain got' e where se: "se = (got', e)" by (cases se)
      have "take (got' - got) (drop got buffer) = take n (drop got buffer) @ take (got' - (got + n)) (drop (got + n) buffer)"
        if "got + n \<le> got'"
        using take_add [of n "got' - (got + n)" "drop got buffer"] that by (simp add: add.commute)
      then show ?thesis using ih True w Some se by auto
    qed
  next
    case False
    then show ?thesis using "2.prems" n by auto
  qed
qed simp

lemma sync_write_co:
  "list_all (\<lambda>(blocking, _). blocking = No_error) calls \<Longrightarrow> sync_write buffer got calls = helper_co_write buffer got (map snd calls)"
  by (induction buffer got calls rule: sync_write.induct) (simp_all add: Let_def)

lemma co_read_some_stored:
  assumes "read_calls_ok (length buffer - got) calls" "got \<le> length buffer"
  shows "case co_read_some buffer got calls of (buffer', r) \<Rightarrow>
     length buffer' = length buffer \<and> take got buffer' = take got buffer \<and>
     (case r of None \<Rightarrow> True | Some (got', error) \<Rightarrow> got \<le> got' \<and> got' \<le> length buffer \<and> error \<noteq> Interrupted \<and>
        drop got' buffer' = drop got' buffer \<and>
        prefix (take (got' - got) (drop got buffer')) (concat (map fst calls)))"
  using assms
proof (induction buffer got calls rule: co_read_some.induct)
  case (2 buffer got bytes error calls)
  define b where "b = take got buffer @ bytes @ drop (got + length bytes) buffer"
  have n: "got + length bytes \<le> length buffer" using "2.prems" by auto
  then have len: "length b = length buffer" "take got b = take got buffer" "take (got + length bytes) b = take got buffer @ bytes"
    "got' \<ge> got + length bytes \<Longrightarrow> drop got' b = drop got' buffer" for got'
    by (simp_all add: b_def)
  show ?case
  proof (cases "error = Interrupted")
    case True
    obtain b' r where w: "co_read_some b (got + length bytes) calls = (b', r)"
      by (cases "co_read_some b (got + length bytes) calls")
    have "read_calls_ok (length b - (got + length bytes)) calls" "got + length bytes \<le> length b"
      using "2.prems" n len(1) by (simp_all add: diff_diff_left)
    from "2.IH" [OF b_def refl True this] have ih: "length b' = length buffer" "take (got + length bytes) b' = take got buffer @ bytes"
      "case r of None \<Rightarrow> True | Some (got', error) \<Rightarrow> got + length bytes \<le> got' \<and> got' \<le> length buffer \<and> error \<noteq> Interrupted \<and>
        drop got' b' = drop got' b \<and> prefix (take (got' - (got + length bytes)) (drop (got + length bytes) b')) (concat (map fst calls))"
      unfolding w len(1,3) by simp_all
    have "take got (take (got + length bytes) b') = take got b'" by simp
    then have t: "take got b' = take got buffer" unfolding ih(2) using n by simp
    have step: "take (got' - got) (drop got b') = bytes @ take (got' - (got + length bytes)) (drop (got + length bytes) b')"
      if "got + length bytes \<le> got'" for got'
    proof -
      have "take (length bytes) (drop got b') = bytes"
        using ih(2) n by (simp add: take_drop add.commute)
      then have "drop got b' = bytes @ drop (got + length bytes) b'"
        using append_take_drop_id [of "length bytes" "drop got b'"] by (simp add: add.commute)
      then have "take (got' - got) (drop got b') = take (got' - got) (bytes @ drop (got + length bytes) b')" by simp
      then show ?thesis using that by (simp add: diff_diff_left)
    qed
    have "co_read_some buffer got ((bytes, error) # calls) = (b', r)"
      using True w by (simp add: b_def Let_def)
    then show ?thesis using ih t step n len(4) by (cases r) auto
  next
    case False
    then have "co_read_some buffer got ((bytes, error) # calls) = (b, Some (got + length bytes, error))"
      by (simp add: b_def Let_def)
    moreover have "take (length bytes) (drop got b) = bytes" using n by (simp add: b_def)
    ultimately show ?thesis using n len False by auto
  qed
qed simp

section \<open>Properties\<close>

text \<open>C17.
  Whatever the interruptions, the bytes that \<^verbatim>\<open>write\<close> has sent are the first \<^verbatim>\<open>sum\<close> bytes of
  the buffer, without gap or repetition, and all of them when there was no error; it never
  reports an interruption. The synchronous function does the same.
\<close>

theorem write_resumes:
  assumes "write_calls_ok (length buffer) (map snd calls)" "list_all (\<lambda>(blocking, _). blocking = No_error) calls"
    "helper_co_write buffer 0 (map snd calls) = (sent, Some (n, error))"
  shows "sent = take n buffer \<and> n \<le> length buffer \<and> error \<noteq> Interrupted \<and>
    (error = No_error \<longrightarrow> sent = buffer) \<and> sync_write buffer 0 calls = (sent, Some (n, error))"
  using helper_co_write_sent [of buffer 0 "map snd calls"] assms sync_write_co [OF assms(2), of buffer 0] by auto

theorem write_resumes_witness:
  "sync_write ''abcdef'' 0 [(No_error, 2, Interrupted), (No_error, 4, No_error)] = (''abcdef'', Some (6, No_error))"
  using write_resumes [of "''abcdef''" "[(No_error, 2, Interrupted), (No_error, 4, No_error)]" "''abcdef''" 6 No_error]
  by simp

text \<open>
  \<^verbatim>\<open>read\<close> stores what the calls deliver one after the other from the beginning of the buffer,
  never past its end, and keeps the rest of the buffer.
\<close>

theorem read_resumes:
  assumes "read_calls_ok (length buffer) calls" "co_read_some buffer 0 calls = (buffer', Some (n, error))"
  shows "length buffer' = length buffer \<and> n \<le> length buffer \<and> prefix (take n buffer') (concat (map fst calls)) \<and>
    drop n buffer' = drop n buffer \<and> error \<noteq> Interrupted"
  using co_read_some_stored [of buffer 0 calls] assms by auto

theorem read_resumes_witness:
  "co_read_some ''------'' 0 [(''ab'', Interrupted), (''c'', No_error)] = (''abc---'', Some (3, No_error)) \<and>
   prefix ''abc'' (concat (map fst [(''ab'', Interrupted), (''c'', No_error)]))"
  using read_resumes [of "''------''" "[(''ab'', Interrupted), (''c'', No_error)]" "''abc---''" 3 No_error] by simp

end
