(* ===== verification/Session_Pool.thy ===== *)
theory Session_Pool
  imports Std_Map
begin

text \<open>
  The implementation of the pool of connections of a client
  (\<^verbatim>\<open>basic_session_pool::impl\<close> of \<^verbatim>\<open>libgs/http/client/detail/session_pool.h\<close>) and the
  sessions it hands out (\<^verbatim>\<open>libgs/http/cxx/detail/socket_session.h\<close>). A socket is the record of
  its connection: an identity of the model, whether it is open and the endpoint it is
  connected to; a moved-from socket is not kept. Endpoints are of any linearly ordered type.
  Connecting is an event of the run, with any result: asio documents that \<^verbatim>\<open>connect\<close> opens the
  socket, does not close it again when it fails, and fails on one that is connected. A function dispatched
  to the executor waits in a list until it is delivered, in any order.

  Of the public \<^verbatim>\<open>get\<close>, the synchronous overloads cannot be instantiated (line 147) and are not
  modelled. The asynchronous one takes a session from the implementation, connects its socket
  and hands it over, which are events of the runs; with a connection of the pool it hands the
  session over first, connects it again and then calls its handler a second time, which is undefined
  (\<open>co_get_twice\<close>): the runs say nothing beyond that call.
\<close>

section \<open>Sockets and sessions\<close>

record 'e sock =
  sk_id :: nat
  sk_open :: bool
  sk_remote :: "'e option"

definition new_socket :: "nat \<Rightarrow> 'e sock" where
  "new_socket i = \<lparr>sk_id = i, sk_open = False, sk_remote = None\<rparr>"

definition connect :: "bool \<Rightarrow> 'e \<Rightarrow> 'e sock \<Rightarrow> 'e sock" where
  "connect success ep s =
     (if sk_remote s \<noteq> None then s
      else s\<lparr>sk_open := True, sk_remote := (if success then Some ep else None)\<rparr>)"

definition close_socket :: "'e sock \<Rightarrow> 'e sock" where
  "close_socket s = s\<lparr>sk_open := False, sk_remote := None\<rparr>"

text \<open>\<^verbatim>\<open>remote_endpoint()\<close> throws for a socket that is not connected.\<close>

definition remote_endpoint :: "'e sock \<Rightarrow> 'e res" where
  "remote_endpoint s = (case sk_remote s of None \<Rightarrow> Inl Runtime_error | Some ep \<Rightarrow> Inr ep)"

text \<open>A session owns its socket; its destructor passes the socket on when it has a function.\<close>

record 'e sock_session =
  m_destructor :: bool
  m_socket :: "'e sock"

definition move_assign :: "'e sock \<Rightarrow> 'e sock_session \<Rightarrow> 'e sock_session" where
  "move_assign s sess = sess\<lparr>m_socket := s\<rparr>"

definition session_end :: "'e sock_session \<Rightarrow> 'e sock list" where
  "session_end sess = (if m_destructor sess then [m_socket sess] else [])"

section \<open>The pool\<close>

type_synonym 'e sock_map = "('e, 'e sock) std_map"

definition pool_get :: "('e :: linorder) \<Rightarrow> nat \<Rightarrow> 'e sock_map \<Rightarrow> 'e sock_session \<times> 'e sock_map" where
  "pool_get ep fresh m =
     (case map_of m ep of
        None \<Rightarrow> (\<lparr>m_destructor = True, m_socket = new_socket fresh\<rparr>, m)
      | Some s \<Rightarrow> (\<lparr>m_destructor = True, m_socket = s\<rparr>, filter (\<lambda>x. fst x \<noteq> ep) m))"

text \<open>\<^verbatim>\<open>map::emplace\<close> keeps the element of a key that is there.\<close>

definition pool_emplace :: "('e :: linorder) sock \<Rightarrow> 'e sock_map \<Rightarrow> 'e sock_map res" where
  "pool_emplace s m =
     (if sk_open s then
        res_bind (remote_endpoint s) (\<lambda>ep. Inr (map_ensure m ep s))
      else Inr m)"

text \<open>
  The asynchronous overload: the completions of its handler, each with an error, and the
  socket on which \<^verbatim>\<open>connect\<close> is called. \<open>outcome\<close> is what the race of \<^verbatim>\<open>connect\<close> and the timer gives.
\<close>

datatype connect_outcome = Connected | Connect_failed | Timed_out

definition outcome_error :: "connect_outcome \<Rightarrow> bool" where
  "outcome_error r \<longleftrightarrow> r \<noteq> Connected"

definition co_get ::
  "('e :: linorder) \<Rightarrow> nat \<Rightarrow> connect_outcome \<Rightarrow> 'e sock_map \<Rightarrow> bool list \<times> 'e sock \<times> 'e sock_map" where
  "co_get ep fresh outcome m =
     (let (sess, m) = pool_get ep fresh m;
          first = (if sk_open (m_socket sess) then [False] else [])
      in (first @ [outcome_error outcome], m_socket sess, m))"

section \<open>Runs\<close>

text \<open>
  A session that ends asks the pool for its executor, so that no session may outlive the pool.
  The pool with the sessions alive, by a number, and the sockets that wait in dispatched
  functions. \<open>p_next\<close> numbers sockets and sessions.
\<close>

record 'e pool =
  m_valid :: bool
  m_sock_map :: "'e sock_map"
  p_sessions :: "(nat \<times> 'e sock_session) list"
  p_dispatched :: "'e sock list"
  p_next :: nat

definition new_pool :: "'e pool" where
  "new_pool = \<lparr>m_valid = True, m_sock_map = [], p_sessions = [], p_dispatched = [], p_next = 0\<rparr>"

definition add_session :: "'e sock_session \<Rightarrow> 'e pool \<Rightarrow> 'e pool" where
  "add_session sess p = p\<lparr>p_sessions := (p_next p, sess) # p_sessions p, p_next := Suc (p_next p)\<rparr>"

definition deliver :: "('e :: linorder) sock \<Rightarrow> 'e pool \<Rightarrow> 'e pool res" where
  "deliver s p =
     (if m_valid p then res_bind (pool_emplace s (m_sock_map p)) (\<lambda>m. Inr (p\<lparr>m_sock_map := m\<rparr>)) else Inr p)"

inductive pool_run :: "('e :: linorder) pool \<Rightarrow> bool" where
  run_new: "pool_run new_pool"
| run_get: "pool_run p \<Longrightarrow> m_valid p \<Longrightarrow> pool_get ep (p_next p) (m_sock_map p) = (sess, m) \<Longrightarrow>
    pool_run (add_session sess (p\<lparr>m_sock_map := m\<rparr>))"
| run_connect: "pool_run p \<Longrightarrow> p_sessions p = xs @ (i, sess) # ys \<Longrightarrow>
    pool_run (p\<lparr>p_sessions := xs @ (i, sess\<lparr>m_socket := connect success ep (m_socket sess)\<rparr>) # ys\<rparr>)"
| run_close: "pool_run p \<Longrightarrow> p_sessions p = xs @ (i, sess) # ys \<Longrightarrow>
    pool_run (p\<lparr>p_sessions := xs @ (i, sess\<lparr>m_socket := close_socket (m_socket sess)\<rparr>) # ys\<rparr>)"
| run_assign: "pool_run p \<Longrightarrow> p_sessions p = xs @ (i, sess) # ys \<Longrightarrow> s = connect success ep (new_socket (p_next p)) \<Longrightarrow>
    pool_run (p\<lparr>p_sessions := xs @ (i, move_assign s sess) # ys, p_next := Suc (p_next p)\<rparr>)"
| run_end: "pool_run p \<Longrightarrow> m_valid p \<Longrightarrow> p_sessions p = xs @ (i, sess) # ys \<Longrightarrow>
    pool_run (p\<lparr>p_sessions := xs @ ys, p_dispatched := p_dispatched p @ session_end sess\<rparr>)"
| run_deliver: "pool_run p \<Longrightarrow> p_dispatched p = xs @ s # ys \<Longrightarrow> deliver s (p\<lparr>p_dispatched := xs @ ys\<rparr>) = Inr p' \<Longrightarrow>
    pool_run p'"
| run_throwing: "pool_run p \<Longrightarrow> p_dispatched p = xs @ s # ys \<Longrightarrow> deliver s (p\<lparr>p_dispatched := xs @ ys\<rparr>) = Inl e \<Longrightarrow>
    pool_run (p\<lparr>p_dispatched := xs @ ys\<rparr>)"
| run_emplace: "pool_run p \<Longrightarrow> m_valid p \<Longrightarrow> pool_emplace (connect True ep (new_socket (p_next p))) (m_sock_map p) = Inr m \<Longrightarrow>
    pool_run (p\<lparr>m_sock_map := m, p_next := Suc (p_next p)\<rparr>)"
| run_destroy: "pool_run p \<Longrightarrow> pool_run (p\<lparr>m_valid := False, m_sock_map := []\<rparr>)"

text \<open>The connections that someone holds, and what holds of them in every run.\<close>

definition held :: "'e pool \<Rightarrow> nat list" where
  "held p = map (\<lambda>x. sk_id (snd x)) (m_sock_map p) @ map (\<lambda>x. sk_id (m_socket (snd x))) (p_sessions p) @
     map sk_id (p_dispatched p)"

definition pool_ok :: "('e :: linorder) pool \<Rightarrow> bool" where
  "pool_ok p \<longleftrightarrow> distinct (held p) \<and> (\<forall>i \<in> set (held p). i < p_next p) \<and> sorted_keys (m_sock_map p) \<and>
     (\<forall>(ep, s) \<in> set (m_sock_map p). sk_open s \<and> sk_remote s = Some ep)"

section \<open>Lemmas\<close>

lemma sorted_keys_filter: "sorted_keys m \<Longrightarrow> sorted_keys (filter P m)"
  by (simp add: sorted_keys_def sorted_wrt_map sorted_wrt_filter)

lemma sorted_keys_split:
  assumes "sorted_keys m" "map_of m k = Some v"
  obtains xs ys where "m = xs @ (k, v) # ys" "filter (\<lambda>x. fst x \<noteq> k) m = xs @ ys"
proof -
  obtain xs ys where m: "m = xs @ (k, v) # ys" using map_of_SomeD [OF assms(2)] by (meson split_list)
  have "\<forall>x \<in> set (xs @ ys). fst x \<noteq> k"
    using assms(1) unfolding m by (auto simp: sorted_keys_append)
  then have "filter (\<lambda>x. fst x \<noteq> k) m = xs @ ys" by (simp add: m filter_id_conv)
  with m that show ?thesis by blast
qed

lemma map_put_new:
  assumes "map_of m k = None"
  obtains xs ys where "m = xs @ ys" "map_put m k v = xs @ (k, v) # ys"
proof -
  from assms have "\<exists>xs ys. m = xs @ ys \<and> map_put m k v = xs @ (k, v) # ys"
  proof (induction m k v rule: map_put.induct)
    case (2 k' v' m k v)
    show ?case
    proof (cases "k < k'")
      case False
      then obtain xs ys where "m = xs @ ys" "map_put m k v = xs @ (k, v) # ys"
        using 2 by (auto split: if_splits)
      then have "(k', v') # m = ((k', v') # xs) @ ys \<and> map_put ((k', v') # m) k v = ((k', v') # xs) @ (k, v) # ys"
        using 2 False by (auto split: if_splits)
      then show ?thesis by blast
    qed (rule exI [of _ "[]"], auto)
  qed simp
  then show ?thesis using that by blast
qed

text \<open>What the pool gives up and takes, as splits of its list.\<close>

lemma pool_get_cases:
  assumes "pool_get ep fresh m = (sess, m')" "sorted_keys m"
  obtains (none) "map_of m ep = None" "m' = m" "sess = \<lparr>m_destructor = True, m_socket = new_socket fresh\<rparr>"
  | (reused) xs s ys where "m = xs @ (ep, s) # ys" "m' = xs @ ys" "sess = \<lparr>m_destructor = True, m_socket = s\<rparr>"
proof (cases "map_of m ep")
  case (Some s)
  obtain xs ys where "m = xs @ (ep, s) # ys" "filter (\<lambda>x. fst x \<noteq> ep) m = xs @ ys"
    by (rule sorted_keys_split [OF assms(2) Some])
  then show ?thesis using assms(1) Some reused by (simp add: pool_get_def)
next
  case None
  then show ?thesis using assms(1) by (intro none) (simp_all add: pool_get_def)
qed

lemma pool_emplace_cases:
  assumes "pool_emplace s m = Inr m'"
  obtains (kept) "m' = m"
  | (stored) xs ep ys where "m = xs @ ys" "m' = xs @ (ep, s) # ys" "sk_open s" "sk_remote s = Some ep" "map_of m ep = None"
proof (cases "sk_open s")
  case True
  then obtain ep where ep: "sk_remote s = Some ep" "m' = map_ensure m ep s"
    using assms by (auto simp: pool_emplace_def remote_endpoint_def res_bind_def split: option.splits)
  show ?thesis
  proof (cases "map_of m ep")
    case None
    then have "m' = map_put m ep s" using ep by (simp add: map_ensure_def)
    moreover obtain xs ys where "m = xs @ ys" "map_put m ep s = xs @ (ep, s) # ys" by (rule map_put_new [OF None])
    ultimately show ?thesis using ep True None stored by simp
  next
    case (Some t)
    then show ?thesis using ep by (intro kept) (simp add: map_ensure_def)
  qed
next
  case False
  then show ?thesis using assms by (intro kept) (simp add: pool_emplace_def)
qed

lemma pool_ok_new: "pool_ok new_pool"
  by (simp add: pool_ok_def new_pool_def held_def)

lemma connect_simps [simp]:
  "sk_id (connect success ep s) = sk_id s" "sk_id (close_socket s) = sk_id s" "sk_id (new_socket i) = i"
  by (simp_all add: connect_def close_socket_def new_socket_def)

lemma pool_ok_next:
  assumes "pool_ok p"
  shows "pool_ok (p\<lparr>p_next := Suc (p_next p)\<rparr>)" "p_next p \<notin> set (held (p\<lparr>p_next := Suc (p_next p)\<rparr>))"
proof -
  have "held (p\<lparr>p_next := Suc (p_next p)\<rparr>) = held p" by (simp add: held_def)
  then show "pool_ok (p\<lparr>p_next := Suc (p_next p)\<rparr>)" "p_next p \<notin> set (held (p\<lparr>p_next := Suc (p_next p)\<rparr>))"
    using assms by (auto simp: pool_ok_def intro: less_SucI)
qed

lemma pool_ok_get:
  assumes "pool_ok p" "pool_get ep (p_next p) (m_sock_map p) = (sess, m)"
  shows "pool_ok (add_session sess (p\<lparr>m_sock_map := m\<rparr>))"
proof -
  have "sorted_keys (m_sock_map p)" using assms(1) by (simp add: pool_ok_def)
  with assms(2) show ?thesis
  proof (cases rule: pool_get_cases)
    case none
    then show ?thesis using pool_ok_next [OF assms(1)] by (auto simp: pool_ok_def held_def add_session_def)
  next
    case (reused xs t ys)
    then show ?thesis using pool_ok_next(1) [OF assms(1)]
      by (auto simp: pool_ok_def held_def add_session_def sorted_keys_append)
  qed
qed

lemma pool_ok_emplace:
  assumes "pool_ok p" "pool_emplace s (m_sock_map p) = Inr m" "sk_id s \<notin> set (held p)" "sk_id s < p_next p"
  shows "pool_ok (p\<lparr>m_sock_map := m\<rparr>)"
  using assms(2)
proof (cases rule: pool_emplace_cases)
  case kept
  then show ?thesis using assms(1) by simp
next
  case (stored xs ep ys)
  have "sorted_keys (map_put (m_sock_map p) ep s)" using assms(1) by (auto simp: pool_ok_def)
  moreover have "m = map_put (m_sock_map p) ep s"
    using assms(2) stored(3-5) by (simp add: pool_emplace_def remote_endpoint_def res_bind_def map_ensure_def)
  ultimately have "sorted_keys (xs @ (ep, s) # ys)" using stored(2) by simp
  then show ?thesis using assms(1,3,4) stored by (auto simp: pool_ok_def held_def)
qed

lemma pool_ok_undispatch:
  assumes "pool_ok p" "p_dispatched p = xs @ s # ys"
  shows "pool_ok (p\<lparr>p_dispatched := xs @ ys\<rparr>)" "sk_id s \<notin> set (held (p\<lparr>p_dispatched := xs @ ys\<rparr>))" "sk_id s < p_next p"
  using assms by (auto simp: pool_ok_def held_def)

lemma pool_run_ok: "pool_run p \<Longrightarrow> pool_ok p"
proof (induction rule: pool_run.induct)
  case run_new
  show ?case by (rule pool_ok_new)
next
  case (run_get p ep sess m)
  then show ?case by (blast intro: pool_ok_get)
next
  case (run_connect p xs i sess ys success ep)
  then show ?case by (auto simp: pool_ok_def held_def)
next
  case (run_close p xs i sess ys)
  then show ?case by (auto simp: pool_ok_def held_def)
next
  case (run_assign p xs i sess ys s success ep)
  show ?case using pool_ok_next [OF run_assign.IH] run_assign.hyps(2,3) by (auto simp: pool_ok_def held_def move_assign_def)
next
  case (run_end p xs i sess ys)
  then show ?case by (auto simp: pool_ok_def held_def session_end_def)
next
  case (run_deliver p xs s ys p')
  note q = pool_ok_undispatch [OF run_deliver.IH run_deliver.hyps(2)]
  show ?case
  proof (cases "m_valid p")
    case True
    then obtain m where "pool_emplace s (m_sock_map p) = Inr m" "p' = p\<lparr>p_dispatched := xs @ ys, m_sock_map := m\<rparr>"
      using run_deliver.hyps(3) by (auto simp: deliver_def res_bind_def split: sum.splits)
    then show ?thesis using pool_ok_emplace [OF q(1) _ q(2), of m] q(3) by simp
  next
    case False
    then show ?thesis using q run_deliver.hyps(3) by (simp add: deliver_def)
  qed
next
  case (run_throwing p xs s ys e)
  then show ?case using pool_ok_undispatch(1) by blast
next
  case (run_emplace p ep m)
  let ?p = "p\<lparr>p_next := Suc (p_next p)\<rparr>"
  have "p\<lparr>p_next := n, m_sock_map := m\<rparr> = p\<lparr>m_sock_map := m, p_next := n\<rparr>" for n by simp
  with pool_ok_next [OF run_emplace.IH] pool_ok_emplace [of ?p "connect True ep (new_socket (p_next p))" m] run_emplace.hyps(3) show ?case by simp
next
  case (run_destroy p)
  then show ?case by (auto simp: pool_ok_def held_def)
qed

lemma map_erase_put: "map_of m k = None \<Longrightarrow> filter (\<lambda>x. fst x \<noteq> k) (map_put m k v) = m"
proof -
  assume none: "map_of m k = None"
  obtain xs ys where "m = xs @ ys" "map_put m k v = xs @ (k, v) # ys" by (rule map_put_new [OF none])
  moreover have "\<forall>x \<in> set m. fst x \<noteq> k" using none by (auto simp: map_of_eq_None_iff)
  ultimately show ?thesis by (simp add: filter_id_conv)
qed

section \<open>Properties\<close>

text \<open>C16.
  In every run of the implementation of the pool, with any gets, connects, closes, replacements
  and ends of sessions, returns in any order and the destruction of the pool: no
  connection is held twice by the pool, the sessions and the pending returns, what the
  pool keeps is open and connected to the endpoint it is kept for, one for each endpoint, and
  a get for such an endpoint takes it out of the pool.
\<close>

theorem pool_exclusive:
  assumes "pool_run p"
  shows "distinct (held p) \<and> distinct (map fst (m_sock_map p)) \<and>
    list_all (\<lambda>(ep, s). sk_open s \<and> sk_remote s = Some ep \<and>
      (\<exists>m. pool_get ep fresh (m_sock_map p) = (\<lparr>m_destructor = True, m_socket = s\<rparr>, m) \<and> map_of m ep = None)) (m_sock_map p)"
proof -
  have d: "distinct (map fst (m_sock_map p))" and ok: "pool_ok p"
    using pool_run_ok [OF assms] by (auto simp: pool_ok_def sorted_keys_def strict_sorted_iff)
  have "map_of (filter (\<lambda>x. fst x \<noteq> ep) (m_sock_map p)) ep = None" for ep by (auto simp: map_of_eq_None_iff)
  then show ?thesis using ok d by (auto simp: pool_ok_def list_all_iff pool_get_def)
qed

theorem pool_exclusive_witness:
  "\<exists>p. pool_run p \<and> distinct (held p) \<and> m_sock_map p = [(8 :: nat, connect True 8 (new_socket 0))]"
proof -
  let ?s = "new_socket 0 :: nat sock"
  let ?p1 = "add_session \<lparr>m_destructor = True, m_socket = ?s\<rparr> (new_pool\<lparr>m_sock_map := []\<rparr>)"
  have "pool_run ?p1" by (rule run_get [OF run_new, of 8]) (simp_all add: pool_get_def new_pool_def)
  from run_connect [OF this, of "[]" 0 "\<lparr>m_destructor = True, m_socket = ?s\<rparr>" "[]" True 8]
  have "pool_run (?p1\<lparr>p_sessions := [(0, \<lparr>m_destructor = True, m_socket = connect True 8 ?s\<rparr>)]\<rparr>)"
    by (simp add: add_session_def new_pool_def)
  from run_end [OF this, of "[]" 0 "\<lparr>m_destructor = True, m_socket = connect True 8 ?s\<rparr>" "[]"]
  have "pool_run (?p1\<lparr>p_sessions := [], p_dispatched := [connect True 8 ?s]\<rparr>)"
    by (simp add: add_session_def new_pool_def session_end_def)
  from run_deliver [OF this, of "[]" "connect True 8 ?s" "[]"]
  have "pool_run (?p1\<lparr>p_sessions := [], m_sock_map := [(8, connect True 8 ?s)]\<rparr>)"
    by (simp add: add_session_def new_pool_def deliver_def pool_emplace_def remote_endpoint_def res_bind_def map_ensure_def
        connect_def new_socket_def)
  from pool_exclusive [OF this] this show ?thesis by (intro exI conjI) (assumption, auto simp: add_session_def)
qed

text \<open>
  A connection that comes back while the pool has none for its endpoint is what the next
  get for the endpoint takes, and the pool is as before; while the pool has one, the second
  connection is dropped.
\<close>

theorem pool_reuse:
  assumes "m_valid p" "sk_open s" "sk_remote s = Some ep"
  shows "(map_of (m_sock_map p) ep = None \<longrightarrow> (\<exists>p'. deliver s p = Inr p' \<and>
      pool_get ep fresh (m_sock_map p') = (\<lparr>m_destructor = True, m_socket = s\<rparr>, m_sock_map p))) \<and>
    (map_of (m_sock_map p) ep = Some s' \<longrightarrow> deliver s p = Inr p)"
  using assms map_erase_put [of "m_sock_map p" ep s]
  by (auto simp: deliver_def pool_emplace_def remote_endpoint_def res_bind_def map_ensure_def pool_get_def)

text \<open>
  A session whose connect failed holds a socket that is open but not
  connected, and the function that takes it back to a pool that is still there throws.
\<close>

theorem failed_connect_throws:
  assumes "map_of (m_sock_map p) ep = None" "m_valid p" "pool_get ep fresh (m_sock_map p) = (sess, m)"
  shows "deliver (connect False ep (m_socket sess)) p = Inl Runtime_error"
  using assms
  by (auto simp: pool_get_def new_socket_def connect_def deliver_def pool_emplace_def remote_endpoint_def res_bind_def)

text \<open>
  The asynchronous \<^verbatim>\<open>get\<close> completes twice when it reuses a connection, and connects it again.
\<close>

lemma co_get_twice:
  assumes "map_of m ep = Some s" "sk_open s"
  shows "\<exists>m'. co_get ep fresh outcome m = ([False, outcome_error outcome], s, m')"
  using assms by (simp add: co_get_def pool_get_def)

end
