(* ===== verification/Http_Response.thy ===== *)
theory Http_Response
  imports Http_Range Socket_Helper Value
begin

text \<open>
  Writing a response to its socket (\<^verbatim>\<open>libgs/http/server/detail/response.h\<close>): what the helper
  generates goes through the loops of \<open>Socket_Helper\<close>. A link is the connection: what has gone
  out, and for each of the writes to come what asio does when it is given a number of bytes. A
  write that has not returned is \<^const>\<open>None\<close>. \<open>co_write\<close> of \<open>Http_Range\<close>, which knows no errors,
  is the specification that \<open>co_write_link\<close> refines. Ending a chunked response is not modelled:
  \<^verbatim>\<open>response_helper.h:252\<close> names a member that does not exist, so it cannot be instantiated.
\<close>

record link =
  ln_wire :: string
  ln_calls :: "(nat \<Rightarrow> transfer list) list"

text \<open>What asio documents, for every write and every size.\<close>

definition link_ok :: "link \<Rightarrow> bool" where
  "link_ok ln \<longleftrightarrow> (\<forall>f \<in> set (ln_calls ln). \<forall>n. write_calls_ok n (f n))"

type_synonym 'r written = "((nat \<times> io_error) res \<times> 'r \<times> link) option"

section \<open>Writing\<close>

definition co_base_write :: "string \<Rightarrow> link \<Rightarrow> (nat \<times> io_error \<times> link) option" where
  "co_base_write data ln =
     (case ln_calls ln of
        [] \<Rightarrow> None
      | f # fs \<Rightarrow>
          (case helper_co_write data 0 (f (length data)) of
             (out, None) \<Rightarrow> None
           | (out, Some (sent, error)) \<Rightarrow> Some (sent, error, \<lparr>ln_wire = ln_wire ln @ out, ln_calls = fs\<rparr>)))"

definition co_write_header :: "stold_fn \<Rightarrow> nat \<Rightarrow> response_helper \<Rightarrow> link \<Rightarrow> response_helper written" where
  "co_write_header stold sz r ln =
     (case response_header_data stold sz r of
        Inl e \<Rightarrow> Some (Inl e, r, ln)
      | Inr (head, r) \<Rightarrow>
          (case co_base_write head ln of
             None \<Rightarrow> None
           | Some (sent, error, ln) \<Rightarrow> Some (Inr (sent, error), r, ln)))"

definition co_write_body :: "string \<Rightarrow> response_helper \<Rightarrow> link \<Rightarrow> response_helper written" where
  "co_write_body body r ln =
     (let (d, h) = body_data body (rh_helper r)
      in case co_base_write d ln of
           None \<Rightarrow> None
         | Some (sent, error, ln) \<Rightarrow> Some (Inr (sent, error), r\<lparr>rh_helper := h\<rparr>, ln))"

definition co_write_link :: "stold_fn \<Rightarrow> string \<Rightarrow> response_helper \<Rightarrow> link \<Rightarrow> response_helper written" where
  "co_write_link stold body r ln =
     (if h_state (rh_helper r) = Finish then Some (Inr (0, No_error), r, ln)
      else
        case (if h_state (rh_helper r) = Header then co_write_header stold (length body) r ln
              else Some (Inr (0, No_error), r, ln)) of
          None \<Rightarrow> None
        | Some (Inl e, r, ln) \<Rightarrow> Some (Inl e, r, ln)
        | Some (Inr (got, error), r, ln) \<Rightarrow>
            if error \<noteq> No_error \<or> body = [] then Some (Inr (got, error), r, ln)
            else
              (case co_write_body body r ln of
                 Some (Inr (n, error), r, ln) \<Rightarrow> Some (Inr (got + n, error), r, ln)
               | x \<Rightarrow> x))"

text \<open>The synchronous writer makes the socket blocking first, and an exception in it is fatal.\<close>

definition sync_base_write :: "io_error \<Rightarrow> string \<Rightarrow> link \<Rightarrow> (nat \<times> io_error \<times> link) option" where
  "sync_base_write blocking data ln = (if blocking \<noteq> No_error then Some (0, blocking, ln) else co_base_write data ln)"

definition sync_write_link ::
  "stold_fn \<Rightarrow> io_error \<Rightarrow> string \<Rightarrow> response_helper \<Rightarrow> link \<Rightarrow> ((nat \<times> io_error) outcome \<times> response_helper \<times> link) option" where
  "sync_write_link stold blocking body r ln =
     (if h_state (rh_helper r) = Finish then Some (Returns (0, No_error), r, ln)
      else
        case (if h_state (rh_helper r) = Header then
                (case response_header_data stold (length body) r of
                   Inl e \<Rightarrow> Some (Terminates, r, ln)
                 | Inr (head, r) \<Rightarrow>
                     (case sync_base_write blocking head ln of
                        None \<Rightarrow> None
                      | Some (sent, error, ln) \<Rightarrow> Some (Returns (sent, error), r, ln)))
              else Some (Returns (0, No_error), r, ln)) of
          None \<Rightarrow> None
        | Some (Terminates, r, ln) \<Rightarrow> Some (Terminates, r, ln)
        | Some (Returns (got, error), r, ln) \<Rightarrow>
            if error \<noteq> No_error \<or> body = [] then Some (Returns (got, error), r, ln)
            else
              let (d, h) = body_data body (rh_helper r)
              in case sync_base_write blocking d ln of
                   None \<Rightarrow> None
                 | Some (n, error, ln) \<Rightarrow> Some (Returns (got + n, error), r\<lparr>rh_helper := h\<rparr>, ln))"

definition co_redirect :: "stold_fn \<Rightarrow> string \<Rightarrow> redirect \<Rightarrow> response_helper \<Rightarrow> link \<Rightarrow> response_helper written" where
  "co_redirect stold url redi r ln =
     (case set_redirect url redi r of
        Inl e \<Rightarrow> Some (Inl e, r, ln)
      | Inr r \<Rightarrow> co_write_link stold [] r ln)"

text \<open>The race of an operation with a timer: which came first, and whether the timer was stopped.\<close>

datatype race = Done nat | Timer bool

definition check_time_out :: "race \<Rightarrow> io_error \<Rightarrow> io_error \<Rightarrow> nat \<times> io_error" where
  "check_time_out var timed_out error =
     (case var of
        Done n \<Rightarrow> (n, error)
      | Timer stopped \<Rightarrow> (0, if \<not> stopped then timed_out else error))"

section \<open>Lemmas\<close>

lemma co_base_write_out:
  assumes "link_ok ln" "co_base_write data ln = Some (sent, error, ln')"
  shows "ln_wire ln' = ln_wire ln @ take sent data \<and> sent \<le> length data \<and> error \<noteq> Interrupted \<and>
    (error = No_error \<longrightarrow> sent = length data) \<and> link_ok ln'"
proof -
  obtain f fs where f: "ln_calls ln = f # fs" using assms(2) by (cases "ln_calls ln") (auto simp: co_base_write_def)
  obtain out r where o: "helper_co_write data 0 (f (length data)) = (out, r)" by fastforce
  have "r = Some (sent, error)" "ln' = \<lparr>ln_wire = ln_wire ln @ out, ln_calls = fs\<rparr>"
    using assms(2) f o by (auto simp: co_base_write_def split: option.splits)
  moreover have "write_calls_ok (length data) (f (length data))" using assms(1) f by (simp add: link_ok_def)
  ultimately show ?thesis
    using helper_co_write_sent [of data 0 "f (length data)"] o assms(1) f by (auto simp: link_ok_def)
qed

lemma co_write_body_out:
  assumes "link_ok ln" "co_write_body body r ln = Some (res, r', ln')" "body_data body (rh_helper r) = (d, h)"
  shows "\<exists>n error. res = Inr (n, error) \<and> r' = r\<lparr>rh_helper := h\<rparr> \<and> ln_wire ln' = ln_wire ln @ take n d \<and>
    n \<le> length d \<and> (error = No_error \<longrightarrow> n = length d) \<and> link_ok ln'"
  using assms co_base_write_out [OF assms(1), of d]
  by (auto simp: co_write_body_def split: option.splits)

lemma co_write_header_out:
  assumes "link_ok ln" "co_write_header stold sz r ln = Some (res, r', ln')"
  shows "(case response_header_data stold sz r of
      Inl e \<Rightarrow> res = Inl e \<and> r' = r \<and> ln' = ln
    | Inr (head, r2) \<Rightarrow> \<exists>n error. res = Inr (n, error) \<and> r' = r2 \<and> ln_wire ln' = ln_wire ln @ take n head \<and>
        n \<le> length head \<and> (error = No_error \<longrightarrow> n = length head) \<and> link_ok ln')"
  using assms co_base_write_out [OF assms(1)]
  by (auto simp: co_write_header_def split: option.splits sum.splits)

lemma co_write_link_out:
  assumes "link_ok ln" "co_write_link stold body r ln = Some (Inr (sent, error), r', ln')"
  shows "\<exists>out r2. co_write stold body r = Inr (out, r2) \<and> ln_wire ln' = ln_wire ln @ take sent out \<and>
    sent \<le> length out \<and> (error = No_error \<longrightarrow> sent = length out \<and> r' = r2) \<and> link_ok ln'"
proof (cases "h_state (rh_helper r) = Finish")
  case True
  then show ?thesis using assms by (simp add: co_write_link_def co_write_def)
next
  case False
  define first where "first = (if h_state (rh_helper r) = Header then co_write_header stold (length body) r ln
    else Some (Inr (0, No_error), r, ln))"
  obtain got e1 r1 ln1 where f: "first = Some (Inr (got, e1), r1, ln1)"
    using assms(2) False by (auto simp: co_write_link_def first_def [symmetric] split: option.splits sum.splits)
  obtain head where h: "(if h_state (rh_helper r) = Header then response_header_data stold (length body) r else Inr ([], r)) = Inr (head, r1)"
    "ln_wire ln1 = ln_wire ln @ take got head" "got \<le> length head" "e1 = No_error \<longrightarrow> got = length head" "link_ok ln1"
    using co_write_header_out [OF assms(1), of stold "length body" r "Inr (got, e1)" r1 ln1] f assms(1)
    by (auto simp: first_def split: if_splits sum.splits)
  obtain d h' where d: "body_data body (rh_helper r1) = (d, h')" by fastforce
  have abs: "co_write stold body r = Inr (if body = [] then (head, r1) else (head @ d, r1\<lparr>rh_helper := h'\<rparr>))"
    using False h(1) d by (simp add: co_write_def)
  show ?thesis
  proof (cases "e1 \<noteq> No_error \<or> body = []")
    case True
    then have "sent = got" "error = e1" "r' = r1" "ln' = ln1"
      using assms(2) False f by (auto simp: co_write_link_def first_def [symmetric])
    then show ?thesis using abs h True by auto
  next
    case False2: False
    obtain n e2 r2 where w: "co_write_body body r1 ln1 = Some (Inr (n, e2), r2, ln')" "sent = got + n" "error = e2" "r' = r2"
      using assms(2) False False2 f
      by (auto simp: co_write_link_def first_def [symmetric] split: option.splits sum.splits)
    from co_write_body_out [OF h(5) w(1) d]
    have "r2 = r1\<lparr>rh_helper := h'\<rparr>" "ln_wire ln' = ln_wire ln1 @ take n d" "n \<le> length d" "e2 = No_error \<longrightarrow> n = length d" "link_ok ln'"
      by auto
    then show ?thesis using abs h False2 w by auto
  qed
qed

lemma co_base_write_blocking: "sync_base_write No_error data ln = co_base_write data ln"
  by (simp add: sync_base_write_def)

section \<open>Properties\<close>

text \<open>C19.
  The writer over a socket refines the generator: without an error the bytes that have gone
  out are what \<open>co_write\<close> generates, their number is returned and the response is left
  in its state; with one, what has gone out is a beginning of it and its length is returned.
\<close>

theorem response_refines:
  assumes "link_ok ln" "co_write_link stold body r ln = Some (Inr (sent, error), r', ln')"
  shows "\<exists>out r2. co_write stold body r = Inr (out, r2) \<and> ln_wire ln' = ln_wire ln @ take sent out \<and>
    sent \<le> length out \<and> (error = No_error \<longrightarrow> sent = length out \<and> r' = r2)"
  using co_write_link_out [OF assms] by blast

text \<open>A response whose head is out, over a link that interrupts its first write.\<close>

abbreviation open_response :: response_helper where
  "open_response \<equiv> (new_response v11 [])\<lparr>rh_helper := new_helper\<lparr>h_state := Content_length, h_content_length := 5\<rparr>\<rparr>"

abbreviation lame_link :: link where
  "lame_link \<equiv> \<lparr>ln_wire = [], ln_calls = [\<lambda>n. [(n div 2, Interrupted), (n - n div 2, No_error)]]\<rparr>"

theorem response_refines_witness:
  "\<exists>r' ln'. co_write_link (\<lambda>s. Inl Invalid_argument) ''hello'' open_response lame_link = Some (Inr (5, No_error), r', ln') \<and>
    ln_wire ln' = ''hello''"
proof -
  have ok: "link_ok lame_link" by (auto simp: link_ok_def)
  have "\<exists>r' ln'. co_write_link (\<lambda>s. Inl Invalid_argument) ''hello'' open_response lame_link = Some (Inr (5, No_error), r', ln')"
    by (simp add: co_write_link_def co_write_body_def co_base_write_def body_data_def new_response_def new_helper_def)
  then obtain r' ln' where w: "co_write_link (\<lambda>s. Inl Invalid_argument) ''hello'' open_response lame_link = Some (Inr (5, No_error), r', ln')"
    by blast
  moreover have "\<exists>r2. co_write (\<lambda>s. Inl Invalid_argument) ''hello'' open_response = Inr (''hello'', r2)"
    by (simp add: co_write_def body_data_def new_response_def new_helper_def)
  ultimately show ?thesis using response_refines [OF ok w] by auto
qed

text \<open>
  The synchronous and the asynchronous writer do the same on a socket that can be made blocking,
  except that an exception, from a header with a length that is no number, ends the program
  in the synchronous one.
\<close>

theorem sync_writer_same:
  "sync_write_link stold No_error body r ln =
   map_option (\<lambda>(res, r, ln). (no_except res, r, ln)) (co_write_link stold body r ln)"
  by (auto simp: sync_write_link_def co_write_link_def co_write_header_def co_write_body_def co_base_write_blocking
      no_except_def split: option.splits sum.splits prod.splits)

text \<open>A write that loses the race against its timer reports the time-out and no bytes.\<close>

lemma check_time_out_cases:
  "check_time_out (Done n) late error = (n, error)"
  "check_time_out (Timer False) late error = (0, late)"
  by (simp_all add: check_time_out_def)

end
