(* ===== verification/File_Token.thy ===== *)
theory File_Token
  imports App_Utils Http_Range
begin

text \<open>
  The files a response is told to send (\<^verbatim>\<open>libgs/http/cxx/file_opt_token.h\<close> and its detail
  header), and their way into \<open>Http_Range\<close>: a token holds a stream, the name of the file if it
  was made from one, and the ranges asked for. The file system is a parameter: which names
  exist, and what opening one answers, the number of an error or the content.
\<close>

record files =
  fs_exists :: "string \<Rightarrow> bool"
  fs_open :: "bool \<Rightarrow> string \<Rightarrow> nat + string"

definition EBADF :: nat where "EBADF = 9"
definition EACCES :: nat where "EACCES = 13"
definition no_entry :: nat where "no_entry = 2"

section \<open>Tokens\<close>

record 'r file_opt_token =
  tk_stream :: ifstream
  tk_name :: "string option"
  tk_ranges :: 'r

type_synonym single_token = "file_range option file_opt_token"
type_synonym multi_token = "file_range list file_opt_token"

text \<open>A stream that is not open, as a token of a name starts with.\<close>

definition closed_stream :: ifstream where
  "closed_stream = \<lparr>is_open = False, content = [], pos = 0, eofbit = False, failbit = False\<rparr>"

definition named_single :: "string \<Rightarrow> file_range option \<Rightarrow> single_token" where
  "named_single name r = \<lparr>tk_stream = closed_stream, tk_name = Some name, tk_ranges = r\<rparr>"

definition named_multi :: "string \<Rightarrow> file_range list \<Rightarrow> multi_token" where
  "named_multi name rs = \<lparr>tk_stream = closed_stream, tk_name = Some name, tk_ranges = rs\<rparr>"

definition stream_single :: "ifstream \<Rightarrow> file_range option \<Rightarrow> single_token" where
  "stream_single s r = \<lparr>tk_stream = s, tk_name = None, tk_ranges = r\<rparr>"

definition multi_of :: "single_token \<Rightarrow> multi_token" where
  "multi_of t =
     \<lparr>tk_stream = tk_stream t, tk_name = tk_name t,
      tk_ranges = (case tk_ranges t of None \<Rightarrow> [] | Some r \<Rightarrow> [r])\<rparr>"

datatype any_token = Single single_token | Multiple multi_token

definition make_file_opt_token :: "string \<Rightarrow> file_range list \<Rightarrow> any_token" where
  "make_file_opt_token name rs =
     (case rs of
        [] \<Rightarrow> Single (named_single name None)
      | [r] \<Rightarrow> Single (named_single name (Some r))
      | _ \<Rightarrow> Multiple (named_multi name rs))"

text \<open>The operators, which take a range or a list of ranges.\<close>

definition name_or :: "string \<Rightarrow> file_range \<Rightarrow> any_token" where
  "name_or name r = make_file_opt_token name [r]"

definition name_or_ranges :: "string \<Rightarrow> file_range list \<Rightarrow> any_token" where
  "name_or_ranges name rs = Multiple (named_multi name rs)"

definition token_or :: "any_token \<Rightarrow> file_range \<Rightarrow> any_token" where
  "token_or t r =
     (case t of
        Single s \<Rightarrow> (let token = multi_of s in Multiple (token\<lparr>tk_ranges := tk_ranges token @ [r]\<rparr>))
      | Multiple opt \<Rightarrow> Multiple (opt\<lparr>tk_ranges := tk_ranges opt @ [r]\<rparr>))"

definition token_or_ranges :: "any_token \<Rightarrow> file_range list \<Rightarrow> any_token" where
  "token_or_ranges t rs =
     (case t of
        Single s \<Rightarrow> (let token = multi_of s in Multiple (token\<lparr>tk_ranges := tk_ranges token @ rs\<rparr>))
      | Multiple opt \<Rightarrow> Multiple (opt\<lparr>tk_ranges := tk_ranges opt @ rs\<rparr>))"

section \<open>Opening\<close>

text \<open>
  \<^verbatim>\<open>open\<close> of a stream that is open fails and leaves it as it was, but for the bit of failure.
  Writing alone truncates the file, so the content is what \<open>fs_open\<close> answers.
\<close>

definition stream_open :: "files \<Rightarrow> bool \<Rightarrow> string \<Rightarrow> ifstream \<Rightarrow> nat \<times> ifstream" where
  "stream_open fs out name s =
     (if is_open s then (no_error, s\<lparr>failbit := True\<rparr>)
      else case fs_open fs out name of
             Inl e \<Rightarrow> (e, s\<lparr>failbit := True\<rparr>)
           | Inr c \<Rightarrow> (no_error, open_stream (Some c)))"

definition token_init :: "files \<Rightarrow> process \<Rightarrow> bool \<Rightarrow> 'r file_opt_token \<Rightarrow> (nat \<times> 'r file_opt_token) option" where
  "token_init fs w out t =
     (case tk_name t of
        None \<Rightarrow> Some (if is_open (tk_stream t) then no_error else EBADF, t)
      | Some name \<Rightarrow>
          if name = [] then Some (EINVAL, t)
          else
            case absolute_path name w of
              None \<Rightarrow> None
            | Some (abs_name, error, w) \<Rightarrow>
                if error \<noteq> no_error then Some (error, t)
                else
                  let t = t\<lparr>tk_name := Some abs_name\<rparr> in
                  if \<not> out \<and> \<not> fs_exists fs abs_name then Some (no_entry, t)
                  else
                    let (e, s) = stream_open fs out abs_name (tk_stream t); t = t\<lparr>tk_stream := s\<rparr>
                    in Some (if \<not> is_open s then e else no_error, t))"

section \<open>The size of a file\<close>

datatype stream_class = Fstream | Ifstream | Ofstream

text \<open>
  Positions; \<open>None\<close> is the \<^verbatim>\<open>-1\<close> of a stream that has failed, which as a \<^verbatim>\<open>size_t\<close> is its
  largest value. A file stream has one position for reading and writing.
\<close>

definition size_of_pos :: "nat option \<Rightarrow> nat" where
  "size_of_pos p = (case p of None \<Rightarrow> 2 ^ 64 - 1 | Some n \<Rightarrow> n)"

definition tellg :: "ifstream \<Rightarrow> nat option \<times> ifstream" where
  "tellg s =
     (let s = (if eofbit s \<or> failbit s then s\<lparr>failbit := True\<rparr> else s)
      in (if failbit s then None else Some (pos s), s))"

definition tellp :: "ifstream \<Rightarrow> nat option" where
  "tellp s = (if failbit s then None else Some (pos s))"

definition seekp :: "nat \<Rightarrow> ifstream \<Rightarrow> ifstream" where
  "seekp p s = (if failbit s then s else s\<lparr>pos := p\<rparr>)"

definition good :: "ifstream \<Rightarrow> bool" where
  "good s \<longleftrightarrow> \<not> eofbit s \<and> \<not> failbit s"

text \<open>Going to the end and back; going back to \<^verbatim>\<open>-1\<close> is asked of failed streams only.\<close>

definition size_g :: "nat option \<Rightarrow> ifstream \<Rightarrow> nat \<times> ifstream" where
  "size_g cur s =
     (let s = seekg (length (content s)) s; (e, s) = tellg s
      in (size_of_pos e, seekg (size_of_pos cur) s))"

definition size_p :: "nat option \<Rightarrow> ifstream \<Rightarrow> nat \<times> ifstream" where
  "size_p cur s =
     (let s = seekp (length (content s)) s
      in (size_of_pos (tellp s), seekp (size_of_pos cur) s))"

definition io_read :: nat where "io_read = 1"
definition io_write :: nat where "io_write = 2"

definition has_permission :: "nat \<Rightarrow> nat \<Rightarrow> bool" where
  "has_permission p mode \<longleftrightarrow> odd (mode div p)"

definition fstream_size :: "nat \<Rightarrow> ifstream \<Rightarrow> nat option \<times> ifstream" where
  "fstream_size mode s =
     (if has_permission io_read mode then
        let (cur, s) = tellg s in
        if good s then (case size_g cur s of (n, s) \<Rightarrow> (Some n, s)) else (None, s)
      else if has_permission io_write mode then
        let cur = tellp s in
        if good s then (case size_p cur s of (n, s) \<Rightarrow> (Some n, s)) else (None, s)
      else (None, s))"

definition file_size :: "stream_class \<Rightarrow> nat \<Rightarrow> ifstream \<Rightarrow> nat option \<times> ifstream" where
  "file_size FS mode s =
     (let (sz, s) = (if FS = Fstream then fstream_size mode s else (None, s)) in
      if FS = Ifstream then
        (if has_permission io_read mode then
           let (cur, s) = tellg s in case size_g cur s of (n, s) \<Rightarrow> (Some n, s)
         else (sz, s))
      else
        (if has_permission io_write mode then case size_p (tellp s) s of (n, s) \<Rightarrow> (Some n, s)
         else (sz, s)))"

section \<open>Sending\<close>

text \<open>What the response is told of the token: its type and its size.\<close>

record fot_data =
  mtype :: string
  fsize :: nat

definition multi_token_of :: "any_token \<Rightarrow> multi_token" where
  "multi_token_of t = (case t of Single s \<Rightarrow> multi_of s | Multiple m \<Rightarrow> m)"

text \<open>
  For tokens of names, whose streams are \<^verbatim>\<open>std::fstream\<close>; the type of a stream is asked for
  with a pointer, which does not compile.
\<close>

definition file_opt_token_helper ::
    "files \<Rightarrow> process \<Rightarrow> any_token \<Rightarrow> (nat \<times> multi_token \<times> fot_data) option" where
  "file_opt_token_helper fs w opt =
     (case token_init fs w False (multi_token_of opt) of
        None \<Rightarrow> None
      | Some (error, t) \<Rightarrow>
          let data = \<lparr>mtype = [], fsize = 0\<rparr> in
          if error \<noteq> no_error then Some (error, t, data)
          else
            case file_size Fstream io_write (tk_stream t) of
              (None, s) \<Rightarrow> Some (EACCES, t\<lparr>tk_stream := s\<rparr>, data)
            | (Some n, s) \<Rightarrow>
                let name = (case tk_name t of Some name \<Rightarrow> name | None \<Rightarrow> []) in
                (case mime_type name (case fs_open fs False name of Inl e \<Rightarrow> None | Inr c \<Rightarrow> Some c) False of
                   None \<Rightarrow> None
                 | Some type \<Rightarrow> Some (no_error, t\<lparr>tk_stream := s\<rparr>, \<lparr>mtype = type, fsize = n\<rparr>)))"

definition send_token ::
    "stold_fn \<Rightarrow> files \<Rightarrow> process \<Rightarrow> string \<Rightarrow> any_token \<Rightarrow> response_helper \<Rightarrow>
     (nat \<times> (string \<times> response_helper) option res) option" where
  "send_token stold fs w boundary opt r =
     (if h_state (rh_helper r) \<noteq> Header then Some (no_error, Inr (Some ([], r)))
      else
        case file_opt_token_helper fs w opt of
          None \<Rightarrow> None
        | Some (error, t, data) \<Rightarrow>
            Some (if error \<noteq> no_error then (error, Inr (Some ([], r)))
                  else co_send_file stold boundary (mtype data) (fsize data) (tk_stream t) (tk_ranges t) r))"


section \<open>Properties\<close>

lemma permissions [simp]:
  "has_permission io_read io_read" "\<not> has_permission io_read io_write"
  "has_permission io_write io_write" "\<not> has_permission io_write io_read"
  by (simp_all add: has_permission_def io_read_def io_write_def)

lemma fstream_size_good:
  "good s \<Longrightarrow> fstream_size mode s =
     (if has_permission io_read mode \<or> has_permission io_write mode then Some (length (content s)) else None, s)"
  by (auto simp: fstream_size_def good_def tellg_def tellp_def size_g_def size_p_def seekg_def seekp_def
      size_of_pos_def Let_def)

lemma file_size_good:
  "file_size Fstream io_write (open_stream (Some c)) = (Some (length c), open_stream (Some c))"
  by (simp add: file_size_def fstream_size_good good_def open_stream_def tellp_def size_p_def seekp_def size_of_pos_def Let_def)

text \<open>
  Asked for a direction in which its class works, a stream without errors has the size of its
  content and stays as it is; for another direction it has none.
\<close>

theorem file_size_spec:
  assumes "good s"
  shows "file_size FS mode s =
    (if (FS \<noteq> Ofstream \<and> has_permission io_read mode) \<or> (FS \<noteq> Ifstream \<and> has_permission io_write mode)
     then Some (length (content s)) else None, s)"
  using assms
  by (cases FS) (auto simp: file_size_def fstream_size_good good_def tellg_def tellp_def size_g_def size_p_def
      seekg_def seekp_def size_of_pos_def Let_def)

theorem file_size_spec_witness:
  "file_size Ifstream io_write (open_stream (Some ''ab'')) = (None, open_stream (Some ''ab'')) \<and>
   fst (file_size Fstream io_write (open_stream (Some ''ab''))) = Some 2"
  using file_size_spec [of "open_stream (Some ''ab'')" Ifstream io_write]
    file_size_spec [of "open_stream (Some ''ab'')" Fstream io_write]
  by (simp add: good_def open_stream_def)

lemma file_size_failed:
  assumes "failbit s"
  shows "file_size Fstream io_write s = (Some (2 ^ 64 - 1), s)"
  using assms by (simp add: file_size_def fstream_size_def good_def tellp_def size_p_def seekp_def size_of_pos_def)

lemma token_or_simps:
  "multi_token_of (token_or t r) = (multi_token_of t)\<lparr>tk_ranges := tk_ranges (multi_token_of t) @ [r]\<rparr>"
  by (cases t) (simp_all add: token_or_def multi_token_of_def Let_def)

lemma token_or_all:
  "multi_token_of (foldl token_or t rs) = (multi_token_of t)\<lparr>tk_ranges := tk_ranges (multi_token_of t) @ rs\<rparr>"
  by (induction rs arbitrary: t) (simp_all add: token_or_simps)

lemma named_multi_of: "multi_token_of (make_file_opt_token name []) = named_multi name []"
  by (simp add: multi_token_of_def make_file_opt_token_def multi_of_def named_single_def named_multi_def)

text \<open>The range the response makes of one that is asked for.\<close>

definition asked :: "nat \<Rightarrow> file_range \<Rightarrow> range_value" where
  "asked n v =
     \<lparr>fr_begin = fr_begin v, fr_total = fr_total v, cr_line = range_line (fr_begin v) (fr_begin v + fr_total v - 1) n,
      rg_end = fr_begin v + fr_total v - 1\<rparr>"

lemma from_file_range_asked:
  assumes "list_all (\<lambda>v. 0 < fr_total v \<and> fr_begin v + fr_total v \<le> n) rs" "n < 2 ^ 64"
  shows "from_file_range rs n = (map (asked n) rs, False)"
  using assms(1)
proof (induction rs)
  case (Cons v rs)
  then have "size_sub (size_add (fr_begin v) (fr_total v)) 1 = fr_begin v + fr_total v - 1" using assms(2) by simp
  moreover have "\<not> n \<le> fr_begin v + fr_total v - 1" using Cons.prems by auto
  ultimately show ?case using Cons by (simp add: asked_def Let_def)
qed simp

text \<open>A file that is there and can be read, under the name it is asked for.\<close>

definition readable :: "files \<Rightarrow> process \<Rightarrow> string \<Rightarrow> string \<Rightarrow> string \<Rightarrow> bool" where
  "readable fs w name c type \<longleftrightarrow>
     name \<noteq> [] \<and>
     (\<exists>abs_name w'. absolute_path name w = Some (abs_name, no_error, w') \<and> fs_exists fs abs_name \<and>
        fs_open fs False abs_name = Inr c \<and> mime_type abs_name (Some c) False = Some type)"

lemma helper_readable:
  assumes "readable fs w name c type" "multi_token_of opt = named_multi name rs"
  shows "\<exists>t. file_opt_token_helper fs w opt = Some (no_error, t, \<lparr>mtype = type, fsize = length c\<rparr>) \<and>
    tk_ranges t = rs \<and> good_stream c 0 (tk_stream t)"
proof -
  obtain abs_name w' where abs: "absolute_path name w = Some (abs_name, no_error, w')" "fs_exists fs abs_name"
      "fs_open fs False abs_name = Inr c" "mime_type abs_name (Some c) False = Some type" "name \<noteq> []"
    using assms(1) by (auto simp: readable_def)
  let ?t = "\<lparr>tk_stream = open_stream (Some c), tk_name = Some abs_name, tk_ranges = rs\<rparr>"
  have "token_init fs w False (multi_token_of opt) = Some (no_error, ?t)"
    using abs by (simp add: assms(2) token_init_def named_multi_def stream_open_def closed_stream_def open_stream_def)
  moreover note file_size_good [of c]
  ultimately show ?thesis
    using abs by (simp add: file_opt_token_helper_def Let_def good_stream_def open_stream_def)
qed


text \<open>The body a token asks for: the file, one part of it, or all the parts.\<close>

definition asked_body :: "string \<Rightarrow> string \<Rightarrow> string \<Rightarrow> file_range list \<Rightarrow> string" where
  "asked_body boundary type c rs =
     (case rs of
        [] \<Rightarrow> c
      | [v] \<Rightarrow> take (fr_total v) (drop (fr_begin v) c)
      | _ \<Rightarrow> multipart_text boundary (''Content-Type: '' @ type) c (map (asked (length c)) rs))"

lemma asked_in_file: "fr_begin v + fr_total v \<le> length c \<Longrightarrow> part_fits (fr_total v) \<Longrightarrow> in_file c (asked n v)"
  by (simp add: in_file_def asked_def)

lemma ranges_sent:
  fixes boundary :: string
  assumes "ready r" and t: "good_stream c 0 st" and "rs \<noteq> []"
    and rs: "list_all (\<lambda>v. fr_begin v + fr_total v \<le> length c \<and> part_fits (fr_total v)) rs"
    and "length c < 2 ^ 64" "length (asked_body boundary type c rs) < 2 ^ 64"
  shows "\<exists>r1 head r2 r'. sized (length (asked_body boundary type c rs)) r1 \<and>
    response_header_data stold 0 r1 = Inr (head, r2) \<and>
    co_range_transfer stold boundary type st (map (asked (length c)) rs) r =
      Inr (Some (head @ asked_body boundary type c rs, r'))"
proof (cases "\<exists>v. rs = [v]")
  case True
  then obtain v where v: "rs = [v]" by blast
  then have "fr_begin v + fr_total v \<le> length c" "0 < fr_total v" using rs by (auto simp: part_fits_def)
  then show ?thesis
    using co_range_transfer_single [OF assms(1) t, of "asked (length c) v" stold boundary type] assms(5)
    by (simp add: v asked_body_def asked_def)
next
  case more: False
  let ?vs = "map (asked (length c)) rs"
  have fits: "list_all (in_file c) ?vs" using rs asked_in_file by (auto simp: list_all_iff)
  have "asked_body boundary type c rs = multipart_text boundary (''Content-Type: '' @ type) c ?vs" "length ?vs \<noteq> 1"
    using more assms(3) by (auto simp: asked_body_def length_Suc_conv split: list.splits)
  then show ?thesis
    using co_range_transfer_multi [OF assms(1) t fits, of boundary type stold] assms(3,6) by simp
qed

text \<open>C18.
  From a name and ranges to the wire. A readable file and any number of ranges in it, put
  together by the operator, are sent as they are asked for: behind a head that announces its
  length comes the whole file, the one range, or the multipart body of all the ranges, in
  their order. (Each range has a last piece that leaves room for a line break.)
\<close>

theorem token_sent:
  fixes boundary :: string
  assumes "readable fs w name c type" "unsized r" "map_find (rh_request_headers r) ''Range'' = None"
    and "c \<noteq> []" "length c < 2 ^ 64"
    and rs: "list_all (\<lambda>v. fr_begin v + fr_total v \<le> length c \<and> part_fits (fr_total v)) rs"
    and "length (asked_body boundary type c rs) < 2 ^ 64"
  shows "\<exists>r1 head r2 r'. response_header_data stold (if rs = [] then length c else 0) r1 = Inr (head, r2) \<and>
    map_find (h_headers (rh_helper (if rs = [] then r2 else r1))) ''Content-Length'' =
      Some (to_string (length (asked_body boundary type c rs))) \<and>
    send_token stold fs w boundary (foldl token_or (make_file_opt_token name []) rs) r =
      Some (no_error, Inr (Some (head @ asked_body boundary type c rs, r')))"
proof -
  have "multi_token_of (foldl token_or (make_file_opt_token name []) rs) = named_multi name rs"
    by (simp add: token_or_all named_multi_of) (simp add: named_multi_def)
  then obtain t where t: "file_opt_token_helper fs w (foldl token_or (make_file_opt_token name []) rs) =
      Some (no_error, t, \<lparr>mtype = type, fsize = length c\<rparr>)" "tk_ranges t = rs" "good_stream c 0 (tk_stream t)"
    using helper_readable [OF assms(1)] by blast
  have state: "h_state (rh_helper r) = Header" "ready r" using assms(2) by (auto simp: unsized_def ready_def)
  have send: "send_token stold fs w boundary (foldl token_or (make_file_opt_token name []) rs) r =
      Some (co_send_file stold boundary type (length c) (tk_stream t) rs r)"
    using state t(1,2) by (simp add: send_token_def)
  show ?thesis
  proof (cases "rs = []")
    case True
    obtain head r2 r' where "response_header_data stold (length c) (response_set_header ''Content-Type'' type r) = Inr (head, r2)"
        "map_find (h_headers (rh_helper r2)) ''Content-Length'' = Some (to_string (length c))"
        "co_default_transfer stold type (length c) (tk_stream t) r = Inr (head @ c, r')"
      using co_default_transfer_good [OF assms(2) t(3) assms(4)] by blast
    then show ?thesis
      using state assms(3) unfolding send by (auto simp: co_send_file_def True asked_body_def no_error_def)
  next
    case False
    let ?vs = "map (asked (length c)) rs"
    have "from_file_range rs (length c) = (?vs, False)"
      by (rule from_file_range_asked [OF _ assms(5)]) (use rs in \<open>auto simp: list_all_iff part_fits_def\<close>)
    then have sent: "co_send_file stold boundary type (length c) (tk_stream t) rs r =
        (no_error, co_range_transfer stold boundary type (tk_stream t) ?vs r)"
      using state False by (simp add: co_send_file_def no_error_def)
    from ranges_sent [where stold = stold, OF state(2) t(3) False rs assms(5,7)]
    show ?thesis using False unfolding send sent by (auto simp: sized_def)
  qed
qed

text \<open>
  What cannot be sent is reported before anything is sent: an empty name, a name that does
  not exist, and a file that cannot be opened.
\<close>

theorem token_errors:
  assumes "h_state (rh_helper r) = Header" "tk_stream (multi_token_of opt) = closed_stream"
    "tk_name (multi_token_of opt) = Some name" "absolute_path name w = Some (abs_name, no_error, w')"
    "\<And>e. fs_open fs False abs_name = Inl e \<Longrightarrow> e \<noteq> no_error"
  shows "send_token stold fs w boundary opt r =
    (let sent_nothing = (\<lambda>e. Some (e, Inr (Some ([], r)))) in
     if name = [] then sent_nothing EINVAL
     else if \<not> fs_exists fs abs_name then sent_nothing no_entry
     else case fs_open fs False abs_name of
            Inl e \<Rightarrow> sent_nothing e
          | Inr c \<Rightarrow> send_token stold fs w boundary opt r)"
  using assms
  by (auto simp: send_token_def file_opt_token_helper_def token_init_def stream_open_def closed_stream_def
      EINVAL_def no_entry_def no_error_def Let_def split: sum.splits)

text \<open>
  A copy of a token shares its stream. Once that is open, sending the copy finds it failed and
  takes the \<^verbatim>\<open>-1\<close> of its position for the size: the head announces 18446744073709551615 bytes,
  and none follow.
\<close>

theorem token_sent_again:
  assumes "unsized r" "map_find (rh_request_headers r) ''Range'' = None"
    and "is_open s" "name \<noteq> []" "absolute_path name w = Some (abs_name, no_error, w')" "fs_exists fs abs_name"
    and "mime_type abs_name (case fs_open fs False abs_name of Inl e \<Rightarrow> None | Inr c \<Rightarrow> Some c) False = Some type"
  shows "\<exists>head r2 r'. response_header_data stold (2 ^ 64 - 1) (response_set_header ''Content-Type'' type r) = Inr (head, r2) \<and>
    map_find (h_headers (rh_helper r2)) ''Content-Length'' = Some (to_string (2 ^ 64 - 1)) \<and>
    send_token stold fs w boundary (Multiple ((named_multi name [])\<lparr>tk_stream := s\<rparr>)) r =
      Some (no_error, Inr (Some (head, r')))"
proof -
  let ?s = "s\<lparr>failbit := True\<rparr>"
  let ?t = "\<lparr>tk_stream = ?s, tk_name = Some abs_name, tk_ranges = []\<rparr>"
  have "token_init fs w False ((named_multi name [])\<lparr>tk_stream := s\<rparr>) = Some (no_error, ?t)"
    using assms(3-6) by (simp add: token_init_def named_multi_def stream_open_def)
  then have helper: "file_opt_token_helper fs w (Multiple ((named_multi name [])\<lparr>tk_stream := s\<rparr>)) =
      Some (no_error, ?t, \<lparr>mtype = type, fsize = 2 ^ 64 - 1\<rparr>)"
    using assms(7) by (simp add: file_opt_token_helper_def multi_token_of_def file_size_failed Let_def)
  have "unsized (response_set_header ''Content-Type'' type r)" by (rule unsized_set_header) (use assms(1) in simp_all)
  from unsized_head [OF this, of stold "2 ^ 64 - 1"]
  obtain head r2 where head: "response_header_data stold (2 ^ 64 - 1) (response_set_header ''Content-Type'' type r) = Inr (head, r2)"
      "map_find (h_headers (rh_helper r2)) ''Content-Length'' = Some (to_string (2 ^ 64 - 1))" by blast
  have "default_loop (seekg 0 ?s) h = ([], h)" for h
    by (simp add: default_loop.simps seekg_def stream_read_def)
  then have "co_default_transfer stold type (2 ^ 64 - 1) ?s r = Inr (head, r2)"
    using head(1) by (simp add: co_default_transfer_def)
  moreover have "h_state (rh_helper r) = Header" using assms(1) by (simp add: unsized_def ready_def)
  ultimately have "send_token stold fs w boundary (Multiple ((named_multi name [])\<lparr>tk_stream := s\<rparr>)) r =
      Some (no_error, Inr (Some (head, r2)))"
    using helper assms(2) by (simp add: send_token_def co_send_file_def no_error_def)
  with head show ?thesis by blast
qed


section \<open>Witnesses\<close>

definition sample_files :: files where
  "sample_files =
     \<lparr>fs_exists = (\<lambda>n. n = ''/f.7z'' \<or> n = ''/g''),
      fs_open = (\<lambda>out n. if n = ''/f.7z'' then Inr ''0123456789'' else Inl EACCES)\<rparr>"

lemma token_names:
  "absolute_path ''/f.7z'' sample_process = Some (''/f.7z'', no_error, sample_process)"
  "absolute_path ''/g'' sample_process = Some (''/g'', no_error, sample_process)"
  by (simp_all add: absolute_path_def expanded_path_def is_absolute_path_def starts_with_def str_replace_none)

lemma sample_type: "mime_type ''/f.7z'' file False = Some ''application/x-7z-compressed''"
proof -
  have "suffix_key ''/f.7z'' = Some ''.7z''" by code_simp
  moreover have "map_of g_suffix_hash ''.7z'' = Some ''application/x-7z-compressed''"
    by (simp add: g_suffix_hash_def suffix_table_1_def)
  ultimately show ?thesis by (simp add: mime_type_def suffix_find_def)
qed

lemma sample_readable: "readable sample_files sample_process ''/f.7z'' ''0123456789'' ''application/x-7z-compressed''"
  using token_names sample_type by (simp add: readable_def sample_files_def)

lemma sample_response: "unsized (new_response v11 [])" "map_find (rh_request_headers (new_response v11 [])) ''Range'' = None"
proof -
  have "map_inv default_headers" by (simp add: default_headers_def map_inv_Cons)
  moreover have "version_string v11 = Inr ''1.1''" "status_description 200 = Inr ''OK''" by code_simp+
  moreover have "map_find default_headers ''Content-Length'' = None" "map_find default_headers ''Transfer-Encoding'' = None"
    by (simp_all add: default_headers_def not_less_equiv)
  ultimately show "unsized (new_response v11 [])" "map_find (rh_request_headers (new_response v11 [])) ''Range'' = None"
    by (simp_all add: unsized_def ready_def new_response_def new_helper_def request_chunked_def)
qed

theorem token_sent_witness:
  "\<exists>head r'. send_token (\<lambda>s. Inl Invalid_argument) sample_files sample_process ''b''
      (foldl token_or (make_file_opt_token ''/f.7z'' []) [\<lparr>fr_begin = 2, fr_total = 3\<rparr>]) (new_response v11 []) =
    Some (no_error, Inr (Some (head @ ''234'', r')))"
proof -
  have "list_all (\<lambda>v. fr_begin v + fr_total v \<le> length ''0123456789'' \<and> part_fits (fr_total v))
      [\<lparr>fr_begin = 2, fr_total = 3\<rparr>]"
    by (simp add: part_fits_def buf_size_def)
  moreover have "asked_body ''b'' ''application/x-7z-compressed'' ''0123456789'' [\<lparr>fr_begin = 2, fr_total = 3\<rparr>] = ''234''"
    by (simp add: asked_body_def numeral_eq_Suc)
  ultimately show ?thesis
    using token_sent [OF sample_readable sample_response, of "[\<lparr>fr_begin = 2, fr_total = 3\<rparr>]" "''b''" "\<lambda>s. Inl Invalid_argument"]
    by fastforce
qed

theorem token_errors_witness:
  "send_token (\<lambda>s. Inl Invalid_argument) sample_files sample_process ''b'' (make_file_opt_token ''/g'' []) (new_response v11 []) =
   Some (EACCES, Inr (Some ([], new_response v11 [])))"
proof -
  have "h_state (rh_helper (new_response v11 [])) = Header" by (simp add: new_response_def new_helper_def)
  then show ?thesis
    using token_errors [of "new_response v11 []" "make_file_opt_token ''/g'' []" "''/g''" sample_process "''/g''"
        sample_process sample_files "\<lambda>s. Inl Invalid_argument" "''b''"] token_names(2)
    by (simp add: named_multi_of named_multi_def sample_files_def EACCES_def no_error_def Let_def)
qed

theorem token_sent_again_witness:
  "\<exists>head r'. send_token (\<lambda>s. Inl Invalid_argument) sample_files sample_process ''b''
      (Multiple ((named_multi ''/f.7z'' [])\<lparr>tk_stream := open_stream (Some ''0123456789'')\<rparr>)) (new_response v11 []) =
    Some (no_error, Inr (Some (head, r')))"
proof -
  have "is_open (open_stream (Some ''0123456789''))" "fs_exists sample_files ''/f.7z''"
    by (simp_all add: open_stream_def sample_files_def)
  then show ?thesis
    using token_sent_again [OF sample_response, of "open_stream (Some ''0123456789'')" "''/f.7z''" sample_process
        "''/f.7z''" sample_process sample_files "''application/x-7z-compressed''" "\<lambda>s. Inl Invalid_argument" "''b''"] token_names(1) sample_type
    by auto
qed

end
