(* ===== verification/Request_Arg.thy ===== *)
theory Request_Arg
  imports Http_Server Http_Url
begin

text \<open>
  The argument of a client's request (\<^verbatim>\<open>libgs/http/client/detail/request_arg.h\<close>): a URL with
  headers and cookies (its chunk attributes have a set of another type than the functions they
  are passed to, and do not compile). What the generator of \<open>Http_Helper\<close> takes from it is
  \<open>plain_arg\<close>; with the server this gives the way of a request from the text of a URL to the
  controller. An object moved from is left with a new implementation.
\<close>

section \<open>The argument\<close>

record client_arg =
  ca_url :: url
  ca_headers :: "string http_map"
  ca_cookies :: "string http_map"

definition new_arg :: "url \<Rightarrow> client_arg" where
  "new_arg u = \<lparr>ca_url = u, ca_headers = default_headers, ca_cookies = []\<rparr>"

definition arg_set_url :: "url \<Rightarrow> client_arg \<Rightarrow> client_arg" where
  "arg_set_url u a = a\<lparr>ca_url := u\<rparr>"

definition arg_set_header :: "string \<Rightarrow> string \<Rightarrow> client_arg \<Rightarrow> client_arg" where
  "arg_set_header key val a = a\<lparr>ca_headers := set_map (ca_headers a) key val\<rparr>"

definition arg_set_cookie :: "string \<Rightarrow> string \<Rightarrow> client_arg \<Rightarrow> client_arg" where
  "arg_set_cookie key val a = a\<lparr>ca_cookies := set_map (ca_cookies a) key val\<rparr>"

definition arg_set_headers :: "(string \<times> string) list \<Rightarrow> client_arg \<Rightarrow> client_arg" where
  "arg_set_headers headers a = a\<lparr>ca_headers := set_map_list (ca_headers a) headers\<rparr>"

definition arg_set_cookies :: "(string \<times> string) list \<Rightarrow> client_arg \<Rightarrow> client_arg" where
  "arg_set_cookies cookies a = a\<lparr>ca_cookies := set_map_list (ca_cookies a) cookies\<rparr>"

definition arg_unset_header :: "string \<Rightarrow> client_arg \<Rightarrow> client_arg" where
  "arg_unset_header key a = a\<lparr>ca_headers := unset_map (ca_headers a) key\<rparr>"

definition arg_unset_cookie :: "string \<Rightarrow> client_arg \<Rightarrow> client_arg" where
  "arg_unset_cookie key a = a\<lparr>ca_cookies := unset_map (ca_cookies a) key\<rparr>"

definition arg_moved :: "client_arg \<Rightarrow> client_arg \<times> client_arg" where
  "arg_moved other = (other, new_arg blank_url)"

definition plain_arg :: "client_arg \<Rightarrow> request_arg" where
  "plain_arg a =
     \<lparr>ra_path = u_path (ca_url a), ra_parameters = u_parameters (ca_url a), ra_headers = ca_headers a,
      ra_cookies = ca_cookies a\<rparr>"

section \<open>From the text of a URL to the controller\<close>

lemma map_assign_elem:
  "(k, v) \<in> set (map_assign m key val) \<Longrightarrow> (k, v) \<in> set m \<or> v = val \<and> (k = key \<or> k \<in> fst ` set m)"
  by (induction m key val rule: map_assign.induct) (auto split: if_splits)

lemma set_map_list_all:
  assumes P: "\<And>k v. P (k, v) \<longleftrightarrow> A k \<and> B v"
  shows "list_all P m \<Longrightarrow> list_all (\<lambda>(k, v). P (str_to_lower k, v)) kvs \<Longrightarrow> list_all P (set_map_list m kvs)"
proof (induction kvs arbitrary: m)
  case (Cons kv kvs)
  obtain k v where kv: "kv = (k, v)" by (cases kv)
  have "list_all P (set_map m k v)"
    unfolding list_all_iff
  proof
    fix x
    assume x: "x \<in> set (set_map m k v)"
    obtain kx vx where pair: "x = (kx, vx)" by fastforce
    have new: "A (str_to_lower k)" "B v" using Cons.prems(2) unfolding kv by (simp_all add: P)
    have old: "A kx \<and> B vx" if "(kx, vx) \<in> set m" for kx vx
      using Cons.prems(1) that unfolding list_all_iff P [symmetric] by blast
    have "(kx, vx) \<in> set m \<or> vx = v \<and> (kx = str_to_lower k \<or> kx \<in> fst ` set m)"
      using map_assign_elem [of kx vx m "str_to_lower k" v] x unfolding pair set_map_def by simp
    then show "P x"
    proof
      assume "vx = v \<and> (kx = str_to_lower k \<or> kx \<in> fst ` set m)"
      then obtain w where "vx = v" "kx = str_to_lower k \<or> (kx, w) \<in> set m" by force
      then have "vx = v" "A kx" using new(1) old [of kx w] by blast+
      then show "P x" using new(2) unfolding pair P by simp
    next
      assume "(kx, vx) \<in> set m"
      then show "P x" using old unfolding pair P by blast
    qed
  qed
  moreover have "list_all (\<lambda>(k, v). P (str_to_lower k, v)) kvs" using Cons.prems(2) by simp
  ultimately have "list_all P (set_map_list (set_map m k v) kvs)" by (rule Cons.IH)
  then show ?case by (simp add: set_map_list_def kv)
qed (simp add: set_map_list_def)

lemma default_header_plain: "map_inv default_headers" "list_all plain_header default_headers"
proof -
  have low: "str_to_lower ''Content-Type'' = ''content-type''" by code_simp
  show "map_inv default_headers" by (simp add: map_inv_def default_headers_def)
  show "list_all plain_header default_headers"
    by (simp add: default_headers_def plain_header_def good_header_def low trim_def is_blank_def schar_def uchar_def)
qed

lemma good_plain_arg:
  assumes "good_path (u_path u)" "map_inv (u_parameters u)" "list_all good_parameter (u_parameters u)"
    and "list_all (\<lambda>(k, v). plain_header (str_to_lower k, v)) hs" "list_all (\<lambda>(k, v). good_cookie (str_to_lower k, v)) cs"
  shows "good_request (plain_arg (arg_set_cookies cs (arg_set_headers hs (new_arg u))))"
proof -
  have "list_all plain_header (set_map_list default_headers hs)"
    by (rule set_map_list_all [where A = "\<lambda>k. good_key k \<and> str_to_lower k \<noteq> ''content-length'' \<and>
          str_to_lower k \<noteq> ''transfer-encoding''" and B = good_value, OF _ default_header_plain(2) assms(4)])
      (auto simp: plain_header_def good_header_parts)
  moreover have "list_all good_cookie (set_map_list [] cs)"
    by (rule set_map_list_all [where A = "\<lambda>k. k \<noteq> [] \<and> trim k = k \<and> CHR ''='' \<notin> set k \<and>
          list_all (\<lambda>c. c \<noteq> CHR '';'' \<and> c \<noteq> CHR ''%'' \<and> c \<noteq> CHR 0x0D) k" and
        B = "\<lambda>v. trim v = v \<and> list_all (\<lambda>c. c \<noteq> CHR '';'' \<and> c \<noteq> CHR ''%'' \<and> c \<noteq> CHR 0x0D) v", OF _ _ assms(5)])
      (auto simp: good_cookie_def)
  moreover have "map_inv (set_map_list [] cs)" by (rule set_map_list_inv) simp
  ultimately show ?thesis
    using assms(1-3)
    by (simp add: good_request_def plain_arg_def arg_set_cookies_def arg_set_headers_def new_arg_def)
qed

text \<open>C1.
  From the text of a URL to the controller. A client that is given the text of a URL, headers
  and cookies prints a request that the server reads in one piece, and that runs the controller
  of the path and method; the controller sees the path and the parameters written in the text,
  the cookies, under lower-case names, and the body. Other rules do not matter, as long as none
  matches the path without a wildcard.
\<close>

theorem url_reaches_controller:
  assumes url: "good_url u" "good_path (u_path u)" "plain_path (u_path u)"
    and "list_all (\<lambda>(k, v). plain_header (str_to_lower k, v)) hs"
    and "list_all (\<lambda>(k, v). good_cookie (str_to_lower k, v)) cs" "length body < 2 ^ 64"
    and "map_of (sv_routes sv) (u_path u) = Some rt" "tk_method rt AND method_value m \<noteq> 0"
    and "\<forall>rule \<in> fst ` set (sv_routes sv). match_weight rule (u_path u) = Inr (wt rule) \<and> (wt rule = 0 \<longrightarrow> rule = u_path u)"
  shows "\<exists>u' head h q c. new_url ssl stold (url_text u) = Inr u' \<and>
    request_header_data stold v11 (method_value m) (length body)
      (plain_arg (arg_set_cookies cs (arg_set_headers hs (new_arg u')))) new_helper = Inr (head, h) \<and>
    read_step stold sv new_request_parser (Read_bytes (head @ fst (body_data body h))) = Inr q \<and>
    call_on_request stold sv (new_context q) = run_ctrlr sv (tk_aop rt) c \<and>
    p_body (cx_parser c) = body \<and> is_finished (cx_parser c) \<and>
    rq_method (p_owner (cx_parser c)) = m \<and> rq_path (p_owner (cx_parser c)) = u_path u \<and>
    rq_parameters (p_owner (cx_parser c)) = u_parameters u \<and>
    rq_cookies (p_owner (cx_parser c)) = set_map_list [] cs"
proof -
  let ?arg = "plain_arg (arg_set_cookies cs (arg_set_headers hs (new_arg u)))"
  have read: "new_url ssl stold (url_text u) = Inr u"
    using url_set_whole [OF url(1), of blank_url] by (simp add: new_url_def blank_url_def)
  have params: "map_inv (u_parameters u)" "list_all good_parameter (u_parameters u)"
    using url(1) by (simp_all add: good_url_def)
  have arg: "good_request ?arg" by (rule good_plain_arg [OF url(2) params assms(4,5)])
  have parts: "ra_path ?arg = u_path u" "ra_parameters ?arg = u_parameters u" "ra_cookies ?arg = set_map_list [] cs"
    by (simp_all add: plain_arg_def arg_set_cookies_def arg_set_headers_def new_arg_def)
  obtain head h q c where "request_header_data stold v11 (method_value m) (length body) ?arg new_helper = Inr (head, h)"
      "read_step stold sv new_request_parser (Read_bytes (head @ fst (body_data body h))) = Inr q"
      "call_on_request stold sv (new_context q) = run_ctrlr sv (tk_aop rt) c"
      "p_body (cx_parser c) = body" "is_finished (cx_parser c)"
      "p_owner (cx_parser c) = (p_owner q)\<lparr>rq_method := m, rq_path := u_path u, rq_parameters := u_parameters u,
        rq_cookies := set_map_list [] cs, rq_path_args := []\<rparr>"
    using request_dispatched [of ?arg body sv rt m wt stold] arg assms(3,6-9) unfolding parts by blast
  with read show ?thesis
    by (intro exI [of _ u] exI [of _ head] exI [of _ h] exI [of _ q] exI [of _ c]) simp
qed


definition sample_url :: url where
  "sample_url = \<lparr>u_protocol = ''http'', u_path = ''/a/b'', u_address = ''h'', u_port = 81, u_parameters = [(''q'', ''x y'')]\<rparr>"

lemma sample_url_good: "good_url sample_url" "good_path (u_path sample_url)" "plain_path (u_path sample_url)"
proof -
  have "to_string 81 = ''81''" by code_simp
  then have "url_text sample_url = ''http://h:81/a/b?q=x y''"
    by (simp add: sample_url_def url_text_def query_text_def)
  then show "good_url sample_url"
    by (simp add: good_url_def) (simp add: sample_url_def good_address_def starts_with_def good_parameter_def
        map_inv_Cons is_blank_def schar_def uchar_def)
  show "good_path (u_path sample_url)" "plain_path (u_path sample_url)"
    using own_path by (simp_all add: sample_url_def good_path_def)
qed

theorem url_reaches_controller_witness:
  "\<exists>u head h q c. new_url False (\<lambda>s. Inl Invalid_argument) (url_text sample_url) = Inr u \<and>
    request_header_data (\<lambda>s. Inl Invalid_argument) v11 (method_value POST) (length ''hello'')
      (plain_arg (arg_set_cookies [(''ID'', ''7'')] (arg_set_headers [] (new_arg u)))) new_helper = Inr (head, h) \<and>
    read_step (\<lambda>s. Inl Invalid_argument) two_routes_server new_request_parser
      (Read_bytes (head @ fst (body_data ''hello'' h))) = Inr q \<and>
    call_on_request (\<lambda>s. Inl Invalid_argument) two_routes_server (new_context q) =
      run_ctrlr two_routes_server (tk_aop (idle_route POST)) c \<and>
    rq_path (p_owner (cx_parser c)) = ''/a/b''"
proof -
  have cookie: "list_all (\<lambda>(k, v). good_cookie (str_to_lower k, v)) [(''ID'', ''7'')]"
  proof -
    have "str_to_lower ''ID'' = ''id''" by code_simp
    then show ?thesis by (simp add: good_cookie_def trim_id is_blank_def schar_def uchar_def)
  qed
  have path: "u_path sample_url = ''/a/b''" by (simp add: sample_url_def)
  have route: "map_of (sv_routes two_routes_server) (u_path sample_url) = Some (idle_route POST)"
    by (simp add: two_routes_server_def path)
  have tk: "tk_method (idle_route POST) AND method_value POST \<noteq> 0"
    unfolding idle_route_def by code_simp
  have weights: "\<forall>rule \<in> fst ` set (sv_routes two_routes_server).
      match_weight rule (u_path sample_url) = Inr (own_weight rule) \<and>
      (own_weight rule = 0 \<longrightarrow> rule = u_path sample_url)"
    using two_routes_weights by (auto simp: path)
  have small: "length ''hello'' < 2 ^ 64" by simp
  from url_reaches_controller [where stold = "\<lambda>s. Inl Invalid_argument" and hs = "[]" and ssl = False,
      OF sample_url_good _ cookie small route tk weights]
  show ?thesis unfolding path by auto
qed

end
