(* ===== verification/Server_Life.thy ===== *)
theory Server_Life
  imports Http_Server
begin

text \<open>
  Starting and stopping a server (\<^verbatim>\<open>libgs/http/server/detail/server.h\<close>): the accept loop is a
  coroutine that waits for a connection, dispatches its service and waits again. A machine
  whose events are the calls of the program, what the acceptor completes, the resumptions of
  the loops and the ends of services, which are those of \<open>Http_Server\<close>. Of the acceptor it
  takes what asio documents: cancelling or closing it ends the accepts that are pending, with
  an error, and not the ones that have completed; an accept on one that is closed fails, and
  cancelling one that is closed throws. What leaves a detached coroutine is dropped. The
  server is the one without SSL: the accept with SSL (\<^verbatim>\<open>acceptor_wrap.h:168\<close>) calls a member
  that takes no argument, as if it were static, with one, and cannot be instantiated.
\<close>

section \<open>The state\<close>

datatype accept_state =
    Starting
  | Accepting
  | Got_socket bool
  | Failed nat
  | Finished

record server_life =
  sl_server :: server
  sl_start :: bool
  sl_open :: bool
  sl_loops :: "accept_state list"
  sl_accepted :: nat
  sl_services :: nat
  sl_ended :: nat
  sl_dead :: bool

definition new_life :: "server \<Rightarrow> server_life" where
  "new_life sv =
     \<lparr>sl_server = sv, sl_start = False, sl_open = False, sl_loops = [], sl_accepted = 0, sl_services = 0,
      sl_ended = 0, sl_dead = False\<rparr>"

definition aborted :: nat where "aborted = 125"
definition bad_descriptor :: nat where "bad_descriptor = 9"

definition cancel_accepts :: "accept_state list \<Rightarrow> accept_state list" where
  "cancel_accepts = map (\<lambda>l. if l = Accepting then Failed aborted else l)"

section \<open>Calls\<close>

text \<open>\<^verbatim>\<open>bind\<close>, with the answers of the system to opening, to setting the option and to binding.\<close>

definition life_bind :: "nat \<Rightarrow> nat \<Rightarrow> nat \<Rightarrow> server_life \<Rightarrow> nat \<times> server_life" where
  "life_bind opened optioned bound s =
     (if \<not> sl_open s \<and> opened \<noteq> 0 then (opened, s)
      else
        let s = s\<lparr>sl_open := True\<rparr> in
        if optioned \<noteq> 0 then (optioned, s) else (bound, s))"

text \<open>\<^verbatim>\<open>start\<close>, with the answer of the system to listening on an open acceptor.\<close>

definition async_start :: "nat \<Rightarrow> server_life \<Rightarrow> nat \<times> server_life" where
  "async_start listened s =
     (if sl_start s then (0, s)
      else
        let error = (if sl_open s then listened else bad_descriptor) in
        if error \<noteq> 0 then (error, s)
        else (0, s\<lparr>sl_start := True, sl_loops := sl_loops s @ [Starting]\<rparr>))"

text \<open>\<^verbatim>\<open>stop\<close>, \<^verbatim>\<open>cancel\<close> and the destructor; they are \<^verbatim>\<open>noexcept\<close>, so what cancelling throws ends the program.\<close>

definition life_stop :: "server_life \<Rightarrow> server_life" where
  "life_stop s =
     (let s = s\<lparr>sl_start := False\<rparr> in
      if sl_open s then s\<lparr>sl_loops := cancel_accepts (sl_loops s)\<rparr> else s\<lparr>sl_dead := True\<rparr>)"

section \<open>The accept loop\<close>

definition accept_next :: "nat \<Rightarrow> server_life \<Rightarrow> server_life" where
  "accept_next i s = s\<lparr>sl_loops := (sl_loops s)[i := if sl_open s then Accepting else Failed bad_descriptor]\<rparr>"

text \<open>
  Behind the loop: the acceptor is cancelled and closed, and an exception ends the program,
  unless cancelling throws.
\<close>

definition end_loop :: "nat \<Rightarrow> bool \<Rightarrow> server_life \<Rightarrow> server_life" where
  "end_loop i abd s =
     (if \<not> sl_open s then s\<lparr>sl_loops := (sl_loops s)[i := Finished]\<rparr>
      else s\<lparr>sl_loops := (cancel_accepts (sl_loops s))[i := Finished], sl_open := False, sl_start := False,
             sl_dead := sl_dead s \<or> abd\<rparr>)"

definition handled :: "server \<Rightarrow> nat \<Rightarrow> bool" where
  "handled sv e = (case sv_server_error sv of None \<Rightarrow> False | Some f \<Rightarrow> f e)"

definition accept_turn :: "nat \<Rightarrow> server_life \<Rightarrow> server_life" where
  "accept_turn i s =
     (if length (sl_loops s) \<le> i then s
      else case sl_loops s ! i of
             Starting \<Rightarrow> accept_next i s
           | Got_socket opn \<Rightarrow>
               accept_next i (if \<not> opn then s else s\<lparr>sl_services := sl_services s + 1\<rparr>)
           | Failed e \<Rightarrow>
               if \<not> sl_start s then end_loop i False s
               else if handled (sl_server s) e then accept_next i s
               else end_loop i True s
           | _ \<Rightarrow> s)"

text \<open>What the acceptor completes goes to the accept that has waited longest.\<close>

fun complete :: "accept_state \<Rightarrow> accept_state list \<Rightarrow> accept_state list option" where
  "complete x [] = None"
| "complete x (l # ls) = (if l = Accepting then Some (x # ls) else map_option (Cons l) (complete x ls))"

text \<open>A service that ends by an exception ends the program.\<close>

definition service_end :: "stold_fn \<Rightarrow> read_event list \<Rightarrow> server_life \<Rightarrow> server_life" where
  "service_end stold es s =
     (let s = s\<lparr>sl_ended := sl_ended s + 1\<rparr> in
      case do_tcp_service stold (sl_server s) new_request_parser es of
        (Some (Killed e), out) \<Rightarrow> s\<lparr>sl_dead := True\<rparr>
      | _ \<Rightarrow> s)"

section \<open>The machine\<close>

datatype life_event =
    Bind nat nat nat
  | Start nat
  | Stop
  | Resume nat
  | Connect bool
  | Accept_fails nat
  | Service "read_event list"

inductive life_step :: "stold_fn \<Rightarrow> server_life \<Rightarrow> life_event \<Rightarrow> server_life \<Rightarrow> bool" for stold where
  bind: "\<not> sl_dead s \<Longrightarrow> life_step stold s (Bind a b c) (snd (life_bind a b c s))"
| start: "\<not> sl_dead s \<Longrightarrow> life_step stold s (Start n) (snd (async_start n s))"
| stop: "\<not> sl_dead s \<Longrightarrow> life_step stold s Stop (life_stop s)"
| resume: "\<not> sl_dead s \<Longrightarrow> life_step stold s (Resume i) (accept_turn i s)"
| connect: "\<not> sl_dead s \<Longrightarrow> complete (Got_socket opn) (sl_loops s) = Some ls \<Longrightarrow>
    life_step stold s (Connect opn)
      (s\<lparr>sl_loops := ls, sl_accepted := sl_accepted s + (if opn then 1 else 0)\<rparr>)"
| fails: "\<not> sl_dead s \<Longrightarrow> complete (Failed e) (sl_loops s) = Some ls \<Longrightarrow>
    life_step stold s (Accept_fails e) (s\<lparr>sl_loops := ls\<rparr>)"
| service: "\<not> sl_dead s \<Longrightarrow> sl_ended s < sl_services s \<Longrightarrow> life_step stold s (Service es) (service_end stold es s)"

inductive life_steps :: "stold_fn \<Rightarrow> server_life \<Rightarrow> life_event list \<Rightarrow> server_life \<Rightarrow> bool" for stold where
  no_steps: "life_steps stold s [] s"
| one_more: "life_step stold s e s2 \<Longrightarrow> life_steps stold s2 es s3 \<Longrightarrow> life_steps stold s (e # es) s3"

inductive_simps life_step_simps [simp]:
  "life_step stold s (Bind a b c) s2"
  "life_step stold s (Start n) s2"
  "life_step stold s Stop s2"
  "life_step stold s (Resume i) s2"
  "life_step stold s (Connect opn) s2"
  "life_step stold s (Accept_fails e) s2"
  "life_step stold s (Service es) s2"

inductive_simps life_steps_simps [simp]:
  "life_steps stold s [] s3"
  "life_steps stold s (e # es) s3"

section \<open>Invariants\<close>

definition life_inv :: "server_life \<Rightarrow> bool" where
  "life_inv s \<longleftrightarrow> (sl_start s \<longrightarrow> sl_open s \<and> (\<exists>l \<in> set (sl_loops s). l \<noteq> Finished)) \<and>
     sl_accepted s = sl_services s + count_list (sl_loops s) (Got_socket True)"

lemma count_list_update:
  "i < length xs \<Longrightarrow>
   count_list (xs[i := x]) a + (if xs ! i = a then 1 else 0) = count_list xs a + (if x = a then 1 else 0)"
proof (induction xs arbitrary: i)
  case (Cons y xs)
  then show ?case
  proof (cases i)
    case (Suc j)
    then show ?thesis using Cons.IH [of j] Cons.prems by (auto split: if_splits)
  qed auto
qed simp

lemma count_cancel [simp]: "count_list (cancel_accepts ls) (Got_socket True) = count_list ls (Got_socket True)"
  by (induction ls) (auto simp: cancel_accepts_def)

lemma cancel_nth: "i < length ls \<Longrightarrow> cancel_accepts ls ! i = (if ls ! i = Accepting then Failed aborted else ls ! i)"
  by (simp add: cancel_accepts_def)

lemma cancel_length [simp]: "length (cancel_accepts ls) = length ls"
  by (simp add: cancel_accepts_def)

lemma complete_spec:
  "complete x ls = Some ls' \<Longrightarrow>
   \<exists>i < length ls. ls ! i = Accepting \<and> ls' = ls[i := x] \<and> Accepting \<notin> set (take i ls)"
proof (induction ls arbitrary: ls')
  case (Cons l ls)
  show ?case
  proof (cases "l = Accepting")
    case True
    then show ?thesis using Cons.prems by (intro exI [of _ 0]) auto
  next
    case False
    then obtain r where r: "complete x ls = Some r" "ls' = l # r" using Cons.prems by auto
    from Cons.IH [OF r(1)] obtain i where "i < length ls" "ls ! i = Accepting" "r = ls[i := x]" "Accepting \<notin> set (take i ls)"
      by blast
    then show ?thesis using False r(2) by (intro exI [of _ "Suc i"]) auto
  qed
qed simp

lemma accept_next_inv:
  assumes "i < length (sl_loops s)"
    and "sl_accepted s + (if sl_loops s ! i = Got_socket True then 1 else 0) =
      sl_services s + count_list (sl_loops s) (Got_socket True)"
    and "sl_start s \<longrightarrow> sl_open s"
  shows "life_inv (accept_next i s)"
proof -
  let ?x = "if sl_open s then Accepting else Failed bad_descriptor"
  have "?x \<in> set ((sl_loops s)[i := ?x])" by (rule set_update_memI [OF assms(1)])
  then have "\<exists>l \<in> set ((sl_loops s)[i := ?x]). l \<noteq> Finished" by (rule rev_bexI) simp
  moreover have "count_list ((sl_loops s)[i := ?x]) (Got_socket True) + (if sl_loops s ! i = Got_socket True then 1 else 0) =
      count_list (sl_loops s) (Got_socket True)"
    using count_list_update [OF assms(1), of ?x "Got_socket True"] by (auto split: if_splits)
  ultimately show ?thesis using assms(2,3) by (auto simp: life_inv_def accept_next_def split: if_splits)
qed

lemma end_loop_inv:
  assumes "i < length (sl_loops s)" "sl_loops s ! i = Failed e" "life_inv s"
  shows "life_inv (end_loop i abd s)"
proof -
  have "count_list ((cancel_accepts (sl_loops s))[i := Finished]) (Got_socket True) =
      count_list (sl_loops s) (Got_socket True)"
    using count_list_update [of i "cancel_accepts (sl_loops s)" Finished "Got_socket True"] assms(1,2)
    by (simp add: cancel_nth)
  moreover have "count_list ((sl_loops s)[i := Finished]) (Got_socket True) = count_list (sl_loops s) (Got_socket True)"
    using count_list_update [of i "sl_loops s" Finished "Got_socket True"] assms(1,2) by simp
  ultimately show ?thesis using assms(3) by (auto simp: life_inv_def end_loop_def)
qed

lemma accept_turn_inv: "life_inv s \<Longrightarrow> life_inv (accept_turn i s)"
proof (cases "i < length (sl_loops s)")
  case True
  assume inv: "life_inv s"
  then have acc: "sl_accepted s = sl_services s + count_list (sl_loops s) (Got_socket True)" "sl_start s \<longrightarrow> sl_open s"
    by (simp_all add: life_inv_def)
  show ?thesis
  proof (cases "sl_loops s ! i")
    case (Got_socket opn)
    then show ?thesis using True acc by (cases opn) (auto simp: accept_turn_def intro!: accept_next_inv)
  qed (use True acc inv in \<open>auto simp: accept_turn_def intro!: accept_next_inv end_loop_inv\<close>)
qed (simp add: accept_turn_def)

lemma complete_inv:
  assumes "complete x ls = Some ls'" "x \<noteq> Finished"
  shows "count_list ls' (Got_socket True) = count_list ls (Got_socket True) + (if x = Got_socket True then 1 else 0)"
    and "\<exists>l \<in> set ls'. l \<noteq> Finished"
proof -
  obtain i where i: "i < length ls" "ls ! i = Accepting" "ls' = ls[i := x]" using complete_spec [OF assms(1)] by blast
  show "count_list ls' (Got_socket True) = count_list ls (Got_socket True) + (if x = Got_socket True then 1 else 0)"
    using count_list_update [OF i(1), of x "Got_socket True"] i(2,3) by simp
  show "\<exists>l \<in> set ls'. l \<noteq> Finished" using set_update_memI [OF i(1), of x] assms(2) i(3) by blast
qed

lemma life_inv_step: "life_step stold s e s2 \<Longrightarrow> life_inv s \<Longrightarrow> life_inv s2"
proof (induction rule: life_step.induct)
  case (bind s a b c)
  then show ?case by (auto simp: life_bind_def life_inv_def Let_def)
next
  case (start s n)
  then show ?case by (auto simp: async_start_def life_inv_def bad_descriptor_def Let_def split: if_splits)
next
  case (connect s opn ls)
  then show ?case using complete_inv [of "Got_socket opn" "sl_loops s" ls] by (simp add: life_inv_def)
next
  case (fails s e ls)
  then show ?case using complete_inv [of "Failed e" "sl_loops s" ls] by (simp add: life_inv_def)
next
  case (service s es)
  then show ?case
    by (auto simp: service_end_def Let_def life_inv_def split: option.splits prod.splits served.splits)
qed (simp_all add: accept_turn_inv, simp add: life_inv_def life_stop_def Let_def)

lemma life_inv_steps: "life_steps stold s es s2 \<Longrightarrow> life_inv s \<Longrightarrow> life_inv s2"
  by (induction rule: life_steps.induct) (auto dest: life_inv_step)

section \<open>Properties\<close>

text \<open>C13.
  Whatever happens to a new server, every open connection that the acceptor completes is
  handed to one service, or is in the hands of a loop that will do so; and a server that counts
  as started has an open acceptor and a loop that is not finished.
\<close>

theorem accepted_are_served:
  assumes "life_steps stold (new_life sv) es s"
  shows "sl_accepted s = sl_services s + count_list (sl_loops s) (Got_socket True) \<and>
    (sl_start s \<longrightarrow> sl_open s \<and> (\<exists>l \<in> set (sl_loops s). l \<noteq> Finished))"
proof -
  have "life_inv (new_life sv)" by (simp add: new_life_def life_inv_def)
  from life_inv_steps [OF assms this] show ?thesis by (simp add: life_inv_def)
qed

text \<open>A server that was bound and started, and has taken one connection.\<close>

definition busy_life :: server_life where
  "busy_life =
     \<lparr>sl_server = new_server, sl_start = True, sl_open = True, sl_loops = [Got_socket True], sl_accepted = 1,
      sl_services = 0, sl_ended = 0, sl_dead = False\<rparr>"

lemma busy_steps: "life_steps stold (new_life new_server) [Bind 0 0 0, Start 0, Resume 0, Connect True] busy_life"
  by (simp add: new_life_def busy_life_def life_bind_def async_start_def accept_turn_def accept_next_def Let_def)

theorem accepted_are_served_witness:
  "sl_accepted busy_life = 1 \<and> sl_services busy_life + count_list (sl_loops busy_life) (Got_socket True) = 1"
  using accepted_are_served [OF busy_steps [of "\<lambda>s. Inl Invalid_argument"]] by (simp add: busy_life_def)

text \<open>
  Stopping a server whose loop waits: the loop ends with its next turn, the acceptor is closed,
  no error is reported, and the server can be bound and started again.
\<close>

theorem stop_ends_loop:
  assumes "\<not> sl_dead s" "sl_open s" "i < length (sl_loops s)" "sl_loops s ! i = Accepting"
  shows "\<exists>s2. life_steps stold s [Stop, Resume i] s2 \<and> sl_loops s2 ! i = Finished \<and> \<not> sl_open s2 \<and> \<not> sl_start s2 \<and>
    \<not> sl_dead s2 \<and> sl_services s2 = sl_services s \<and> Accepting \<notin> set (sl_loops s2)"
proof -
  let ?ls = "cancel_accepts (cancel_accepts (sl_loops s))"
  have "Accepting \<notin> set ?ls" by (auto simp: cancel_accepts_def)
  moreover have "set (?ls[i := Finished]) \<subseteq> insert Finished (set ?ls)" by (rule set_update_subset_insert)
  ultimately have "Accepting \<notin> set (?ls[i := Finished])" by auto
  then show ?thesis using assms by (simp add: life_stop_def accept_turn_def end_loop_def cancel_nth Let_def)
qed

theorem stop_ends_loop_witness:
  "\<exists>s2. life_steps (\<lambda>s. Inl Invalid_argument) (busy_life\<lparr>sl_loops := [Accepting]\<rparr>) [Stop, Resume 0] s2 \<and>
    sl_loops s2 ! 0 = Finished \<and> \<not> sl_open s2"
  using stop_ends_loop [of "busy_life\<lparr>sl_loops := [Accepting]\<rparr>" 0 "\<lambda>s. Inl Invalid_argument"]
  by (auto simp: busy_life_def)

text \<open>C14.
  Stopping a server that has stopped ends the program: the acceptor is closed by then, and
  \<^verbatim>\<open>stop\<close> is \<^verbatim>\<open>noexcept\<close>. The destructor stops the server, so this is also what becomes
  of a server that was stopped in good order and is destroyed, and of one never bound.
\<close>

theorem stopped_twice_kills:
  assumes "\<not> sl_dead s" "sl_open s" "i < length (sl_loops s)" "sl_loops s ! i = Accepting"
  shows "(\<exists>s2. life_steps stold s [Stop, Resume i, Stop] s2 \<and> sl_dead s2) \<and>
    (\<exists>s3. life_steps stold (new_life sv) [Stop] s3 \<and> sl_dead s3)"
  using assms
  by (simp_all add: life_stop_def accept_turn_def end_loop_def cancel_nth Let_def new_life_def)

theorem stopped_twice_kills_witness:
  "\<exists>s2. life_steps (\<lambda>s. Inl Invalid_argument) (busy_life\<lparr>sl_loops := [Accepting]\<rparr>) [Stop, Resume 0, Stop] s2 \<and> sl_dead s2"
  using stopped_twice_kills [of "busy_life\<lparr>sl_loops := [Accepting]\<rparr>" 0 "\<lambda>s. Inl Invalid_argument"]
  by (auto simp: busy_life_def)

text \<open>C15.
  Stopping a server whose loop has just been given a connection: no accept is pending, so
  nothing is cancelled. The loop serves the connection and waits for the next one, and so on
  for any number of them, although the server counts as stopped.
\<close>

theorem stop_missed_by_loop:
  assumes "\<not> sl_dead s" "sl_open s" "i < length (sl_loops s)" "sl_loops s ! i = Got_socket True"
    and "Accepting \<notin> set (take i (sl_loops s))"
  shows "\<exists>s2. life_steps stold s (Stop # Resume i # concat (replicate n [Connect True, Resume i])) s2 \<and>
    sl_services s2 = sl_services s + n + 1 \<and> \<not> sl_start s2 \<and> sl_open s2 \<and> sl_loops s2 ! i = Accepting"
proof -
  have first: "complete x ls = Some (ls[i := x])" if "i < length ls" "ls ! i = Accepting" "Accepting \<notin> set (take i ls)" for x ls i
    using that by (induction ls arbitrary: i) (auto split: nat.splits simp: nth_Cons take_Cons)
  have rounds: "\<exists>s2. life_steps stold t (concat (replicate n [Connect True, Resume i])) s2 \<and>
      sl_services s2 = sl_services t + n \<and> \<not> sl_start s2 \<and> sl_open s2 \<and> sl_loops s2 ! i = Accepting"
    if "\<not> sl_dead t" "sl_open t" "\<not> sl_start t" "i < length (sl_loops t)" "sl_loops t ! i = Accepting"
      "Accepting \<notin> set (take i (sl_loops t))" for t
    using that
  proof (induction n arbitrary: t)
    case 0
    then show ?case by simp
  next
    case (Suc n)
    let ?t = "t\<lparr>sl_accepted := sl_accepted t + 1, sl_services := sl_services t + 1,
      sl_loops := (sl_loops t)[i := Got_socket True, i := Accepting]\<rparr>"
    have "life_steps stold t [Connect True, Resume i] ?t"
      using Suc.prems first [OF Suc.prems(4-6), of "Got_socket True"] by (simp add: accept_turn_def accept_next_def)
    moreover obtain s2 where "life_steps stold ?t (concat (replicate n [Connect True, Resume i])) s2"
        "sl_services s2 = sl_services ?t + n" "\<not> sl_start s2" "sl_open s2" "sl_loops s2 ! i = Accepting"
      using Suc.IH [of ?t] Suc.prems by auto
    ultimately show ?case by (intro exI [of _ s2]) auto
  qed
  let ?t = "s\<lparr>sl_start := False, sl_services := sl_services s + 1, sl_loops := (cancel_accepts (sl_loops s))[i := Accepting]\<rparr>"
  have "Accepting \<notin> set (cancel_accepts (sl_loops s))" by (auto simp: cancel_accepts_def)
  then have "Accepting \<notin> set (take i (cancel_accepts (sl_loops s)))" by (meson in_set_takeD)
  then obtain s2 where "life_steps stold ?t (concat (replicate n [Connect True, Resume i])) s2"
      "sl_services s2 = sl_services ?t + n" "\<not> sl_start s2" "sl_open s2" "sl_loops s2 ! i = Accepting"
    using rounds [of ?t] assms(1-4) by auto
  moreover have "life_steps stold s [Stop, Resume i] ?t"
    using assms by (simp add: life_stop_def accept_turn_def accept_next_def cancel_nth Let_def)
  ultimately show ?thesis by (intro exI [of _ s2]) auto
qed

theorem stop_missed_by_loop_witness:
  "\<exists>s2. life_steps (\<lambda>s. Inl Invalid_argument) busy_life [Stop, Resume 0, Connect True, Resume 0] s2 \<and>
    sl_services s2 = 2 \<and> \<not> sl_start s2"
  using stop_missed_by_loop [of busy_life 0 "\<lambda>s. Inl Invalid_argument" 1] by (auto simp: busy_life_def)

text \<open>
  Stopping a server and starting it again before the loop has had its turn: the loop takes the
  error of its cancelled accept for one of the running server. Without a handler that accepts
  it, the program is ended.
\<close>

theorem restart_kills:
  assumes "\<not> sl_dead s" "sl_open s" "i < length (sl_loops s)" "sl_loops s ! i = Accepting"
  shows "\<exists>s2. life_steps stold s [Stop, Start 0, Resume i] s2 \<and> sl_dead s2 = (\<not> handled (sl_server s) aborted) \<and>
    length (sl_loops s2) = length (sl_loops s) + 1"
  using assms
  by (auto simp: life_stop_def async_start_def accept_turn_def end_loop_def accept_next_def cancel_nth nth_append Let_def)

theorem restart_kills_witness:
  "\<exists>s2. life_steps (\<lambda>s. Inl Invalid_argument) (busy_life\<lparr>sl_loops := [Accepting]\<rparr>) [Stop, Start 0, Resume 0] s2 \<and> sl_dead s2"
  using restart_kills [of "busy_life\<lparr>sl_loops := [Accepting]\<rparr>" 0 "\<lambda>s. Inl Invalid_argument"]
  by (auto simp: busy_life_def handled_def new_server_def)

text \<open>
  One connection ends the whole program: an error of its first read that the handler of the
  server does not accept, unless it is one of those that mean a closed connection.
\<close>

theorem read_error_kills:
  assumes "\<not> sl_dead s" "sl_ended s < sl_services s" "e \<notin> errc_closed" "\<not> handled (sl_server s) e"
  shows "\<exists>s2. life_steps stold s [Service [Read_error e]] s2 \<and> sl_dead s2"
  using assms
  by (auto simp: service_end_def Let_def read_step_def on_read_error_def handled_def split: option.splits)

theorem read_error_kills_witness:
  "\<exists>s2. life_steps (\<lambda>s. Inl Invalid_argument) (busy_life\<lparr>sl_services := 1\<rparr>) [Service [Read_error 104]] s2 \<and> sl_dead s2"
  using read_error_kills [of "busy_life\<lparr>sl_services := 1\<rparr>" 104 "\<lambda>s. Inl Invalid_argument"]
  by (auto simp: busy_life_def errc_closed_def handled_def new_server_def)

end
