(* ===== verification/Server_Session.thy ===== *)
theory Server_Session
  imports Http_Server Http_Session Uuid
begin

text \<open>
  Sessions of the server as its handlers use them (\<^verbatim>\<open>libgs/http/server/detail/context.h\<close>): the
  cookie of the request names the session, which is looked up or made, and its identifier goes
  out with the cookie of the response. Here the set of \<open>Http_Session\<close>, the requests and
  responses of \<open>Http_Server\<close> and the identifiers of \<open>Uuid\<close> meet. The type of a session object
  is that of the library, \<^verbatim>\<open>basic_session\<close>.
\<close>

section \<open>The functions of the context\<close>

definition cookie_or :: "string \<Rightarrow> string \<Rightarrow> service_ctx \<Rightarrow> string" where
  "cookie_or key def_value c = get_map_value_or (rq_cookies (p_owner (cx_parser c))) key def_value"

text \<open>The identifier of a new session, from the random words of its generation.\<close>

definition session_id :: "bool \<Rightarrow> u64 \<Rightarrow> u64 \<Rightarrow> string" where
  "session_id big r0 r1 = uuid_to_string big (generate big r0 r1) False"

definition answer_session :: "string \<Rightarrow> 'a session \<Rightarrow> service_ctx \<Rightarrow> service_ctx" where
  "answer_session key s c = c\<lparr>cx_response := set_cookie key (cookie_of (s_id s)) (cx_response c)\<rparr>"

definition context_session ::
    "bool \<Rightarrow> string \<Rightarrow> service_ctx \<Rightarrow> 'a session_set \<Rightarrow> 'a session \<times> service_ctx \<times> 'a session_set" where
  "context_session early fresh c ss =
     (let key = ss_cookie_key ss;
          i = cookie_or key [] c;
          (s, ss) = get_or_make early fresh i ss
      in (s, answer_session key s c, ss))"

text \<open>\<^verbatim>\<open>session_or\<close> uses what it has found without asking: \<^const>\<open>None\<close> is the end of the program.\<close>

definition context_session_or ::
    "service_ctx \<Rightarrow> 'a session_set \<Rightarrow> ('a session \<times> service_ctx \<times> 'a session_set) option" where
  "context_session_or c ss =
     (let key = ss_cookie_key ss;
          i = cookie_or key [] c
      in case find_session i ss of
           (None, ss) \<Rightarrow> None
         | (Some s, ss) \<Rightarrow> Some (s, answer_session key s c, ss))"

section \<open>What happens to the sessions\<close>

text \<open>
  The events between two requests of one client: what other requests do, what handlers do with
  the sessions they hold, the coroutines that go on, and time.
\<close>

datatype 'a session_event =
    Request_session bool string string
  | Expand string "64 word"
  | Lifecycle string "64 word"
  | Attribute string string 'a
  | Invalidate string
  | Resume string
  | Elapse nat

fun session_does :: "'a session_event \<Rightarrow> nat \<times> 'a session_set \<Rightarrow> nat \<times> 'a session_set" where
  "session_does (Request_session early fresh i) (now, ss) = (now, snd (get_or_make early fresh i ss))"
| "session_does (Expand i d) (now, ss) = (now, change_session i (expand_by d) ss)"
| "session_does (Lifecycle i d) (now, ss) = (now, change_session i (set_lifecycle d) ss)"
| "session_does (Attribute i key v) (now, ss) = (now, change_session i (session_set_attribute key v) ss)"
| "session_does (Invalidate i) (now, ss) = (now, change_session i invalidate ss)"
| "session_does (Resume i) (now, ss) =
     (now, case map_of (ss_map ss) i of
             None \<Rightarrow> ss
           | Some s \<Rightarrow> if can_resume now s then resume_session now i ss else ss)"
| "session_does (Elapse d) (now, ss) = (now + d, ss)"

definition sessions_do :: "'a session_event list \<Rightarrow> nat \<times> 'a session_set \<Rightarrow> nat \<times> 'a session_set" where
  "sessions_do es x = foldl (\<lambda>x e. session_does e x) x es"

lemma sessions_do_simps [simp]:
  "sessions_do [] x = x"
  "sessions_do (e # es) x = sessions_do es (session_does e x)"
  by (simp_all add: sessions_do_def)

definition elapsed :: "'a session_event list \<Rightarrow> nat" where
  "elapsed es = sum_list (map (\<lambda>e. case e of Elapse d \<Rightarrow> d | _ \<Rightarrow> 0) es)"

lemma elapsed_simps [simp]:
  "elapsed [] = 0"
  "elapsed (e # es) = (case e of Elapse d \<Rightarrow> d | _ \<Rightarrow> 0) + elapsed es"
  by (simp_all add: elapsed_def)

text \<open>
  Nobody shortens the life of the session, whose lifecycle is \<open>n\<close>: it is not invalidated, its
  lifecycle is not set to less, and expanding it does not wrap.
\<close>

fun spares :: "string \<Rightarrow> 64 word \<Rightarrow> 'a session_event list \<Rightarrow> bool" where
  "spares i n [] \<longleftrightarrow> True"
| "spares i n (Expand j d # es) \<longleftrightarrow> (if j = i then n \<le> n + d \<and> spares i (n + d) es else spares i n es)"
| "spares i n (Lifecycle j d # es) \<longleftrightarrow> (if j = i then n \<le> d \<and> spares i (if d = 0 then 1 else d) es else spares i n es)"
| "spares i n (Invalidate j # es) \<longleftrightarrow> j \<noteq> i \<and> spares i n es"
| "spares i n (e # es) \<longleftrightarrow> spares i n es"

text \<open>The lifecycle of a session after an event.\<close>

fun second_after :: "string \<Rightarrow> 64 word \<Rightarrow> 'a session_event \<Rightarrow> 64 word" where
  "second_after i n (Expand j d) = (if j = i then n + d else n)"
| "second_after i n (Lifecycle j d) = (if j = i then (if d = 0 then 1 else d) else n)"
| "second_after i n e = n"

lemma spares_Cons: "spares i n (e # es) \<longleftrightarrow> spares i n [e] \<and> spares i (second_after i n e) es"
  by (cases e) auto

text \<open>The attributes that are set meanwhile.\<close>

definition attributes_set :: "string \<Rightarrow> 'a session_event list \<Rightarrow> (string, 'a) std_map \<Rightarrow> (string, 'a) std_map" where
  "attributes_set i es m =
     foldl (\<lambda>m e. case e of Attribute j key v \<Rightarrow> (if j = i then map_put m key v else m) | _ \<Rightarrow> m) m es"

section \<open>A session lives on\<close>

definition lives :: "string \<Rightarrow> nat \<Rightarrow> 64 word \<Rightarrow> (string, 'a) std_map \<Rightarrow> nat \<times> 'a session_set \<Rightarrow> bool" where
  "lives i until n m x \<longleftrightarrow>
     (\<exists>s. map_of (ss_map (snd x)) i = Some s \<and> s_id s = i \<and> s_attributes s = m \<and> s_second s = n \<and> until \<le> fst x + unat n \<and>
        (s_restart s \<or> (case s_wait s of Waiting t \<Rightarrow> until \<le> t | Cancelled \<Rightarrow> False | _ \<Rightarrow> True)))"

lemma change_other: "j \<noteq> i \<Longrightarrow> map_of (ss_map (change_session j f ss)) i = map_of (ss_map ss) i"
  by (simp add: change_session_def split: option.split)

lemma change_own: "map_of (ss_map ss) i = Some s \<Longrightarrow> map_of (ss_map (change_session i f ss)) i = Some (f s)"
  by (simp add: change_session_def)

lemma resume_other: "j \<noteq> i \<Longrightarrow> map_of (ss_map (resume_session now j ss)) i = map_of (ss_map ss) i"
  by (auto simp: resume_session_def erase_session_def map_of_erase split: option.split)

lemma get_or_make_other:
  assumes "map_of (ss_map ss) i = Some s" "j \<noteq> i"
  shows "map_of (ss_map (snd (get_or_make early fresh j ss))) i = Some s"
proof (cases "map_of (ss_map ss) j")
  case None
  have "s_id (set_lifecycle n (new_session early fresh 60)) = fresh" for n
    by (simp add: set_lifecycle_def expand_def timer_cancel_def new_session_def split: session_wait.split)
  then show ?thesis using None assms
    by (auto simp: get_or_make_def find_session_def make_session_def emplace_session_def Let_def)
qed (use assms in \<open>simp add: get_or_make_def find_session_def\<close>)

lemma get_or_make_own:
  "map_of (ss_map ss) i = Some s \<Longrightarrow>
   get_or_make early fresh i ss = (expand s, ss\<lparr>ss_map := map_put (ss_map ss) i (expand s)\<rparr>)"
  by (simp add: get_or_make_def find_session_def)

lemma expand_fields [simp]:
  "s_id (expand s) = s_id s" "s_attributes (expand s) = s_attributes s" "s_second (expand s) = s_second s" "s_restart (expand s)"
  by (simp_all add: expand_def timer_cancel_def split: session_wait.split)

lemma lives_does:
  assumes "lives i until n m (now, ss)" "now < until" "spares i n [e]"
  shows "lives i until (second_after i n e) (attributes_set i [e] m) (session_does e (now, ss))"
proof -
  obtain s where s: "map_of (ss_map ss) i = Some s" "s_id s = i" "s_attributes s = m" "until \<le> now + unat n"
      "s_restart s \<or> (case s_wait s of Waiting t \<Rightarrow> until \<le> t | Cancelled \<Rightarrow> False | _ \<Rightarrow> True)" "s_second s = n"
    using assms(1) by (auto simp: lives_def)
  show ?thesis
  proof (cases e)
    case (Request_session early fresh j)
    then show ?thesis using s get_or_make_other [OF s(1), of j early fresh] get_or_make_own [OF s(1), of early fresh]
      by (cases "j = i") (auto simp: attributes_set_def lives_def)
  next
    case (Expand j d)
    have "until \<le> now + unat (n + d)" if "n \<le> n + d" using that s(4) by (simp add: word_le_nat_alt)
    then show ?thesis using Expand s assms(3) change_other [of j i "expand_by d" ss] change_own [OF s(1), of "expand_by d"]
      by (cases "j = i") (auto simp: attributes_set_def lives_def expand_by_def)
  next
    case (Lifecycle j d)
    have "until \<le> now + unat (if d = 0 then 1 else d)" if "n \<le> d" using that s(4) by (auto simp: word_le_nat_alt)
    then show ?thesis using Lifecycle s assms(3) change_other [of j i "set_lifecycle d" ss] change_own [OF s(1), of "set_lifecycle d"]
      by (cases "j = i") (auto simp: attributes_set_def lives_def set_lifecycle_def)
  next
    case (Attribute j key v)
    then show ?thesis using s change_other [of j i "session_set_attribute key v" ss] change_own [OF s(1), of "session_set_attribute key v"]
      by (cases "j = i")
        (auto simp: attributes_set_def lives_def session_set_attribute_def)
  next
    case (Invalidate j)
    then show ?thesis using s assms(3) change_other [of j i invalidate ss]
      by (auto simp: attributes_set_def lives_def)
  next
    case (Resume j)
    have "resume now s = Some (wait_again now s)" if "can_resume now s"
      using that s(5) assms(2) by (auto simp: resume_def can_resume_def split: session_wait.splits)
    then have "lives i until n m (session_does (Resume i) (now, ss))"
      using s by (auto simp: lives_def resume_session_def wait_again_def)
    moreover have "lives i until n m (session_does (Resume j) (now, ss))" if "j \<noteq> i"
      using that s resume_other [OF that, of now ss] by (auto simp: lives_def split: option.split)
    ultimately show ?thesis using Resume by (cases "j = i") (auto simp: attributes_set_def)
  next
    case (Elapse d)
    then show ?thesis using s by (auto simp: attributes_set_def lives_def)
  qed
qed

lemma fst_does: "fst (session_does e (now, ss)) = now + (case e of Elapse d \<Rightarrow> d | _ \<Rightarrow> 0)"
  by (cases e) simp_all

lemma lives_do:
  "lives i until n m x \<Longrightarrow> fst x + elapsed es < until \<Longrightarrow> spares i n es \<Longrightarrow>
   \<exists>n'. lives i until n' (attributes_set i es m) (sessions_do es x)"
proof (induction es arbitrary: x n m)
  case Nil
  then show ?case by (auto simp: attributes_set_def)
next
  case (Cons e es)
  obtain now ss where x: "x = (now, ss)" by (cases x)
  have spared: "spares i n [e]" "spares i (second_after i n e) es" using Cons.prems(3) spares_Cons [of i n e es] by simp_all
  have "lives i until (second_after i n e) (attributes_set i [e] m) (session_does e x)"
    using Cons.prems spared x by (intro lives_does [of _ _ _ _ now ss, folded x]) auto
  moreover have "fst (session_does e x) + elapsed es < until" using Cons.prems(2) by (simp add: x fst_does)
  ultimately obtain n' where "lives i until n' (attributes_set i es (attributes_set i [e] m)) (sessions_do es (session_does e x))"
    using Cons.IH spared(2) by blast
  then show ?case by (auto simp: attributes_set_def)
qed

text \<open>A session without a coroutine stays.\<close>

definition stays :: "string \<Rightarrow> (string, 'a) std_map \<Rightarrow> nat \<times> 'a session_set \<Rightarrow> bool" where
  "stays i m x \<longleftrightarrow>
     (\<exists>s. map_of (ss_map (snd x)) i = Some s \<and> s_id s = i \<and> s_attributes s = m \<and> s_wait s = Died)"

lemma stays_does:
  assumes "stays i m (now, ss)"
  shows "stays i (attributes_set i [e] m) (session_does e (now, ss))"
proof -
  obtain s where s: "map_of (ss_map ss) i = Some s" "s_id s = i" "s_attributes s = m" "s_wait s = Died"
    using assms by (auto simp: stays_def)
  show ?thesis
  proof (cases e)
    case (Request_session early fresh j)
    then show ?thesis using s get_or_make_other [OF s(1), of j early fresh] get_or_make_own [OF s(1), of early fresh]
      by (cases "j = i") (auto simp: attributes_set_def stays_def expand_def timer_cancel_def)
  next
    case (Resume j)
    have "stays i m (session_does (Resume j) (now, ss))" if "j \<noteq> i"
      using that s resume_other [OF that, of now ss] by (auto simp: stays_def split: option.split)
    then show ?thesis using Resume s by (cases "j = i") (auto simp: attributes_set_def stays_def can_resume_def)
  next
    case (Expand j d)
    then show ?thesis using s change_other [of j i "expand_by d" ss] change_own [OF s(1), of "expand_by d"]
      by (cases "j = i") (auto simp: attributes_set_def stays_def expand_by_def expand_def timer_cancel_def)
  next
    case (Lifecycle j d)
    then show ?thesis using s change_other [of j i "set_lifecycle d" ss] change_own [OF s(1), of "set_lifecycle d"]
      by (cases "j = i") (auto simp: attributes_set_def stays_def set_lifecycle_def expand_def timer_cancel_def)
  next
    case (Attribute j key v)
    then show ?thesis using s change_other [of j i "session_set_attribute key v" ss] change_own [OF s(1), of "session_set_attribute key v"]
      by (cases "j = i") (auto simp: attributes_set_def stays_def session_set_attribute_def)
  next
    case (Invalidate j)
    then show ?thesis using s change_other [of j i invalidate ss] change_own [OF s(1), of invalidate]
      by (cases "j = i") (auto simp: attributes_set_def stays_def invalidate_def timer_cancel_def)
  qed (use s in \<open>auto simp: attributes_set_def stays_def\<close>)
qed

lemma stays_do: "stays i m x \<Longrightarrow> stays i (attributes_set i es m) (sessions_do es x)"
proof (induction es arbitrary: x m)
  case (Cons e es)
  obtain now ss where "x = (now, ss)" by (cases x)
  then have "stays i (attributes_set i [e] m) (session_does e x)" using Cons.prems stays_does by simp
  from Cons.IH [OF this] show ?case by (simp add: attributes_set_def)
qed (simp add: attributes_set_def)

section \<open>To the client and back\<close>

lemma assigned_entry: "\<exists>k. (k, v) \<in> set (map_assign m key v) \<and> str_to_lower k = str_to_lower key"
proof (induction m key v rule: map_assign.induct)
  case (2 k v m key val)
  then show ?case using not_less_equiv [of k key] by auto
qed auto

lemma listed_text: "x \<in> set m \<Longrightarrow> \<exists>pre post. concat (map f m) = pre @ f x @ post"
  by (metis concat_append list.simps(9) map_append concat.simps(2) split_list)

lemma bare_cookie_line: "set_cookie_line k (cookie_of v) = ''set-cookie: '' @ k @ ''='' @ v @ CRLF"
  by (simp add: set_cookie_line_def cookie_of_def butlast_append)

lemma cookie_announced:
  assumes "h_state (rh_helper (cx_response c)) = Header"
    and "response_header_data stold n (cx_response (answer_session key s c)) = Inr (head, r)"
  shows "\<exists>k pre post. str_to_lower k = str_to_lower key \<and>
    head = pre @ ''set-cookie: '' @ k @ ''='' @ s_id s @ CRLF @ post"
proof -
  let ?cookies = "map_assign (rh_cookies (cx_response c)) (str_to_lower key) (cookie_of (s_id s))"
  obtain k where k: "(k, cookie_of (s_id s)) \<in> set ?cookies" "str_to_lower k = str_to_lower key"
    using assigned_entry [of "cookie_of (s_id s)" "rh_cookies (cx_response c)" "str_to_lower key"] by auto
  obtain pre post where "concat (map (\<lambda>(k, c). set_cookie_line k c) ?cookies) =
      pre @ set_cookie_line k (cookie_of (s_id s)) @ post"
    using listed_text [OF k(1), of "\<lambda>(k, c). set_cookie_line k c"] by auto
  moreover obtain lines where "head = lines @ concat (map (\<lambda>(k, c). set_cookie_line k c) ?cookies) @ CRLF"
    using assms by (auto simp: answer_session_def set_cookie_def set_map_def response_header_data_def res_bind_def Let_def
        split: sum.splits prod.splits)
  ultimately have "head = (lines @ pre) @ ''set-cookie: '' @ k @ ''='' @ s_id s @ CRLF @ post @ CRLF"
    by (simp add: bare_cookie_line)
  with k(2) show ?thesis by blast
qed

lemma cookies_arrive:
  assumes "good_request arg" "length body < 2 ^ 64"
  shows "\<exists>head h q. request_header_data stold v11 (method_value m) (length body) arg new_helper = Inr (head, h) \<and>
    read_step stold sv new_request_parser (Read_bytes (head @ fst (body_data body h))) = Inr q \<and>
    cookie_or key d (new_context q) = get_map_value_or (ra_cookies arg) key d"
proof -
  obtain head h q where
    print: "request_header_data stold v11 (method_value m) (length body) arg new_helper = Inr (head, h)" and
    read: "request_append stold (head @ fst (body_data body h)) new_request_parser = Inr (True, None, q)" and
    q: "rq_cookies (p_owner q) = ra_cookies arg"
    using request_crosses [OF assms, of stold m] by blast
  have "head @ fst (body_data body h) \<noteq> []" using read append_nothing by (metis Pair_inject sum.inject(2))
  with read have "read_step stold sv new_request_parser (Read_bytes (head @ fst (body_data body h))) = Inr q"
    by (simp add: read_step_def)
  then show ?thesis using print q by (auto simp: cookie_or_def new_context_def)
qed

lemma made_session:
  assumes "map_of (ss_map ss) j = None" "map_of (ss_map ss) i = None" "get_or_make early i j ss = (s, ss1)"
  shows "s_id s = i" "map_of (ss_map ss1) = (map_of (ss_map ss))(i \<mapsto> s)" "s_attributes s = []" "s_restart s"
    "ss_cookie_key ss1 = ss_cookie_key ss"
  using assms
  by (auto simp: get_or_make_def find_session_def make_session_def emplace_session_def set_lifecycle_def new_session_def Let_def)

lemma change_key [simp]: "ss_cookie_key (change_session i f ss) = ss_cookie_key ss"
  by (simp add: change_session_def split: option.split)

lemma does_key: "ss_cookie_key (snd (session_does e (now, ss))) = ss_cookie_key ss"
  by (cases e) (auto simp: get_or_make_def find_session_def make_session_def emplace_session_def Let_def resume_session_def
      erase_session_def split: option.split)

lemma do_key: "ss_cookie_key (snd (sessions_do es x)) = ss_cookie_key (snd x)"
proof (induction es arbitrary: x)
  case (Cons e es)
  then show ?case by (cases x) (simp add: does_key)
qed simp

lemma keys_unchanged: "map_of m i = Some v \<Longrightarrow> fst ` set (map_put m i w) = fst ` set m"
  by (auto simp: map_put_keys insert_absorb dest!: map_of_SomeD intro: rev_image_eqI)

text \<open>What a generated identifier is made of makes a cookie.\<close>

lemma upper_digit_plain:
  assumes "upper_digit x"
  shows "x \<notin> {CHR '';'', CHR ''%'', CHR 0x0D, CHR ''=''} \<and> \<not> is_blank x"
proof -
  have "list_all (\<lambda>x. x \<notin> {CHR '';'', CHR ''%'', CHR 0x0D, CHR ''=''} \<and> \<not> is_blank x) ''0123456789ABCDEF''"
    by code_simp
  then show ?thesis using assms by (auto simp: upper_digit_def list_all_iff)
qed

lemma version4_chars:
  assumes "version4_text s" "x \<in> set s"
  shows "x = CHR ''-'' \<or> upper_digit x"
proof -
  obtain n where n: "n < length s" "s ! n = x" using assms(2) by (auto simp: in_set_conv_nth)
  then have "(n, x) \<in> set (zip [0..<length s] s)" by (auto simp: in_set_zip intro!: exI [of _ n])
  moreover have "\<forall>(i, c) \<in> set (zip [0..<length s] s). if i \<in> {8, 13, 18, 23} then c = CHR ''-'' else if i = 14 then c = CHR ''4''
      else if i = 19 then c \<in> {CHR ''8'', CHR ''9'', CHR ''A'', CHR ''B''} else upper_digit c"
    using assms(1) unfolding version4_text_def list_all_iff by (rule conjunct2)
  ultimately have "if n \<in> {8, 13, 18, 23} then x = CHR ''-'' else if n = 14 then x = CHR ''4''
      else if n = 19 then x \<in> {CHR ''8'', CHR ''9'', CHR ''A'', CHR ''B''} else upper_digit x"
    by blast
  then show ?thesis by (auto simp: upper_digit_def split: if_splits)
qed

lemma good_session_cookie:
  assumes "key \<noteq> []" "list_all (\<lambda>x. x \<notin> {CHR '';'', CHR ''%'', CHR 0x0D, CHR ''=''} \<and> \<not> is_blank x) key"
  shows "good_cookie (key, session_id False r0 r1)"
proof -
  let ?i = "session_id False r0 r1"
  have v: "version4_text ?i" unfolding session_id_def by (rule generated_version4)
  have "\<not> is_blank (CHR ''-'')" by code_simp
  then have plain: "x \<notin> {CHR '';'', CHR ''%'', CHR 0x0D, CHR ''=''} \<and> \<not> is_blank x" if "x \<in> set ?i" for x
    using version4_chars [OF v that] upper_digit_plain [of x] by auto
  have "?i \<noteq> []" using v by (auto simp: version4_text_def)
  then have "hd ?i \<in> set ?i" "last ?i \<in> set ?i" "hd key \<in> set key" "last key \<in> set key" using assms(1) by simp_all
  then show ?thesis using assms plain by (auto simp: good_cookie_def trim_id list_all_iff)
qed

section \<open>Properties\<close>

text \<open>C2.
  A client keeps its session. The first request makes one: its identifier goes out in the head
  of the response. When the client sends it back as a cookie, in any request, before the
  lifecycle of the session has passed, and nobody has invalidated it or shortened its lifecycle,
  the handler is given the same session with the attributes that were set meanwhile, whatever
  other requests, other sessions and the coroutines of the sessions have done; it does not
  matter whether the session has a coroutine.
\<close>

theorem session_followed:
  assumes "map_of (ss_map ss) (cookie_or (ss_cookie_key ss) [] c) = None"
    and "map_of (ss_map ss) (session_id big r0 r1) = None"
    and "context_session early (session_id big r0 r1) c ss = (s, c1, ss1)"
    and "spares (session_id big r0 r1) (s_second s) es" "elapsed es < unat (s_second s)" "sessions_do es (now, ss1) = (now2, ss2)"
    and "good_request arg" "length body < 2 ^ 64" "map_find (ra_cookies arg) (ss_cookie_key ss) = Some (session_id big r0 r1)"
  shows "(\<forall>n head r. h_state (rh_helper (cx_response c)) = Header \<longrightarrow>
        response_header_data stold n (cx_response c1) = Inr (head, r) \<longrightarrow>
        (\<exists>k pre post. str_to_lower k = str_to_lower (ss_cookie_key ss) \<and>
           head = pre @ ''set-cookie: '' @ k @ ''='' @ session_id big r0 r1 @ CRLF @ post)) \<and>
    (\<exists>head h q s2 c2 ss3.
       request_header_data stold v11 (method_value m) (length body) arg new_helper = Inr (head, h) \<and>
       read_step stold sv new_request_parser (Read_bytes (head @ fst (body_data body h))) = Inr q \<and>
       context_session early2 fresh (new_context q) ss2 = (s2, c2, ss3) \<and>
       s_id s2 = session_id big r0 r1 \<and> s_attributes s2 = attributes_set (session_id big r0 r1) es [] \<and>
       fst ` set (ss_map ss3) = fst ` set (ss_map ss2))"
proof -
  let ?i = "session_id big r0 r1" and ?key = "ss_cookie_key ss"
  obtain made: "get_or_make early ?i (cookie_or ?key [] c) ss = (s, ss1)" and c1: "c1 = answer_session ?key s c"
    using assms(3) by (auto simp: context_session_def Let_def split: prod.splits)
  note s = made_session [OF assms(1,2) made]
  have "lives ?i (now + unat (s_second s)) (s_second s) [] (now, ss1)" using s by (simp add: lives_def)
  from lives_do [OF this _ assms(4)] assms(5,6)
  obtain t where t: "map_of (ss_map ss2) ?i = Some t" "s_id t = ?i" "s_attributes t = attributes_set ?i es []"
    by (auto simp: lives_def)
  have key: "ss_cookie_key ss2 = ?key" using do_key [of es "(now, ss1)"] s(5) assms(6) by simp
  obtain head h q where print: "request_header_data stold v11 (method_value m) (length body) arg new_helper = Inr (head, h)"
      "read_step stold sv new_request_parser (Read_bytes (head @ fst (body_data body h))) = Inr q"
    and cookie: "cookie_or ?key [] (new_context q) = ?i"
    using cookies_arrive [OF assms(7,8), of stold m sv ?key "[]"] assms(9) by (auto simp: get_map_value_or_def)
  have "context_session early2 fresh (new_context q) ss2 =
      (expand t, answer_session ?key (expand t) (new_context q), ss2\<lparr>ss_map := map_put (ss_map ss2) ?i (expand t)\<rparr>)"
    using get_or_make_own [OF t(1), of early2 fresh] cookie by (simp add: context_session_def key Let_def)
  then show ?thesis using print t keys_unchanged [OF t(1), of "expand t"] cookie_announced [of c stold _ ?key s] s(1) c1
    by auto
qed

text \<open>A first visit, and the request that comes back half a lifecycle later.\<close>

definition first_visit :: service_ctx where
  "first_visit = new_context new_request_parser"

abbreviation visit_id :: string where
  "visit_id \<equiv> session_id False 7 9"

definition between_visits :: "nat session_event list" where
  "between_visits = [Attribute visit_id ''n'' 5, Resume visit_id, Request_session True ''other'' [], Elapse 30]"

definition returning :: request_arg where
  "returning = \<lparr>ra_path = ''/a'', ra_parameters = [], ra_headers = [], ra_cookies = [(''session'', visit_id)]\<rparr>"

lemma returning_good: "good_request returning"
proof -
  have "list_all (\<lambda>x. x \<notin> {CHR '';'', CHR ''%'', CHR 0x0D, CHR ''=''} \<and> \<not> is_blank x) ''session''" by code_simp
  then have "good_cookie (''session'', visit_id)" by (intro good_session_cookie) simp
  moreover have "good_path ''/a''"
    by (simp add: good_path_def normal_path_def starts_with_def ends_with_def is_blank_def schar_def uchar_def)
  ultimately show ?thesis by (simp add: good_request_def returning_def map_inv_Cons)
qed

theorem session_followed_witness:
  "\<exists>head h q s2 c2 ss3.
     request_header_data (\<lambda>s. Inl Invalid_argument) v11 (method_value GET) 0 returning new_helper = Inr (head, h) \<and>
     read_step (\<lambda>s. Inl Invalid_argument) new_server new_request_parser (Read_bytes (head @ fst (body_data [] h))) = Inr q \<and>
     context_session False ''late'' (new_context q)
       (snd (sessions_do between_visits (100, snd (snd (context_session False visit_id first_visit new_session_set))))) = (s2, c2, ss3) \<and>
     s_id s2 = visit_id \<and> s_attributes s2 = [(''n'', 5)] \<and>
     fst ` set (ss_map ss3) = fst ` set (ss_map (snd
       (sessions_do between_visits (100, snd (snd (context_session False visit_id first_visit new_session_set))))))"
proof -
  obtain s c1 ss1 where made: "context_session False visit_id first_visit (new_session_set :: nat session_set) = (s, c1, ss1)"
    by (metis prod_cases3)
  have "rq_cookies (p_owner (cx_parser first_visit)) = []"
    by (simp add: first_visit_def new_context_def new_request_parser_def new_parser_def on_parse_begin_def on_parse_cookie_def
        new_request_def)
  then have none: "cookie_or key [] first_visit = []" for key by (simp add: cookie_or_def get_map_value_or_def)
  have second: "s_second s = 60"
    using made by (auto simp: context_session_def none get_or_make_def find_session_def make_session_def new_session_set_def
        set_lifecycle_def Let_def)
  have key: "ss_cookie_key (new_session_set :: nat session_set) = ''session''" "ss_map (new_session_set :: nat session_set) = []"
    by (simp_all add: new_session_set_def)
  have es: "spares visit_id (s_second s) between_visits" "elapsed between_visits < unat (s_second s)"
    "attributes_set visit_id between_visits [] = [(''n'', 5)]"
    by (simp_all add: between_visits_def attributes_set_def second)
  have cookie: "map_find (ra_cookies returning) ''session'' = Some visit_id" by (simp add: returning_def less_case_insensitive_def)
  obtain now2 ss2 where done2: "sessions_do between_visits (100, ss1) = (now2, ss2)"
    by (cases "sessions_do between_visits (100, ss1)")
  from session_followed [OF _ _ made es(1,2) done2 returning_good, of "[]" "\<lambda>s. Inl Invalid_argument" GET new_server False "''late''"]
  show ?thesis using cookie by (simp add: key made done2 es(3))
qed

text \<open>C22.
  A client cannot choose the identifier of its session: for a cookie that names no session,
  a new one is made under an identifier of the server, and no other comes into the set.
\<close>

theorem session_not_fixed:
  assumes "map_of (ss_map ss) (cookie_or (ss_cookie_key ss) [] c) = None"
  shows "\<exists>s c' ss'. context_session early fresh c ss = (s, c', ss') \<and> s_id s = fresh \<and> s_attributes s = [] \<and>
    fst ` set (ss_map ss') = insert fresh (fst ` set (ss_map ss))"
proof -
  have "s_id (set_lifecycle n (new_session early fresh 60)) = fresh" "s_attributes (set_lifecycle n (new_session early fresh 60)) = []" for n
    by (simp_all add: set_lifecycle_def new_session_def)
  moreover have "fresh \<in> fst ` set (ss_map ss)" if "map_of (ss_map ss) fresh = Some v" for v
    using map_of_SomeD [OF that] by (auto intro: rev_image_eqI)
  ultimately show ?thesis using assms
    by (auto simp: context_session_def get_or_make_def find_session_def make_session_def emplace_session_def Let_def map_put_keys)
qed

theorem session_not_fixed_witness:
  "\<exists>s c' ss'. context_session True ''issued'' (first_visit\<lparr>cx_parser := (cx_parser first_visit)\<lparr>p_owner :=
        new_request\<lparr>rq_cookies := [(''session'', ''chosen'')]\<rparr>\<rparr>\<rparr>) (new_session_set :: nat session_set) = (s, c', ss') \<and>
     s_id s = ''issued'' \<and> fst ` set (ss_map ss') = {''issued''}"
  using session_not_fixed [of "new_session_set :: nat session_set"
      "first_visit\<lparr>cx_parser := (cx_parser first_visit)\<lparr>p_owner := new_request\<lparr>rq_cookies := [(''session'', ''chosen'')]\<rparr>\<rparr>\<rparr>" True "''issued''"]
  by (auto simp: new_session_set_def)

text \<open>C20.
  A session whose coroutine began before the session had a shared pointer never ends: whatever
  happens afterwards, however long it takes, also when it is invalidated, it stays in the set
  and is given to whoever sends its identifier.
\<close>

theorem early_session_stays:
  assumes "map_of (ss_map ss) (cookie_or (ss_cookie_key ss) [] c) = None" "map_of (ss_map ss) i = None"
    and "context_session True i c ss = (s, c1, ss1)" "sessions_do es (now, ss1) = (now2, ss2)"
  shows "\<exists>t. map_of (ss_map ss2) i = Some t \<and> s_id t = i \<and> s_attributes t = attributes_set i es []"
proof -
  have "get_or_make True i (cookie_or (ss_cookie_key ss) [] c) ss = (s, ss1)"
    using assms(3) by (auto simp: context_session_def Let_def split: prod.splits)
  then have "stays i [] (now, ss1)"
    using assms(1,2) by (auto simp: stays_def get_or_make_def find_session_def make_session_def emplace_session_def
        set_lifecycle_def expand_def timer_cancel_def new_session_def Let_def)
  from stays_do [OF this, of es] show ?thesis by (auto simp: stays_def assms(4))
qed

theorem early_session_stays_witness:
  "\<exists>t. map_of (ss_map (snd (sessions_do [Invalidate visit_id, Elapse 1000000, Resume visit_id]
       (0, snd (snd (context_session True visit_id first_visit (new_session_set :: nat session_set))))))) visit_id = Some t"
proof -
  let ?ss = "new_session_set :: nat session_set"
  obtain s c1 ss1 where made: "context_session True visit_id first_visit ?ss = (s, c1, ss1)" by (metis prod_cases3)
  obtain now2 ss2 where run: "sessions_do [Invalidate visit_id, Elapse 1000000, Resume visit_id] (0, ss1) = (now2, ss2)"
    by (cases "sessions_do [Invalidate visit_id, Elapse 1000000, Resume visit_id] (0, ss1)")
  have "map_of (ss_map ss2) visit_id \<noteq> None"
    using early_session_stays [OF _ _ made run] by (auto simp: new_session_set_def)
  then show ?thesis by (auto simp: made run simp del: sessions_do_simps)
qed

text \<open>
  \<^verbatim>\<open>session_or\<close> is not an alternative to an exception: a request without the cookie of a session
  that is in the set ends the program, since the cookie is set from the session that was not found.
\<close>

theorem session_or_kills:
  "context_session_or c ss = None \<longleftrightarrow> map_of (ss_map ss) (cookie_or (ss_cookie_key ss) [] c) = None"
  by (auto simp: context_session_or_def find_session_def Let_def split: option.split)

end
