(* ===== verification/Executor.thy ===== *)
theory Executor
  imports Prelude
begin

text \<open>
  The event loop of the library (\<^verbatim>\<open>libgs/core/execution.cpp\<close>: \<^verbatim>\<open>exec\<close>, \<^verbatim>\<open>exit\<close>, \<^verbatim>\<open>is_run\<close>) and the
  polling of a context until a dispatched work is done (\<^verbatim>\<open>detail/execution.h\<close>:
  \<^verbatim>\<open>dispatch_poll\<close>, \<^verbatim>\<open>make_dispatch_lambda\<close>, \<^verbatim>\<open>local_dispatch\<close>). A handler is the list of what
  it does to the loop. Of \<^verbatim>\<open>asio::io_context\<close> it takes what is documented: handlers run in the
  order they were posted; a context that was stopped, or ran out of work, runs none until it
  is restarted; \<^verbatim>\<open>run\<close> waits for handlers and \<^verbatim>\<open>poll\<close> does not; what a handler throws leaves them.
  A coroutine that throws is a handler that just ends, and one that waits goes on in a handler
  that is ready when its timer has expired. Calls of \<^verbatim>\<open>exit\<close> are atomic. \<open>Mark\<close> stands for what
  a handler does elsewhere, and leaves a number in a log.
\<close>

section \<open>Contexts\<close>

datatype act =
    Post "act list"
  | Later "act list"
  | Exit_call int
  | Stop_context
  | Throw_exception
  | Finish
  | Mark nat

record loop =
  lp_ready :: "act list list"
  lp_pending :: "act list list"
  lp_guard :: bool
  lp_stopped :: bool
  lp_run_flag :: bool
  lp_exit_code :: int
  lp_finished :: bool
  lp_log :: "nat list"

definition new_loop :: loop where
  "new_loop = \<lparr>lp_ready = [], lp_pending = [], lp_guard = False, lp_stopped = False, lp_run_flag = False,
     lp_exit_code = 0, lp_finished = False, lp_log = []\<rparr>"

lemma new_loop_fields [simp]:
  "lp_ready new_loop = []" "lp_pending new_loop = []" "\<not> lp_guard new_loop" "\<not> lp_stopped new_loop"
  "\<not> lp_run_flag new_loop" "\<not> lp_finished new_loop" "lp_log new_loop = []"
  by (simp_all add: new_loop_def)

definition post_handler :: "act list \<Rightarrow> loop \<Rightarrow> loop" where
  "post_handler h w = w\<lparr>lp_ready := lp_ready w @ [h]\<rparr>"

text \<open>\<^verbatim>\<open>libgs::exit\<close>\<close>

definition exit_call :: "int \<Rightarrow> loop \<Rightarrow> loop" where
  "exit_call code w =
     (if \<not> lp_run_flag w then w
      else w\<lparr>lp_exit_code := code, lp_run_flag := False, lp_stopped := True\<rparr>)"

fun do_act :: "act \<Rightarrow> loop \<Rightarrow> loop" where
  "do_act (Post h) w = post_handler h w"
| "do_act (Later h) w = w\<lparr>lp_pending := lp_pending w @ [h]\<rparr>"
| "do_act (Exit_call n) w = exit_call n w"
| "do_act Stop_context w = w\<lparr>lp_stopped := True\<rparr>"
| "do_act Throw_exception w = w"
| "do_act Finish w = w\<lparr>lp_finished := True\<rparr>"
| "do_act (Mark n) w = w\<lparr>lp_log := lp_log w @ [n]\<rparr>"

text \<open>A handler runs: whether it throws, and the loop after it.\<close>

fun run_handler :: "act list \<Rightarrow> loop \<Rightarrow> bool \<times> loop" where
  "run_handler [] w = (False, w)"
| "run_handler (a # as) w = (if a = Throw_exception then (True, w) else run_handler as (do_act a w))"

section \<open>The event loop\<close>

datatype exec_thread = Off | In_run | Returned int | Threw

text \<open>The call of \<^verbatim>\<open>exec\<close>, up to the first \<^verbatim>\<open>run\<close>.\<close>

definition exec_call :: "loop \<Rightarrow> exn + loop" where
  "exec_call w =
     (if lp_run_flag w then Inl Runtime_error else Inr (w\<lparr>lp_run_flag := True, lp_guard := True\<rparr>))"

text \<open>The guard goes with \<^verbatim>\<open>exec\<close>; a context without work is then stopped.\<close>

definition leave_exec :: "loop \<Rightarrow> loop" where
  "leave_exec w =
     w\<lparr>lp_guard := False, lp_stopped := (lp_stopped w \<or> lp_ready w = [] \<and> lp_pending w = [])\<rparr>"

text \<open>
  One turn inside: \<^verbatim>\<open>run\<close> returns because the context is stopped, or it runs the next handler.
  Without a handler there is no turn.
\<close>

definition exec_turn :: "loop \<Rightarrow> (exec_thread \<times> loop) option" where
  "exec_turn w =
     (if lp_stopped w then
        if \<not> lp_run_flag w then Some (Returned (lp_exit_code w), leave_exec w)
        else Some (In_run, w\<lparr>lp_stopped := False\<rparr>)
      else case lp_ready w of
             [] \<Rightarrow> None
           | h # hs \<Rightarrow>
               (case run_handler h (w\<lparr>lp_ready := hs\<rparr>) of
                  (threw, w) \<Rightarrow> if threw then Some (Threw, leave_exec w) else Some (In_run, w)))"

text \<open>All turns until \<^verbatim>\<open>exec\<close> is left or waits.\<close>

definition queue_size :: "act list list \<Rightarrow> nat" where
  "queue_size q = size_list (size_list size) q"

lemma queue_size_simps [simp]:
  "queue_size [] = 0"
  "queue_size (h # q) = Suc (size_list size h + queue_size q)"
  "queue_size (q @ r) = queue_size q + queue_size r"
  by (simp_all add: queue_size_def size_list_append)

lemma run_handler_size: "queue_size (lp_ready (snd (run_handler h w))) \<le> queue_size (lp_ready w) + size_list size h"
proof (induction h w rule: run_handler.induct)
  case (2 a as w)
  have "queue_size (lp_ready (do_act a w)) \<le> queue_size (lp_ready w) + size a"
    by (cases a) (simp_all add: post_handler_def exit_call_def)
  then show ?case using 2 by (cases "a = Throw_exception") simp_all
qed simp

function exec_run :: "loop \<Rightarrow> exec_thread \<times> loop" where
  "exec_run w = (case exec_turn w of Some (In_run, w') \<Rightarrow> exec_run w' | Some r \<Rightarrow> r | None \<Rightarrow> (In_run, w))"
  by pat_completeness auto
termination
proof (relation "measure (\<lambda>w. 2 * queue_size (lp_ready w) + (if lp_stopped w then 1 else 0))", goal_cases)
  case (2 w x t w')
  then have turn: "exec_turn w = Some (In_run, w')" by simp
  show ?case
  proof (cases "lp_stopped w")
    case True
    then show ?thesis using turn by (auto simp: exec_turn_def split: if_splits)
  next
    case False
    then obtain h hs where "lp_ready w = h # hs" "run_handler h (w\<lparr>lp_ready := hs\<rparr>) = (False, w')"
      using turn by (auto simp: exec_turn_def split: list.splits prod.splits if_splits)
    then show ?thesis using run_handler_size [of h "w\<lparr>lp_ready := hs\<rparr>"] False by simp
  qed
qed simp

declare exec_run.simps [simp del]

section \<open>What a loop should do\<close>

text \<open>
  The specification does not know of stopping: the handlers run in order, those they post
  behind the others, until one calls \<^verbatim>\<open>exit\<close>, whose first code counts, or throws.
\<close>

datatype result = Waits | Returns int | Throws

definition handler_acts :: "act list \<Rightarrow> act list" where
  "handler_acts h = takeWhile (\<lambda>a. a \<noteq> Throw_exception) h"

definition posts :: "act list \<Rightarrow> act list list" where
  "posts h = concat (map (\<lambda>a. case a of Post g \<Rightarrow> [g] | _ \<Rightarrow> []) (handler_acts h))"

definition exits :: "act list \<Rightarrow> int list" where
  "exits h = concat (map (\<lambda>a. case a of Exit_call n \<Rightarrow> [n] | _ \<Rightarrow> []) (handler_acts h))"

lemma posts_simps [simp]:
  "posts [] = []"
  "posts (a # h) = (if a = Throw_exception then [] else (case a of Post g \<Rightarrow> [g] | _ \<Rightarrow> []) @ posts h)"
  by (simp_all add: posts_def handler_acts_def)

lemma exits_simps [simp]:
  "exits [] = []"
  "exits (a # h) = (if a = Throw_exception then [] else (case a of Exit_call n \<Rightarrow> [n] | _ \<Rightarrow> []) @ exits h)"
  by (simp_all add: exits_def handler_acts_def)

lemma posts_size: "queue_size (posts h) \<le> size_list size h"
proof (induction h)
  case (Cons a h)
  then show ?case by (cases a) auto
qed simp

function loop_spec :: "act list list \<Rightarrow> result" where
  "loop_spec [] = Waits"
| "loop_spec (h # q) =
     (if Throw_exception \<in> set h then Throws
      else case exits h of n # ns \<Rightarrow> Returns n | [] \<Rightarrow> loop_spec (q @ posts h))"
  by pat_completeness auto
termination
proof (relation "measure queue_size", goal_cases)
  case (2 h q)
  then show ?case using posts_size [of h] by simp
qed simp

definition agrees :: "result \<Rightarrow> exec_thread \<times> loop \<Rightarrow> bool" where
  "agrees r x =
     (case r of
        Waits \<Rightarrow> fst x = In_run \<and> lp_ready (snd x) = [] \<and> \<not> lp_stopped (snd x) \<and> lp_run_flag (snd x)
      | Returns n \<Rightarrow> fst x = Returned n \<and> \<not> lp_run_flag (snd x)
      | Throws \<Rightarrow> fst x = Threw)"

lemma run_handler_spec:
  "fst (run_handler h w) = (Throw_exception \<in> set h)"
  "lp_ready (snd (run_handler h w)) = lp_ready w @ posts h"
  "lp_run_flag (snd (run_handler h w)) = (lp_run_flag w \<and> exits h = [])"
  "lp_run_flag w \<Longrightarrow> lp_exit_code (snd (run_handler h w)) = (case exits h of [] \<Rightarrow> lp_exit_code w | n # ns \<Rightarrow> n)"
  "lp_stopped w \<or> lp_run_flag w \<and> exits h \<noteq> [] \<Longrightarrow> lp_stopped (snd (run_handler h w))"
  "\<not> lp_run_flag w \<Longrightarrow> lp_exit_code (snd (run_handler h w)) = lp_exit_code w"
proof (induction h w rule: run_handler.induct)
  case (2 a as w)
  { case 1 then show ?case using 2 by simp }
  { case 2 then show ?case using "2.IH" by (cases a) (simp_all add: post_handler_def exit_call_def) }
  { case 3 then show ?case using 2 by (cases a) (simp_all add: post_handler_def exit_call_def) }
  { case 4 then show ?case using 2 by (cases a; cases "exits as") (simp_all add: post_handler_def exit_call_def) }
  { case 5 then show ?case using 2 by (cases a) (auto simp: post_handler_def exit_call_def) }
  { case 6 then show ?case using 2 by (cases a) (simp_all add: post_handler_def exit_call_def) }
qed simp_all

lemma exec_run_restart:
  assumes "lp_run_flag w"
  shows "exec_run w = exec_run (w\<lparr>lp_stopped := False\<rparr>)"
proof (cases "lp_stopped w")
  case True
  then show ?thesis using assms by (subst exec_run.simps) (simp add: exec_turn_def)
next
  case False
  then show ?thesis by (cases w) simp
qed

lemma exec_run_agrees: "lp_ready w = q \<Longrightarrow> lp_run_flag w \<Longrightarrow> agrees (loop_spec q) (exec_run w)"
proof (induction q arbitrary: w rule: loop_spec.induct)
  case 1
  let ?w = "w\<lparr>lp_stopped := False\<rparr>"
  have "exec_run w = exec_run ?w" by (rule exec_run_restart [OF 1(2)])
  moreover have "exec_run ?w = (In_run, ?w)" using 1 by (subst exec_run.simps) (simp add: exec_turn_def)
  ultimately show ?case using 1 by (simp add: agrees_def)
next
  case (2 h q)
  let ?w = "w\<lparr>lp_stopped := False\<rparr>"
  have run: "exec_run w = exec_run ?w" by (rule exec_run_restart [OF 2(3)])
  obtain threw w' where h: "run_handler h (?w\<lparr>lp_ready := q\<rparr>) = (threw, w')" by fastforce
  note spec = run_handler_spec [where h = h and w = "?w\<lparr>lp_ready := q\<rparr>", unfolded h]
  have turn: "exec_turn ?w = Some (if threw then (Threw, leave_exec w') else (In_run, w'))"
    using h by (simp add: exec_turn_def 2(2))
  show ?case
  proof (cases threw)
    case True
    then have "exec_run ?w = (Threw, leave_exec w')" using turn by (subst exec_run.simps) simp
    then show ?thesis using spec(1) True by (simp add: run agrees_def)
  next
    case False
    then have step: "exec_run ?w = exec_run w'" using turn by (subst exec_run.simps) simp
    show ?thesis
    proof (cases "exits h")
      case Nil
      then have "agrees (loop_spec (q @ posts h)) (exec_run w')"
        using 2(3) False spec by (intro 2(1)) simp_all
      then show ?thesis using False spec(1,2) Nil by (simp add: run step)
    next
      case (Cons n ns)
      then have "exec_turn w' = Some (Returned n, leave_exec w')" using spec(3-5) 2(3) by (simp add: exec_turn_def)
      then have "exec_run w' = (Returned n, leave_exec w')" by (subst exec_run.simps) simp
      then show ?thesis using False spec(1,3) Cons by (simp add: run step agrees_def leave_exec_def)
    qed
  qed
qed

section \<open>Other threads\<close>

datatype loop_event = Turn | Other act

fun loop_does :: "loop_event \<Rightarrow> exec_thread \<times> loop \<Rightarrow> exec_thread \<times> loop" where
  "loop_does Turn (t, w) =
     (if t = In_run then case exec_turn w of Some r \<Rightarrow> r | None \<Rightarrow> (In_run, w) else (t, w))"
| "loop_does (Other a) (t, w) = (t, do_act a w)"

definition exits_with :: "int \<Rightarrow> exec_thread \<times> loop \<Rightarrow> bool" where
  "exits_with n x \<longleftrightarrow>
     (fst x = In_run \<and> \<not> lp_run_flag (snd x) \<and> lp_stopped (snd x) \<and> lp_exit_code (snd x) = n) \<or> fst x = Returned n"

lemma exits_with_does:
  assumes "exits_with n x"
  shows "exits_with n (loop_does e x)" "fst x = Returned n \<or> e = Turn \<Longrightarrow> fst (loop_does e x) = Returned n"
proof -
  obtain t w where x: "x = (t, w)" by (cases x)
  show "exits_with n (loop_does e x)"
  proof (cases e)
    case Turn
    then show ?thesis using assms by (auto simp: x exits_with_def exec_turn_def)
  next
    case (Other a)
    then show ?thesis using assms by (cases a) (auto simp: x exits_with_def post_handler_def exit_call_def)
  qed
  show "fst (loop_does e x) = Returned n" if "fst x = Returned n \<or> e = Turn"
    using assms that by (cases e) (auto simp: x exits_with_def exec_turn_def)
qed

lemma exits_with_run:
  assumes "exits_with n x"
  shows "exits_with n (foldl (\<lambda>x e. loop_does e x) x es)"
    and "fst x = Returned n \<or> Turn \<in> set es \<Longrightarrow> fst (foldl (\<lambda>x e. loop_does e x) x es) = Returned n"
  using assms
proof (induction es arbitrary: x)
  case (Cons e es)
  { case 1 then show ?case using Cons.IH(1) exits_with_does(1) by simp }
  { case 2
    have "fst (loop_does e x) = Returned n \<or> Turn \<in> set es" using 2 exits_with_does(2) [OF 2(2), of e] by auto
    then show ?case using Cons.IH(2) exits_with_does(1) [OF 2(2)] by simp }
qed simp_all

section \<open>Polling until a work is done\<close>

text \<open>The handlers that were run, whether one threw, and the loop.\<close>

function poll :: "loop \<Rightarrow> nat \<times> bool \<times> loop" where
  "poll w =
     (if lp_stopped w then (0, False, w)
      else case lp_ready w of
             [] \<Rightarrow> (0, False, w\<lparr>lp_stopped := (\<not> lp_guard w \<and> lp_pending w = [])\<rparr>)
           | h # hs \<Rightarrow>
               (case run_handler h (w\<lparr>lp_ready := hs\<rparr>) of
                  (True, w) \<Rightarrow> (0, True, w)
                | (False, w) \<Rightarrow> (case poll w of (n, threw, w) \<Rightarrow> (Suc n, threw, w))))"
  by pat_completeness auto
termination
proof (relation "measure (\<lambda>w. queue_size (lp_ready w))", goal_cases)
  case (2 w h hs x w')
  then have "run_handler h (w\<lparr>lp_ready := hs\<rparr>) = (False, w')" by simp
  then show ?case using 2 run_handler_size [of h "w\<lparr>lp_ready := hs\<rparr>"] by simp
qed simp

declare poll.simps [simp del]

datatype outer = Posted "act list" | Expired nat

fun outside :: "outer \<Rightarrow> loop \<Rightarrow> loop" where
  "outside (Posted h) w = post_handler h w"
| "outside (Expired k) w =
     (if k < length (lp_pending w)
      then w\<lparr>lp_ready := lp_ready w @ [lp_pending w ! k], lp_pending := take k (lp_pending w) @ drop (Suc k) (lp_pending w)\<rparr>
      else w)"

text \<open>
  \<^verbatim>\<open>dispatch_poll\<close>, with what comes from outside between two polls; \<^const>\<open>None\<close> is that it has
  not returned.
\<close>

fun dispatch_poll :: "outer list list \<Rightarrow> loop \<Rightarrow> (nat \<times> bool \<times> loop) option" where
  "dispatch_poll [] w =
     (case poll w of (n, threw, w) \<Rightarrow> if threw \<or> lp_finished w then Some (n, threw, w) else None)"
| "dispatch_poll (es # ess) w =
     (case poll w of (n, threw, w) \<Rightarrow>
        if threw \<or> lp_finished w then Some (n, threw, w)
        else map_option (\<lambda>(m, threw, w). (n + m, threw, w)) (dispatch_poll ess (foldl (\<lambda>w e. outside e w) w es)))"



definition local_dispatch_awaited :: "outer list list \<Rightarrow> (nat \<times> bool \<times> loop) option" where
  "local_dispatch_awaited ess = dispatch_poll ess new_loop"

lemma poll_posted:
  assumes "\<not> lp_stopped w" "lp_ready w = []" "run_handler h w = (False, w')"
  shows "poll (post_handler h w) = (case poll w' of (n, threw, v) \<Rightarrow> (Suc n, threw, v))"
proof -
  have "run_handler h (w\<lparr>lp_ready := []\<rparr>) = (False, w')" using assms(2,3) by (cases w) simp
  then show ?thesis using assms by (subst poll.simps) (simp add: post_handler_def)
qed

text \<open>
  What the handlers of a queue do elsewhere, and how many they are, if they run in order with
  those that they post behind the others.
\<close>

definition marks :: "act list \<Rightarrow> nat list" where
  "marks h = concat (map (\<lambda>a. case a of Mark n \<Rightarrow> [n] | _ \<Rightarrow> []) (handler_acts h))"

lemma marks_simps [simp]:
  "marks [] = []"
  "marks (a # h) = (if a = Throw_exception then [] else (case a of Mark n \<Rightarrow> [n] | _ \<Rightarrow> []) @ marks h)"
  by (simp_all add: marks_def handler_acts_def)







lemma stuck:
  "lp_stopped w \<Longrightarrow> \<not> lp_finished w \<Longrightarrow> dispatch_poll ess w = None"
proof (induction ess arbitrary: w)
  case Nil
  then show ?case by (simp add: poll.simps [of w])
next
  case (Cons es ess)
  have "lp_stopped (foldl (\<lambda>w e. outside e w) w es) \<and> \<not> lp_finished (foldl (\<lambda>w e. outside e w) w es)"
    using Cons.prems
  proof (induction es arbitrary: w)
    case (Cons e es)
    then show ?case by (cases e) (simp_all add: post_handler_def)
  qed simp
  then show ?case using Cons by (simp add: poll.simps [of w])
qed

text \<open>One poll runs a part of a work, and what that posts.\<close>

definition part_loop_state :: "nat list \<Rightarrow> act list list \<Rightarrow> loop" where
  "part_loop_state log pending = new_loop\<lparr>lp_log := log, lp_pending := pending\<rparr>"

lemma part_loop_fields [simp]:
  "\<not> lp_finished (part_loop_state log pending)" "lp_log (part_loop_state log pending) = log"
  "\<not> lp_stopped (part_loop_state log pending)" "lp_ready (part_loop_state log pending) = []"
  by (simp_all add: part_loop_state_def)





section \<open>Properties\<close>

text \<open>C12.
  What \<^verbatim>\<open>exec\<close> does, unless it is already running: it runs the handlers, and those they post, in
  order, and returns the code of the first call of \<^verbatim>\<open>exit\<close>, once the handler that made it has
  returned; handlers that stop the context change nothing. It does so however the context was
  left by an earlier call.
\<close>

theorem exec_runs_handlers:
  assumes "\<not> lp_run_flag w"
  shows "\<exists>w1. exec_call w = Inr w1 \<and> agrees (loop_spec (lp_ready w)) (exec_run w1)"
  using assms exec_run_agrees [of "w\<lparr>lp_run_flag := True, lp_guard := True\<rparr>"] by (simp add: exec_call_def)

definition busy_loop :: loop where
  "busy_loop = new_loop\<lparr>lp_ready := [[Post [Exit_call 3, Exit_call 4], Stop_context], [Post []]], lp_stopped := True\<rparr>"

theorem exec_runs_handlers_witness:
  "\<exists>w1. exec_call busy_loop = Inr w1 \<and> fst (exec_run w1) = Returned 3"
  using exec_runs_handlers [of busy_loop] by (auto simp: busy_loop_def new_loop_def agrees_def)

text \<open>
  The first exit decides: whatever other threads post, stop or exit afterwards, \<^verbatim>\<open>exec\<close> can only
  return with that code, and does so at its next turn.
\<close>

theorem first_exit_decides:
  assumes "lp_run_flag w"
  shows "fst (foldl (\<lambda>x e. loop_does e x) (In_run, exit_call n w) es) = (if Turn \<in> set es then Returned n else In_run)"
proof -
  have start: "exits_with n (In_run, exit_call n w)" using assms by (simp add: exits_with_def exit_call_def)
  have "fst (foldl (\<lambda>x e. loop_does e x) (t, v) es) = t" if "Turn \<notin> set es" for t v
    using that
  proof (induction es arbitrary: v)
    case (Cons e es)
    then show ?case by (cases e) simp_all
  qed simp
  then show ?thesis using exits_with_run(2) [OF start, of es] by simp
qed

theorem first_exit_decides_witness:
  "fst (foldl (\<lambda>x e. loop_does e x) (In_run, exit_call 3 (new_loop\<lparr>lp_run_flag := True\<rparr>))
     [Other (Exit_call 4), Other (Post [Throw_exception]), Turn, Other (Exit_call 5), Turn]) = Returned 3"
  using first_exit_decides [of "new_loop\<lparr>lp_run_flag := True\<rparr>" 3
      "[Other (Exit_call 4), Other (Post [Throw_exception]), Turn, Other (Exit_call 5), Turn]"] by (simp del: loop_does.simps foldl_Cons)

text \<open>
  An exception of a handler leaves \<^verbatim>\<open>exec\<close>, but the loop still counts as running: it cannot be
  entered again before somebody calls \<^verbatim>\<open>exit\<close>.
\<close>

theorem exception_blocks_exec:
  assumes "lp_run_flag w" "lp_ready w = h # q" "Throw_exception \<in> set h" "exits h = []"
  shows "\<exists>w'. exec_run w = (Threw, w') \<and> exec_call w' = Inl Runtime_error \<and> (\<exists>w2. exec_call (exit_call n w') = Inr w2)"
proof -
  let ?w = "w\<lparr>lp_stopped := False\<rparr>"
  obtain threw w' where h: "run_handler h (?w\<lparr>lp_ready := q\<rparr>) = (threw, w')" by fastforce
  note spec = run_handler_spec [where h = h and w = "?w\<lparr>lp_ready := q\<rparr>", unfolded h]
  have "exec_run w = exec_run ?w" by (rule exec_run_restart [OF assms(1)])
  also have "\<dots> = (Threw, leave_exec w')"
    using h spec(1) assms(2,3) by (subst exec_run.simps) (simp add: exec_turn_def)
  finally show ?thesis using spec(3) assms(1,4) by (simp add: exec_call_def exit_call_def leave_exec_def)
qed

theorem exception_blocks_exec_witness:
  "\<exists>w'. exec_run (new_loop\<lparr>lp_run_flag := True, lp_ready := [[Post [], Throw_exception]]\<rparr>) = (Threw, w') \<and>
    exec_call w' = Inl Runtime_error"
  using exception_blocks_exec [of "new_loop\<lparr>lp_run_flag := True, lp_ready := [[Post [], Throw_exception]]\<rparr>"
      "[Post [], Throw_exception]" "[]" 1] by auto







text \<open>
  Polling before the work is started never ends: the context runs out of work, is stopped, and
  runs nothing that is posted later. The same happens after a coroutine that throws.
\<close>

theorem late_work_is_lost:
  "local_dispatch_awaited ess = None \<and> dispatch_poll ess (post_handler [] new_loop) = None"
proof -
  let ?w = "new_loop\<lparr>lp_stopped := True\<rparr>"
  have empty: "poll new_loop = (0, False, ?w)" by (simp add: poll.simps [of new_loop])
  have one: "poll (post_handler [] new_loop) = (1, False, ?w)"
    using poll_posted [of new_loop "[]" new_loop] empty by simp
  have outside: "dispatch_poll ess v = None" if "poll v = (n, False, ?w)" for v n
    using that stuck [of ?w ess] by (cases ess) (simp_all add: poll.simps [of ?w])
  show ?thesis unfolding local_dispatch_awaited_def using outside [OF empty] outside [OF one] by simp
qed

end
