(* ===== verification/Flags.thy ===== *)
theory Flags
  imports Prelude
begin

text \<open>
  Sets of flags (\<^verbatim>\<open>libgs/core/cxx/flags.h\<close>, \<^verbatim>\<open>detail/flags.h\<close>): the enumerators of a type are
  their values, converted to 32 bits. The operators with an enumerator and the ones with an
  integer mask convert it first and are the operators on words; \<^verbatim>\<open>setFlag\<close>, a constant member
  that assigns, does not compile.
\<close>

type_synonym flags = u32

section \<open>The operations\<close>

definition flags_of :: "u32 \<Rightarrow> flags" where "flags_of e = e"

fun flags_of_list :: "u32 list \<Rightarrow> flags" where
  "flags_of_list [] = 0"
| "flags_of_list (e # es) = e OR flags_of_list es"

definition flags_and :: "flags \<Rightarrow> u32 \<Rightarrow> flags" where "flags_and f m = f AND m"
definition flags_or :: "flags \<Rightarrow> u32 \<Rightarrow> flags" where "flags_or f g = f OR g"
definition flags_xor :: "flags \<Rightarrow> u32 \<Rightarrow> flags" where "flags_xor f g = f XOR g"
definition flags_not :: "flags \<Rightarrow> flags" where "flags_not f = NOT f"
definition flags_empty :: "flags \<Rightarrow> bool" where "flags_empty f \<longleftrightarrow> f = 0"
definition flags_int :: "flags \<Rightarrow> int" where "flags_int f = sint f"

definition test_flag :: "flags \<Rightarrow> u32 \<Rightarrow> bool" where
  "test_flag f e \<longleftrightarrow> f AND e = e \<and> (e \<noteq> 0 \<or> f = e)"

section \<open>Flags as sets\<close>

definition flag_set :: "flags \<Rightarrow> nat set" where
  "flag_set f = {n. bit f n}"

lemma flag_set_inject: "flag_set f = flag_set g \<longleftrightarrow> f = g"
proof
  assume "flag_set f = flag_set g"
  then have "bit f n = bit g n" for n by (auto simp: flag_set_def set_eq_iff)
  then show "f = g" by (intro bit_word_eqI)
qed simp

lemma flag_set_bound: "flag_set f \<subseteq> {..<32}"
  using bit_imp_le_length by (fastforce simp: flag_set_def)

lemma flag_set_ops:
  "flag_set 0 = {}" "flag_set (f AND g) = flag_set f \<inter> flag_set g" "flag_set (f OR g) = flag_set f \<union> flag_set g"
  "flag_set (f XOR g) = (flag_set f - flag_set g) \<union> (flag_set g - flag_set f)" "flag_set (NOT f) = {..<32} - flag_set f"
  by (auto simp: flag_set_def bit_simps)

lemma flag_set_list: "flag_set (flags_of_list es) = (\<Union>e \<in> set es. flag_set e)"
  by (induction es) (simp_all add: flag_set_ops)

lemma test_flag_subset: "test_flag f e \<longleftrightarrow> flag_set e \<subseteq> flag_set f \<and> (flag_set e = {} \<longrightarrow> flag_set f = {})"
proof -
  have "f AND e = e \<longleftrightarrow> flag_set e \<subseteq> flag_set f" by (auto simp: flag_set_ops simp flip: flag_set_inject)
  moreover have "e = 0 \<longleftrightarrow> flag_set e = {}" "f = 0 \<longleftrightarrow> flag_set f = {}" by (simp_all add: flag_set_ops(1) flip: flag_set_inject)
  ultimately show ?thesis by (auto simp: test_flag_def)
qed

section \<open>Properties\<close>

text \<open>
  A value of \<^verbatim>\<open>flags\<close> is a set of bits: distinct values are distinct sets, the operators are those
  of sets, a list of enumerators is their union, and \<^verbatim>\<open>testFlag\<close> asks for all bits of an
  enumerator; for the enumerator that has none, whether there are none at all.
\<close>

theorem flags_are_sets:
  "(flag_set f = flag_set g \<longleftrightarrow> f = g) \<and>
   flag_set (flags_of_list es) = (\<Union>e \<in> set es. flag_set (flags_of e)) \<and>
   flag_set (flags_and f g) = flag_set f \<inter> flag_set g \<and> flag_set (flags_or f g) = flag_set f \<union> flag_set g \<and>
   flag_set (flags_xor f g) = (flag_set f - flag_set g) \<union> (flag_set g - flag_set f) \<and>
   flag_set (flags_not f) = {..<32} - flag_set f \<and> flags_empty f = (flag_set f = {}) \<and>
   test_flag f g = (if flag_set g = {} then flag_set f = {} else flag_set g \<subseteq> flag_set f)"
  using flag_set_inject [of f 0]
  by (auto simp: flag_set_inject flag_set_list flag_set_ops flags_of_def flags_and_def flags_or_def flags_xor_def flags_not_def
      flags_empty_def test_flag_subset)

text \<open>
  The conversion to \<^verbatim>\<open>int\<close> is negative exactly when the highest flag is set, and an \<^verbatim>\<open>int\<close> that
  comes back as a mask is the same set.
\<close>

theorem flags_int_sign:
  "(flags_int f < 0 \<longleftrightarrow> 31 \<in> flag_set f) \<and> flags_and g (word_of_int (flags_int f)) = flags_and g f"
  using bit_last_iff [of f] by (simp add: flags_int_def flag_set_def flags_and_def)

end
