(* ===== verification/Co_Guards.thy ===== *)
theory Co_Guards
  imports Co_Locks
begin

text \<open>
  The objects that hold the mutexes of coroutines in a scope (\<^verbatim>\<open>co_unique_lock\<close> of
  \<^verbatim>\<open>libgs/core/coro/detail/mutex.h\<close>, \<^verbatim>\<open>co_shared_lock\<close> of \<^verbatim>\<open>detail/shared_mutex.h\<close>), and what they
  and the counter of the shared mutex do to exclusion. A guard is whether it has a pointer to
  the mutex; the functions that wait forward to those of the mutex.
\<close>

section \<open>Unique locks\<close>

type_synonym guard = bool

definition new_guard :: guard where "new_guard = True"

definition guard_try_lock :: "guard \<Rightarrow> co_mutex \<Rightarrow> bool \<times> co_mutex" where
  "guard_try_lock g s = (if g then co_try_lock s else (True, s))"

definition guard_unlock :: "guard \<Rightarrow> co_mutex \<Rightarrow> co_mutex" where
  "guard_unlock g s = (if g then co_unlock s else s)"

definition guard_destroy :: "guard \<Rightarrow> co_mutex \<Rightarrow> co_mutex" where
  "guard_destroy g s = (if g then co_unlock s else s)"

definition guard_is_locked :: "guard \<Rightarrow> co_mutex \<Rightarrow> bool" where
  "guard_is_locked g s \<longleftrightarrow> (if g then native_handle s else False)"

text \<open>Moving: the new guard and what is left of the other; assigning one guard to another.\<close>

definition guard_move :: "guard \<Rightarrow> guard \<times> guard" where
  "guard_move other = (other, False)"

definition guard_assign :: "guard \<Rightarrow> guard \<Rightarrow> co_mutex \<Rightarrow> guard \<times> guard \<times> co_mutex" where
  "guard_assign g other s = (other, False, if g then co_unlock s else s)"

section \<open>Shared locks\<close>

definition shared_guard_try_lock :: "guard \<Rightarrow> co_shared \<Rightarrow> bool \<times> co_shared" where
  "shared_guard_try_lock g s = (if g then co_try_lock_shared s else (True, s))"

definition shared_guard_lock :: "nat \<Rightarrow> guard \<Rightarrow> co_shared \<Rightarrow> nat option \<times> co_shared" where
  "shared_guard_lock owner g s = (if g then co_lock_shared owner s else (None, s))"

definition shared_guard_destroy :: "guard \<Rightarrow> co_shared \<Rightarrow> co_shared" where
  "shared_guard_destroy g s = (if g then co_unlock_shared s else s)"

section \<open>Properties\<close>

text \<open>
  A guard that got a free mutex gives it back at the end of its scope, also when it has been
  moved meanwhile, and leaves nothing behind: the next one to try gets it.
\<close>

theorem guard_scope:
  assumes "\<not> native_handle s" "wait_queue s = []"
  shows "\<exists>s1. guard_try_lock new_guard s = (True, s1) \<and> guard_is_locked new_guard s1 \<and>
    \<not> fst (co_try_lock s1) \<and>
    (case guard_move new_guard of (g, other) \<Rightarrow> guard_destroy g (guard_destroy other s1)) = s"
proof -
  have "s\<lparr>native_handle := False\<rparr> = s" using assms(1) by (cases s) simp
  then show ?thesis using assms
    by (simp add: guard_try_lock_def new_guard_def co_try_lock_def guard_is_locked_def guard_move_def guard_destroy_def co_unlock_def)
qed

theorem guard_scope_witness:
  "\<exists>s1. guard_try_lock new_guard new_co_mutex = (True, s1) \<and> guard_destroy new_guard s1 = new_co_mutex"
proof -
  have "\<not> native_handle new_co_mutex" "wait_queue new_co_mutex = []" by (simp_all add: new_co_mutex_def)
  from guard_scope [OF this] show ?thesis by (auto simp: guard_move_def guard_destroy_def new_guard_def)
qed

text \<open>
  A guard that has not got the mutex gives it back all the same: when another coroutine holds
  it, and nobody waits, the end of the scope frees the mutex, and a third one gets it while the
  holder still works.
\<close>

theorem failed_guard_frees:
  assumes "native_handle s" "wait_queue s = []"
  shows "\<exists>s1. guard_try_lock new_guard s = (False, s1) \<and> s1 = s \<and>
    fst (co_try_lock (guard_destroy new_guard s1))"
  using assms by (simp add: guard_try_lock_def new_guard_def co_try_lock_def guard_destroy_def co_unlock_def)

theorem failed_guard_frees_witness:
  "\<exists>s1. guard_try_lock new_guard (snd (co_try_lock new_co_mutex)) = (False, s1) \<and>
    fst (co_try_lock (guard_destroy new_guard s1))"
  using failed_guard_frees [of "snd (co_try_lock new_co_mutex)"] by (simp add: co_try_lock_def new_co_mutex_def)

text \<open>
  Readers of the shared mutex do not respect a writer: while one has it, the first reader is
  refused, or made to wait, but counted; the second one is let in at once.
\<close>

theorem readers_pass_writer:
  assumes "native_handle (read_handle s)" "m_read_count s = 0"
  shows "\<not> fst (shared_guard_try_lock new_guard s) \<and>
    fst (shared_guard_try_lock new_guard (snd (shared_guard_try_lock new_guard s))) \<and>
    fst (shared_guard_lock i new_guard s) \<noteq> None \<and>
    fst (shared_guard_lock j new_guard (snd (shared_guard_lock i new_guard s))) = None \<and>
    native_handle (read_handle (snd (shared_guard_lock j new_guard (snd (shared_guard_lock i new_guard s)))))"
  using assms
  by (simp add: shared_guard_try_lock_def shared_guard_lock_def new_guard_def co_try_lock_shared_def co_lock_shared_def
      co_try_lock_def co_wait_def new_wake_up_def Let_def)

theorem readers_pass_writer_witness:
  "fst (write_try_lock new_co_shared) \<and>
   fst (shared_guard_try_lock new_guard (snd (shared_guard_try_lock new_guard (snd (write_try_lock new_co_shared)))))"
  using readers_pass_writer [of "snd (write_try_lock new_co_shared)"]
  by (simp add: write_try_lock_def new_co_shared_def new_co_mutex_def co_try_lock_def)

end
