(* ===== verification/Wide_Strings.thy ===== *)
theory Wide_Strings
  imports Percent_Encoding Sha1
begin

text \<open>
  Conversions between strings of \<^verbatim>\<open>wchar_t\<close> and of bytes (\<^verbatim>\<open>libgs/core/cxx/detail/string_tools.h\<close>:
  \<^verbatim>\<open>wcstombs\<close>, \<^verbatim>\<open>mbstowcs\<close>), and what is built on them: hashing and percent encoding of wide
  strings. A wide character is its number. The encoding of the C locale is a parameter, a
  function that encodes a character, if it can, and one that decodes the first character of a
  byte string; \<open>multibyte\<close> states what the C standard says of them, and UTF-8 is an instance.
  A view is the memory from its first character up to a terminator, with its size.
\<close>

section \<open>Encodings\<close>

locale multibyte =
  fixes enc :: "nat \<Rightarrow> string option" and dec :: "string \<Rightarrow> (nat \<times> string) option"
  assumes enc_some: "enc w = Some bs \<Longrightarrow> w \<noteq> 0 \<Longrightarrow> bs \<noteq> [] \<and> dec (bs @ rest) = Some (w, rest)"
    and enc_ascii: "0 < w \<Longrightarrow> w < 128 \<Longrightarrow> enc w = Some [char_of w]"

definition utf8_enc :: "nat \<Rightarrow> string option" where
  "utf8_enc w =
     (if w < 0x80 then Some [char_of w]
      else if w < 0x800 then Some [char_of (0xC0 + w div 64), char_of (0x80 + w mod 64)]
      else if w < 0x10000 then
        if 0xD800 \<le> w \<and> w < 0xE000 then None
        else Some [char_of (0xE0 + w div 4096), char_of (0x80 + w div 64 mod 64), char_of (0x80 + w mod 64)]
      else if w < 0x110000 then
        Some [char_of (0xF0 + w div 262144), char_of (0x80 + w div 4096 mod 64), char_of (0x80 + w div 64 mod 64),
              char_of (0x80 + w mod 64)]
      else None)"

definition trail :: "char \<Rightarrow> nat option" where
  "trail c = (if 0x80 \<le> (of_char c :: nat) \<and> of_char c < (0xC0 :: nat) then Some (of_char c - 0x80) else None)"

definition utf8_dec :: "string \<Rightarrow> (nat \<times> string) option" where
  "utf8_dec s =
     (case s of
        [] \<Rightarrow> None
      | c # cs \<Rightarrow>
          let n = of_char c :: nat in
          if n < 0x80 then Some (n, cs)
          else if n < 0xC0 then None
          else if n < 0xE0 then
            (case cs of d # ds \<Rightarrow> map_option (\<lambda>x. ((n - 0xC0) * 64 + x, ds)) (trail d) | _ \<Rightarrow> None)
          else if n < 0xF0 then
            (case cs of d # e # ds \<Rightarrow>
               (case (trail d, trail e) of (Some x, Some y) \<Rightarrow> Some ((n - 0xE0) * 4096 + x * 64 + y, ds) | _ \<Rightarrow> None)
             | _ \<Rightarrow> None)
          else
            (case cs of d # e # f # ds \<Rightarrow>
               (case (trail d, trail e, trail f) of
                  (Some x, Some y, Some z) \<Rightarrow> Some ((n - 0xF0) * 262144 + x * 4096 + y * 64 + z, ds)
                | _ \<Rightarrow> None)
             | _ \<Rightarrow> None))"

lemma trail_char: "x < 64 \<Longrightarrow> trail (char_of (128 + x)) = Some x"
  by (simp add: trail_def of_char_of take_bit_eq_mod)

lemma lead_char: "x < 256 \<Longrightarrow> (of_char (char_of x) :: nat) = x"
  by (simp add: of_char_of take_bit_eq_mod)

interpretation utf8: multibyte utf8_enc utf8_dec
proof
  fix w bs rest
  assume w: "utf8_enc w = Some bs" "w \<noteq> 0"
  have split2: "w div 64 * 64 + w mod 64 = w" by simp
  have "w div 4096 = w div 64 div 64" "w div 262144 = w div 4096 div 64" by (simp_all flip: div_mult2_eq)
  moreover have "w div 64 div 64 * 64 + w div 64 mod 64 = w div 64" "w div 4096 div 64 * 64 + w div 4096 mod 64 = w div 4096"
    by (rule div_mult_mod_eq)+
  ultimately have split3: "w div 4096 * 4096 + w div 64 mod 64 * 64 + w mod 64 = w"
    and split4: "w div 262144 * 262144 + w div 4096 mod 64 * 4096 + w div 64 mod 64 * 64 + w mod 64 = w"
    using split2 by linarith+
  consider "w < 128" | "128 \<le> w" "w < 2048" | "2048 \<le> w" "w < 65536" | "65536 \<le> w" "w < 1114112"
    using w by (fastforce simp: utf8_enc_def split: if_splits)
  then show "bs \<noteq> [] \<and> utf8_dec (bs @ rest) = Some (w, rest)"
  proof cases
    case 1
    then show ?thesis using w by (auto simp: utf8_enc_def utf8_dec_def lead_char Let_def)
  next
    case 2
    then have "w div 64 < 32" "2 \<le> w div 64" by simp_all
    then show ?thesis using 2 w split2 by (auto simp: utf8_enc_def utf8_dec_def lead_char trail_char Let_def)
  next
    case 3
    then have "w div 4096 < 16" by simp
    then show ?thesis using 3 w split3 by (auto simp: utf8_enc_def utf8_dec_def lead_char trail_char Let_def split: if_splits)
  next
    case 4
    then have "w div 262144 < 5" by simp
    then show ?thesis using 4 w split4 by (auto simp: utf8_enc_def utf8_dec_def lead_char trail_char Let_def)
  qed
qed (simp add: utf8_enc_def)

section \<open>The conversions\<close>

text \<open>
  \<^verbatim>\<open>std::wcstombs\<close> into a buffer of \<open>n\<close> bytes and \<^verbatim>\<open>std::mbstowcs\<close> into one of \<open>n\<close> wide
  characters: they stop at a terminator, at what they cannot convert, and before a character
  for which there is no room. The buffers of the library are zero behind what is written.
\<close>

fun std_wcstombs :: "(nat \<Rightarrow> string option) \<Rightarrow> nat \<Rightarrow> nat list \<Rightarrow> string" where
  "std_wcstombs enc n [] = []"
| "std_wcstombs enc n (w # ws) =
     (if w = 0 then []
      else case enc w of
             None \<Rightarrow> []
           | Some bs \<Rightarrow> if n < length bs then [] else bs @ std_wcstombs enc (n - length bs) ws)"

fun std_mbstowcs :: "(string \<Rightarrow> (nat \<times> string) option) \<Rightarrow> nat \<Rightarrow> string \<Rightarrow> nat list" where
  "std_mbstowcs dec 0 s = []"
| "std_mbstowcs dec (Suc n) s =
     (if s = [] then []
      else case dec s of None \<Rightarrow> [] | Some (w, rest) \<Rightarrow> if w = 0 then [] else w # std_mbstowcs dec n rest)"

lemma std_mbstowcs_end [simp]: "std_mbstowcs dec n [] = []"
  by (cases n) simp_all

definition wcstombs :: "(nat \<Rightarrow> string option) \<Rightarrow> nat list \<Rightarrow> nat \<Rightarrow> string" where
  "wcstombs enc data sz = (if sz = 0 then [] else std_wcstombs enc sz data)"

definition mbstowcs :: "(string \<Rightarrow> (nat \<times> string) option) \<Rightarrow> string \<Rightarrow> nat \<Rightarrow> nat list" where
  "mbstowcs dec data sz = (if sz = 0 then [] else std_mbstowcs dec sz data)"

text \<open>Of a whole string, whose data ends with it.\<close>

definition narrow :: "(nat \<Rightarrow> string option) \<Rightarrow> nat list \<Rightarrow> string" where
  "narrow enc ws = wcstombs enc ws (length ws)"

definition widen :: "(string \<Rightarrow> (nat \<times> string) option) \<Rightarrow> string \<Rightarrow> nat list" where
  "widen dec s = mbstowcs dec s (length s)"

definition wide_append :: "(nat \<Rightarrow> string option) \<Rightarrow> sha1_impl \<Rightarrow> nat list \<Rightarrow> sha1_impl" where
  "wide_append enc s ws =
     (if ws = [] then s else append_data s (map (\<lambda>c. word_of_nat (of_char c)) (narrow enc ws)))"

definition wide_hex :: "(string \<Rightarrow> (nat \<times> string) option) \<Rightarrow> sha1_impl \<Rightarrow> bool \<Rightarrow> nat list" where
  "wide_hex dec s upper_case = widen dec (hex s upper_case)"

definition wide_to_percent ::
    "(nat \<Rightarrow> string option) \<Rightarrow> (string \<Rightarrow> (nat \<times> string) option) \<Rightarrow> nat list \<Rightarrow> nat list \<Rightarrow> nat list \<Rightarrow> char \<Rightarrow> nat list" where
  "wide_to_percent enc dec str excl incl percent =
     widen dec (to_percent_encoding (narrow enc str) (narrow enc excl) (narrow enc incl) percent)"

section \<open>Whole encodings\<close>

definition encodes :: "(nat \<Rightarrow> string option) \<Rightarrow> nat list \<Rightarrow> string \<Rightarrow> bool" where
  "encodes enc ws s \<longleftrightarrow> 0 \<notin> set ws \<and> (\<forall>w \<in> set ws. enc w \<noteq> None) \<and> s = concat (map (the \<circ> enc) ws)"

context multibyte begin

lemma encoded_length: "encodes enc ws s \<Longrightarrow> length ws \<le> length s"
proof (induction ws arbitrary: s)
  case (Cons w ws)
  then obtain bs where bs: "enc w = Some bs" "w \<noteq> 0" "s = bs @ concat (map (the \<circ> enc) ws)"
    by (auto simp: encodes_def)
  then have "encodes enc ws (concat (map (the \<circ> enc) ws))" using Cons.prems by (simp add: encodes_def)
  from Cons.IH [OF this] show ?case using enc_some [OF bs(1,2)] bs(3) by (cases bs) simp_all
qed simp

lemma mbstowcs_encoded:
  "encodes enc ws s \<Longrightarrow> std_mbstowcs dec n (s @ rest) =
     (if n \<le> length ws then take n ws else ws @ std_mbstowcs dec (n - length ws) rest)"
proof (induction ws arbitrary: s n)
  case Nil
  then show ?case by (cases n) (simp_all add: encodes_def)
next
  case (Cons w ws)
  then obtain bs where bs: "enc w = Some bs" "w \<noteq> 0" "s = bs @ concat (map (the \<circ> enc) ws)"
    by (auto simp: encodes_def)
  then have "encodes enc ws (concat (map (the \<circ> enc) ws))" using Cons.prems by (simp add: encodes_def)
  from Cons.IH [OF this] show ?case using enc_some [OF bs(1,2)] bs(2,3) by (cases n) simp_all
qed

lemma wcstombs_fits:
  "encodes enc ws s \<Longrightarrow> length s \<le> n \<Longrightarrow> std_wcstombs enc n ws = s"
proof (induction ws arbitrary: s n)
  case (Cons w ws)
  then obtain bs where bs: "enc w = Some bs" "w \<noteq> 0" "s = bs @ concat (map (the \<circ> enc) ws)"
    by (auto simp: encodes_def)
  then have "encodes enc ws (concat (map (the \<circ> enc) ws))" using Cons.prems by (simp add: encodes_def)
  then show ?case using Cons.IH [of "concat (map (the \<circ> enc) ws)" "n - length bs"] Cons.prems(2) bs by simp
qed (simp add: encodes_def)

lemma wcstombs_length: "length (std_wcstombs enc n ws) \<le> n"
  by (induction enc n ws rule: std_wcstombs.induct) (auto split: option.split)

lemma ascii_encodes:
  "list_all (\<lambda>w. 0 < w \<and> w < 128) ws \<Longrightarrow> encodes enc ws (map char_of ws)"
  by (induction ws) (auto simp: encodes_def enc_ascii)

lemma encoded_ascii: "encodes enc ws s \<Longrightarrow> length s = length ws \<Longrightarrow> \<forall>w \<in> set ws. length (the (enc w)) = 1"
proof (induction ws arbitrary: s)
  case (Cons w ws)
  then obtain bs where bs: "enc w = Some bs" "w \<noteq> 0" "s = bs @ concat (map (the \<circ> enc) ws)"
    by (auto simp: encodes_def)
  then have tail: "encodes enc ws (concat (map (the \<circ> enc) ws))" using Cons.prems by (simp add: encodes_def)
  have "0 < length bs" using enc_some [OF bs(1,2)] by simp
  moreover have "length bs + length (concat (map (the \<circ> enc) ws)) = Suc (length ws)" using Cons.prems(2) bs(3) by simp
  ultimately have "length bs = 1" "length (concat (map (the \<circ> enc) ws)) = length ws"
    using encoded_length [OF tail] by linarith+
  then show ?case using Cons.IH [OF tail] bs(1) by simp
qed simp

end

lemma some_chars:
  "char_of (97 :: nat) = CHR ''a''" "char_of (98 :: nat) = CHR ''b''" "char_of (99 :: nat) = CHR ''c''"
  "char_of (104 :: nat) = CHR ''h''" "char_of (105 :: nat) = CHR ''i''"
  "char_of (195 :: nat) = CHR 0xC3" "char_of (169 :: nat) = CHR 0xA9"
  by code_simp+

section \<open>Properties\<close>

text \<open>
  A byte string that encodes wide characters is widened to them, in any encoding; a view into a
  longer one is not: for each byte that its characters have beyond the first, the conversion
  takes one character that lies behind the view.
\<close>

theorem widen_decodes:
  assumes "multibyte enc dec" "encodes enc ws s" "encodes enc vs rest"
  shows "widen dec s = ws \<and> mbstowcs dec (s @ rest) (length s) = ws @ take (length s - length ws) vs"
proof -
  note enc = multibyte.encoded_length [OF assms(1,2)] multibyte.mbstowcs_encoded [OF assms(1,2), of "length s"]
  have "std_mbstowcs dec n rest = take n vs" for n
    using multibyte.mbstowcs_encoded [OF assms(1,3), of n "[]"] by (cases "n \<le> length vs") simp_all
  then show ?thesis using enc(1) enc(2) [of rest] enc(2) [of "[]"] by (cases "s = []") (auto simp: widen_def mbstowcs_def)
qed

theorem widen_decodes_witness:
  "mbstowcs utf8_dec [CHR ''a'', CHR 0xC3, CHR 0xA9, CHR ''b'', CHR ''c''] 3 = [97, 0xE9, 98]"
proof -
  have "encodes utf8_enc [97, 0xE9] [CHR ''a'', CHR 0xC3, CHR 0xA9]" "encodes utf8_enc [98, 99] ''bc''"
    by (simp_all add: encodes_def utf8_enc_def some_chars)
  from widen_decodes [OF utf8.multibyte_axioms this] show ?thesis by (simp add: numeral_3_eq_3)
qed

text \<open>C37.
  Narrowing keeps a wide string exactly when every character takes one byte: the buffer has
  one byte for each wide character. What comes out never has more bytes than that.
\<close>

theorem narrow_complete_iff:
  assumes "multibyte enc dec" "encodes enc ws s"
  shows "(narrow enc ws = s \<longleftrightarrow> (\<forall>w \<in> set ws. length (the (enc w)) = 1)) \<and> length (narrow enc ws) \<le> length ws"
proof -
  have len: "length (narrow enc ws) \<le> length ws"
    using multibyte.wcstombs_length [OF assms(1)] by (simp add: narrow_def wcstombs_def)
  have "narrow enc ws = s" if one: "\<forall>w \<in> set ws. length (the (enc w)) = 1"
  proof -
    have "length (concat (map (the \<circ> enc) ws)) = length ws" using one by (induction ws) simp_all
    then have "length s = length ws" using assms(2) by (simp add: encodes_def)
    then show ?thesis using multibyte.wcstombs_fits [OF assms, of "length ws"] by (cases "ws = []") (simp_all add: narrow_def wcstombs_def)
  qed
  moreover have "length s = length ws" if "narrow enc ws = s"
    using that len multibyte.encoded_length [OF assms] by simp
  ultimately show ?thesis using len multibyte.encoded_ascii [OF assms] by blast
qed

theorem narrow_complete_iff_witness: "narrow utf8_enc [97, 0xE9] \<noteq> [CHR ''a'', CHR 0xC3, CHR 0xA9]"
proof -
  have "encodes utf8_enc [97, 0xE9] [CHR ''a'', CHR 0xC3, CHR 0xA9]" by (simp add: encodes_def utf8_enc_def some_chars)
  from narrow_complete_iff [OF utf8.multibyte_axioms this] show ?thesis by (simp add: utf8_enc_def)
qed

text \<open>Strings of ASCII survive both conversions, in any encoding.\<close>

theorem ascii_roundtrip:
  assumes "multibyte enc dec" "list_all (\<lambda>w. 0 < w \<and> w < 128) ws"
  shows "narrow enc ws = map char_of ws \<and> widen dec (narrow enc ws) = ws"
proof -
  note ascii = multibyte.ascii_encodes [OF assms]
  have "narrow enc ws = map char_of ws"
    using multibyte.wcstombs_fits [OF assms(1) ascii, of "length ws"] by (cases ws) (simp_all add: narrow_def wcstombs_def)
  moreover have "widen dec (map char_of ws) = ws"
    using multibyte.mbstowcs_encoded [OF assms(1) ascii, of "length ws" "[]"] by (simp add: widen_def mbstowcs_def)
  ultimately show ?thesis by simp
qed

theorem ascii_roundtrip_witness: "narrow utf8_enc [104, 105] = ''hi'' \<and> widen utf8_dec ''hi'' = [104, 105]"
  using ascii_roundtrip [OF utf8.multibyte_axioms, of "[104, 105]"] by (auto simp: some_chars)

text \<open>
  What a wide string ends with may be lost: a last character of more than one byte does not
  count for the hash of the string nor for its percent encoding.
\<close>

theorem wide_end_lost:
  assumes "multibyte enc dec" "list_all (\<lambda>w. 0 < w \<and> w < 128) ws" "enc w = Some bs" "1 < length bs"
  shows "narrow enc (ws @ [w]) = map char_of ws \<and>
    wide_append enc s (ws @ [w]) = wide_append enc s ws \<and>
    wide_to_percent enc dec (ws @ [w]) excl incl percent = wide_to_percent enc dec ws excl incl percent"
proof -
  have run: "std_wcstombs enc (length vs + n) (vs @ us) = map char_of vs @ std_wcstombs enc n us"
    if "list_all (\<lambda>w. 0 < w \<and> w < 128) vs" for vs us n
    using that by (induction vs) (auto simp: multibyte.enc_ascii [OF assms(1)])
  have "narrow enc (ws @ [w]) = map char_of ws"
    using run [OF assms(2), of 1 "[w]"] assms(3,4) by (simp add: narrow_def wcstombs_def)
  moreover have "narrow enc ws = map char_of ws" using run [OF assms(2), of 0 "[]"] by (cases ws) (simp_all add: narrow_def wcstombs_def)
  moreover have "append_data s [] = s" by (simp add: append_data_def append_blocks.simps)
  ultimately show ?thesis by (auto simp: wide_append_def wide_to_percent_def)
qed

theorem wide_end_lost_witness:
  "wide_append utf8_enc sha1_init [99, 97, 102, 0xE9] = wide_append utf8_enc sha1_init [99, 97, 102, 0x20AC]"
  using wide_end_lost [OF utf8.multibyte_axioms, where ws = "[99, 97, 102]" and w = "0xE9" and s = sha1_init]
    wide_end_lost [OF utf8.multibyte_axioms, where ws = "[99, 97, 102]" and w = "0x20AC" and s = sha1_init]
  by (simp add: utf8_enc_def)

end
