(* ===== verification/Keep_Alive.thy ===== *)
theory Keep_Alive
  imports Http_Server
begin

text \<open>
  Several requests on one connection (\<^verbatim>\<open>libgs/http/server/detail/server.h\<close>, \<^verbatim>\<open>do_tcp_service\<close>): the
  parser is reset between them, but keeps more than a new one has. For the requests the library
  itself prints, what is carried from one to the next is exactly the arguments bound by the
  route of the earlier one and the flag for compression: the service of a connection is that of
  a fresh parser for each request, in which only these two are put. Requests that
  choose their route and do not ask for encodings are answered as if they were alone.
\<close>

section \<open>Handlers\<close>

text \<open>
  Handlers may read, write and change what they are given, but they cannot reach the callbacks
  of the parser.
\<close>

definition behaves :: "(service_ctx \<Rightarrow> 'a \<times> service_ctx) \<Rightarrow> bool" where
  "behaves f \<longleftrightarrow> (\<forall>c. p_begin (cx_parser (snd (f c))) = p_begin (cx_parser c) \<and>
     p_cookie (cx_parser (snd (f c))) = p_cookie (cx_parser c))"

named_theorems behaviour

lemma behaves_bind [behaviour]: "behaves m \<Longrightarrow> (\<And>x. behaves (f x)) \<Longrightarrow> behaves (eff_bind m f)"
  by (simp add: behaves_def eff_bind_def split: prod.splits sum.splits) (metis snd_conv)

lemma behaves_catch [behaviour]: "behaves m \<Longrightarrow> (\<And>e. behaves (h e)) \<Longrightarrow> behaves (eff_catch m h)"
  by (simp add: behaves_def eff_catch_def split: prod.splits sum.splits) (metis snd_conv)

lemma behaves_parts [behaviour]:
  "behaves (eff_return x)" "behaves (Pair x)" "behaves (\<lambda>c. (x, c))" "behaves (cx_set_status s)"
  "behaves (cx_set_header key v)" "behaves (cx_write stold body)"
  by (simp_all add: behaves_def eff_return_def cx_set_status_def cx_set_header_def cx_write_def split: sum.splits prod.splits)

text \<open>What the program registers with the server.\<close>

definition server_behaves :: "server \<Rightarrow> bool" where
  "server_behaves sv \<longleftrightarrow>
     (\<forall>rt \<in> snd ` set (sv_routes sv). behaves (aop_before (tk_aop rt)) \<and> behaves (aop_service (tk_aop rt)) \<and>
        behaves (aop_after (tk_aop rt)) \<and> (\<forall>ex. behaves (aop_exception (tk_aop rt) ex))) \<and>
     (\<forall>f. sv_default sv = Some f \<longrightarrow> behaves f) \<and>
     (\<forall>f ex. sv_service_error sv = Some f \<longrightarrow> behaves (f ex))"

lemma behaves_service_error: "server_behaves sv \<Longrightarrow> behaves (call_on_service_error sv ex)"
  unfolding call_on_service_error_def
  by (intro behaviour) (auto simp: server_behaves_def behaves_def split: option.splits prod.splits, (metis snd_conv)+)

lemma behaves_run:
  assumes "server_behaves sv" "(rule, rt) \<in> set (sv_routes sv)"
  shows "behaves (run_ctrlr sv (tk_aop rt))"
proof -
  have rt: "behaves (aop_before (tk_aop rt))" "behaves (aop_service (tk_aop rt))" "behaves (aop_after (tk_aop rt))"
    "behaves (aop_exception (tk_aop rt) ex)" for ex
    using assms by (auto simp: server_behaves_def image_iff)
  have "behaves (\<lambda>c. case aop_exception (tk_aop rt) ex c of
      (handled, c) \<Rightarrow> if handled then (Inr (), c) else call_on_service_error sv ex c)" for ex
    using rt(4) [of ex] behaves_service_error [OF assms(1), of ex]
    by (auto simp: behaves_def split: prod.splits) (metis snd_conv)+
  then show ?thesis
    unfolding run_ctrlr_def by (intro behaviour) (auto intro!: behaviour rt)
qed

lemma behaves_reject: "behaves (reject_method stold m ms)"
proof -
  have "behaves (\<lambda>c. case r of Inl e \<Rightarrow> (Inl e, c) | Inr body \<Rightarrow> cx_write stold (butlast body) c)" for r :: "string res"
    using behaves_parts(6) [of stold] by (cases r) (simp_all add: behaves_parts)
  then show ?thesis unfolding reject_method_def by (auto intro!: behaviour)
qed

section \<open>Choosing a route again\<close>

lemma route_loop_next:
  assumes "path_match rule r = Inr (w, r1)" "w \<noteq> 0"
    and "better \<longleftrightarrow> 0 < w \<and> (w < weight \<or> w = weight \<and> 0 < length (rq_path r1))"
  shows "route_loop ((rule, h) # routes) handler weight r =
    route_loop routes (if better then Some h else handler) (if better then w else weight) r1"
  unfolding route_loop.simps assms(1) res_bind_def sum.case prod.case if_not_P [OF assms(2)] assms(3) [symmetric]
  by (cases better) simp_all

text \<open>A route that is chosen leaves its arguments, whatever arguments were there before.\<close>

lemma route_loop_same_path:
  assumes "route_loop routes handler weight r = Inr (h, q)" "rq_path r' = rq_path r"
  shows "\<exists>x. route_loop routes handler weight r' = Inr (h, x) \<and>
    (x = r'\<lparr>rq_path_args := rq_path_args q\<rparr> \<or> x = r' \<and> q = r \<and> h = handler)"
  using assms
proof (induction routes arbitrary: handler weight r r')
  case (Cons y routes)
  obtain rule h' where y: "y = (rule, h')" by (cases y)
  obtain w r1 where m: "path_match rule r = Inr (w, r1)"
    using Cons.prems(1) y by (cases "path_match rule r") auto
  note again = path_match_same_path [OF Cons.prems(2), of rule, unfolded m]
  have own: "r1 = (if w < 0 then r else r\<lparr>rq_path_args := rq_path_args r1\<rparr>)"
    using path_match_same_path [of r r rule] m by simp
  let ?r' = "if w < 0 then r' else r'\<lparr>rq_path_args := rq_path_args r1\<rparr>"
  have path: "rq_path r1 = rq_path r" by (subst own) simp
  show ?case
  proof (cases "w = 0")
    case True
    then show ?thesis using Cons.prems(1) again m y by auto
  next
    case False
    define better where "better \<longleftrightarrow> 0 < w \<and> (w < weight \<or> w = weight \<and> 0 < length (rq_path r))"
    define handler' where "handler' = (if better then Some h' else handler)"
    define weight' where "weight' = (if better then w else weight)"
    have rest: "route_loop routes handler' weight' r1 = Inr (h, q)"
      using Cons.prems(1) unfolding y handler'_def weight'_def
      by (subst (asm) route_loop_next [OF m False better_def [folded path]])
    obtain x where x: "route_loop routes handler' weight' ?r' = Inr (h, x)"
        "x = ?r'\<lparr>rq_path_args := rq_path_args q\<rparr> \<or> x = ?r' \<and> q = r1 \<and> h = handler'"
      using Cons.IH [OF rest, of ?r'] Cons.prems(2) path by (cases "w < 0") fastforce+
    have "route_loop (y # routes) handler weight r' = route_loop routes handler' weight' ?r'"
      using again unfolding y handler'_def weight'_def
      by (intro route_loop_next [OF _ False]) (auto simp: better_def Cons.prems(2))
    moreover have "x = r'\<lparr>rq_path_args := rq_path_args q\<rparr> \<or> x = r' \<and> q = r \<and> h = handler"
      using x(2) own by (cases "w < 0") (auto simp: handler'_def better_def)
    ultimately show ?thesis using x(1) by (intro exI [of _ x]) simp
  qed
qed simp

lemma select_route_same_path:
  assumes "select_route sv r = Inr (Some rt, q)" "rq_path r' = rq_path r"
  shows "select_route sv r' = Inr (Some rt, r'\<lparr>rq_path_args := rq_path_args q\<rparr>)"
  using route_loop_same_path [OF assms [unfolded select_route_def]] by (auto simp: select_route_def)

lemma route_loop_from:
  "route_loop routes handler weight r = Inr (Some rt, q) \<Longrightarrow> handler = Some rt \<or> rt \<in> snd ` set routes"
proof (induction routes arbitrary: handler weight r)
  case (Cons y routes)
  then show ?case
    by (cases y) (force simp: res_bind_Inr split: if_splits)
qed simp

lemma behaves_request:
  assumes "server_behaves sv"
  shows "behaves (call_on_request stold sv)"
proof -
  have "p_begin (cx_parser (snd (call_on_request stold sv c))) = p_begin (cx_parser c) \<and>
      p_cookie (cx_parser (snd (call_on_request stold sv c))) = p_cookie (cx_parser c)" for c
  proof (cases "select_route sv (p_owner (cx_parser c))")
    case (Inr x)
    obtain handler r where x: "x = (handler, r)" by (cases x)
    let ?c = "c\<lparr>cx_parser := (cx_parser c)\<lparr>p_owner := r\<rparr>\<rparr>"
    show ?thesis
    proof (cases handler)
      case None
      then show ?thesis using Inr x behaves_parts(4) [of 404] by (simp add: call_on_request_def behaves_def)
    next
      case (Some rt)
      then obtain rule where "(rule, rt) \<in> set (sv_routes sv)"
        using Inr x route_loop_from [of "sv_routes sv" None] by (force simp: select_route_def)
      then show ?thesis
        using Inr x Some behaves_run [OF assms, of rule rt] behaves_reject [of stold "rq_method r" "tk_method rt"]
        by (simp add: call_on_request_def behaves_def Let_def)
    qed
  qed (simp add: call_on_request_def)
  then show ?thesis by (simp add: behaves_def)
qed

lemma behaves_default:
  assumes "server_behaves sv"
  shows "behaves (call_on_default stold sv)"
proof -
  have page: "behaves (\<lambda>c. if b c then (Inr (), c) else case default_page (st c) of
      Inl e \<Rightarrow> (Inl e, c)
    | Inr body \<Rightarrow> eff_bind (cx_set_header ''Content-Type'' ''text/html'') (\<lambda>_. cx_write stold body) c)" for b st
  proof -
    have "behaves (eff_bind (cx_set_header ''Content-Type'' ''text/html'') (\<lambda>_. cx_write stold body))" for body
      by (intro behaviour)
    then show ?thesis by (auto simp: behaves_def split: sum.splits)
  qed
  have "behaves (case sv_default sv of None \<Rightarrow> eff_return () | Some f \<Rightarrow> f)"
    using assms by (auto simp: server_behaves_def intro: behaviour split: option.splits)
  then show ?thesis
    unfolding call_on_default_def by (intro behaviour behaves_service_error assms page)
qed

section \<open>A request on a used parser\<close>

text \<open>What the client prints, the head and the body.\<close>

definition request_bytes :: "stold_fn \<Rightarrow> http_method \<times> request_arg \<times> string \<Rightarrow> string" where
  "request_bytes stold rq =
     (case rq of (m, arg, body) \<Rightarrow>
        case request_header_data stold v11 (method_value m) (length body) arg new_helper of
          Inl e \<Rightarrow> []
        | Inr (head, h) \<Rightarrow> head @ fst (body_data body h))"

text \<open>What the library can send as a request: any of the requests that its parser reads back.\<close>

definition sendable :: "http_method \<times> request_arg \<times> string \<Rightarrow> bool" where
  "sendable rq = (case rq of (m, arg, body) \<Rightarrow> good_request arg \<and> length body < 2 ^ 64)"

text \<open>What a parser keeps for its next request, and a new parser with nothing else.\<close>

definition left_by :: "request_parser \<Rightarrow> (string \<times> string) list \<times> bool" where
  "left_by p = (rq_path_args (p_owner p), rq_support_gzip (p_owner p))"

definition fresh_with :: "(string \<times> string) list \<times> bool \<Rightarrow> request_parser" where
  "fresh_with left = new_request_parser\<lparr>p_owner := new_request\<lparr>rq_path_args := fst left, rq_support_gzip := snd left\<rparr>\<rparr>"

text \<open>The service of a connection if every request had a fresh parser with these two.\<close>

fun served_apart ::
    "stold_fn \<Rightarrow> server \<Rightarrow> (string \<times> string) list \<times> bool \<Rightarrow> (http_method \<times> request_arg \<times> string) list \<Rightarrow>
     served option \<times> string" where
  "served_apart stold sv left [] = (None, [])"
| "served_apart stold sv left (rq # rqs) =
     (case read_step stold sv (fresh_with left) (Read_bytes (request_bytes stold rq)) of
        Inl fin \<Rightarrow> (Some fin, [])
      | Inr p \<Rightarrow>
          (case serve_request stold sv p of
             (Keep p, out) \<Rightarrow> (case served_apart stold sv (left_by p) rqs of (fin, rest) \<Rightarrow> (fin, out @ rest))
           | (fin, out) \<Rightarrow> (Some fin, out)))"

text \<open>
  Requests whose answer cannot depend on earlier ones: they do not leave the choice of
  compression to the flag of the parser, and there is a route for their path.
\<close>

definition plain_request :: "server \<Rightarrow> http_method \<times> request_arg \<times> string \<Rightarrow> bool" where
  "plain_request sv rq =
     (sendable rq \<and> (case rq of (m, arg, body) \<Rightarrow>
        list_all (\<lambda>kv. str_to_lower (fst kv) \<noteq> ''accept-encoding'') (ra_headers arg) \<and>
        (\<exists>rt r. select_route sv (new_request\<lparr>rq_path := ra_path arg\<rparr>) = Inr (Some rt, r))))"

lemma absent_header:
  assumes "list_all (\<lambda>kv. str_to_lower (fst kv) \<noteq> str_to_lower key) hs"
    and "str_to_lower key \<noteq> ''content-type''" "str_to_lower key \<noteq> ''content-length''"
  shows "map_find (map (\<lambda>(k, v). (str_to_lower k, v)) (message_headers n hs)) key = None"
proof -
  have "map_find (set_map_list default_headers hs) key = map_find default_headers key"
    by (rule set_map_list_keeps [OF assms(1)])
  also have "\<dots> = None" using assms(2) by (simp add: default_headers_def not_less_equiv)
  finally show ?thesis
    using assms(3) by (simp add: map_find_lower_keys message_headers_def map_find_assign)
qed

lemma lower_names:
  "str_to_lower ''Accept-Encoding'' = ''accept-encoding''" "str_to_lower ''Connection'' = ''connection''"
  "str_to_lower ''Transfer-Encoding'' = ''transfer-encoding''" "str_to_lower ''Host'' = ''host''"
  by code_simp+

lemma same_after_reading:
  assumes "awaits_request p" "plain_request sv (m, arg, body)"
    and "q = derive_attributes (request_read new_request_parser m arg body)"
  shows "derive_attributes (request_read p m arg body) =
    q\<lparr>p_owner := (p_owner q)\<lparr>rq_path_args := rq_path_args (p_owner p)\<rparr>\<rparr>"
proof -
  have "map_find (map (\<lambda>(k, v). (str_to_lower k, v)) (message_headers (length body) (ra_headers arg))) ''Accept-Encoding'' = None"
    using assms(2) by (intro absent_header) (simp_all add: plain_request_def lower_names)
  then show ?thesis
    using assms(1) new_awaits_request
    by (intro parser.equality request.equality)
      (simp_all add: assms(3) derive_attributes_def request_read_def line_read_def awaits_request_def Let_def
        split: option.split)
qed

lemma same_service:
  assumes "awaits_request p" "plain_request sv (m, arg, body)"
  shows "serve_request stold sv (derive_attributes (request_read p m arg body)) =
    serve_request stold sv (derive_attributes (request_read new_request_parser m arg body))"
proof -
  let ?q = "derive_attributes (request_read p m arg body)"
  let ?u = "derive_attributes (request_read new_request_parser m arg body)"
  have q: "?q = ?u\<lparr>p_owner := (p_owner ?u)\<lparr>rq_path_args := rq_path_args (p_owner p)\<rparr>\<rparr>"
    by (rule same_after_reading [OF assms refl])
  obtain rt r where r: "select_route sv (new_request\<lparr>rq_path := ra_path arg\<rparr>) = Inr (Some rt, r)"
    using assms(2) by (auto simp: plain_request_def)
  have "rq_path (p_owner ?u) = ra_path arg"
    by (simp add: derive_attributes_def request_read_def line_read_def Let_def)
  then have "select_route sv (p_owner ?u) = Inr (Some rt, (p_owner ?u)\<lparr>rq_path_args := rq_path_args r\<rparr>)"
    "select_route sv (p_owner ?q) = Inr (Some rt, (p_owner ?u)\<lparr>rq_path_args := rq_path_args r\<rparr>)"
    using select_route_same_path [OF r, of "p_owner ?u"] select_route_same_path [OF r, of "p_owner ?q"] by (simp_all add: q)
  then have "call_on_request stold sv (new_context ?q) = call_on_request stold sv (new_context ?u)"
    by (simp add: call_on_request_def new_context_def q)
  then show ?thesis by (simp add: serve_request_def eff_bind_def)
qed

lemma served_awaits:
  assumes "server_behaves sv" "p_begin q = Some request_begin" "p_cookie q = Some request_cookie"
    and "serve_request stold sv q = (Keep p, out)"
  shows "awaits_request p"
proof -
  let ?f = "eff_bind (call_on_request stold sv)
      (\<lambda>_ c. if \<not> response_finished c then call_on_default stold sv c else (Inr (), c))"
  have "behaves (\<lambda>c. if \<not> response_finished c then call_on_default stold sv c else (Inr (), c))"
    using behaves_default [OF assms(1), of stold] by (simp add: behaves_def)
  then have "behaves ?f" by (intro behaviour behaves_request assms(1))
  moreover obtain c where "snd (?f (new_context q)) = c" "p = request_reset (cx_parser c)"
    using assms(4) by (auto simp: serve_request_def split: prod.splits sum.splits if_splits)
  ultimately have "p_begin (cx_parser c) = Some request_begin" "p_cookie (cx_parser c) = Some request_cookie"
    using assms(2,3) by (auto simp: behaves_def new_context_def)
  then show ?thesis
    using \<open>p = _\<close> by (simp add: awaits_request_def request_reset_def reset_def Let_def)
qed

lemma plain_sendable: "plain_request sv rq \<Longrightarrow> sendable rq"
  by (simp add: plain_request_def)

lemma plain_request_read:
  assumes "awaits_request p" "sendable (m, arg, body)"
  shows "read_step stold sv p (Read_bytes (request_bytes stold (m, arg, body))) =
    Inr (derive_attributes (request_read p m arg body))"
  using request_arrives [OF assms(1), of arg body stold m] assms(2)
  by (auto simp: sendable_def request_bytes_def read_step_def)

lemma one_request:
  assumes "server_behaves sv" "awaits_request p" "plain_request sv rq"
    and "do_tcp_service stold sv new_request_parser [Read_bytes (request_bytes stold rq)] = (None, out)"
  shows "\<exists>p'. awaits_request p' \<and>
    do_tcp_service stold sv p (Read_bytes (request_bytes stold rq) # es) =
      (case do_tcp_service stold sv p' es of (fin, rest) \<Rightarrow> (fin, out @ rest))"
proof -
  obtain m arg body where rq: "rq = (m, arg, body)" by (cases rq)
  let ?q = "derive_attributes (request_read new_request_parser m arg body)"
  note plain = assms(3) [unfolded rq] and sent = plain_sendable [OF assms(3), unfolded rq]
  have "fst (serve_request stold sv ?q) = Keep p' \<Longrightarrow> snd (serve_request stold sv ?q) = out" for p'
    using assms(4) plain_request_read [OF new_awaits_request sent, of stold] by (auto simp: rq split: prod.splits)
  moreover obtain p' where "fst (serve_request stold sv ?q) = Keep p'"
    using assms(4) plain_request_read [OF new_awaits_request sent, of stold]
    by (auto simp: rq split: prod.splits served.splits)
  ultimately have served: "serve_request stold sv ?q = (Keep p', out)" by (metis prod.collapse)
  have "p_begin ?q = Some request_begin" "p_cookie ?q = Some request_cookie"
    using new_awaits_request by (simp_all add: derive_attributes_def request_read_def line_read_def awaits_request_def Let_def)
  then have "awaits_request p'" by (rule served_awaits [OF assms(1) _ _ served])
  moreover have "do_tcp_service stold sv p (Read_bytes (request_bytes stold rq) # es) =
      (case do_tcp_service stold sv p' es of (fin, rest) \<Rightarrow> (fin, out @ rest))"
    using plain_request_read [OF assms(2) sent, of stold] same_service [OF assms(2) plain, of stold] served by (simp add: rq)
  ultimately show ?thesis by blast
qed

lemma fresh_awaits: "awaits_request (fresh_with left)"
  using new_awaits_request by (simp add: fresh_with_def awaits_request_def new_request_def)

lemma left_by_fresh [simp]: "left_by new_request_parser = ([], False)"
  by (simp add: left_by_def new_request_parser_def new_parser_def on_parse_begin_def on_parse_cookie_def new_request_def)

text \<open>What a used parser reads is what a fresh one with the two things left reads.\<close>

lemma read_apart:
  assumes "awaits_request p" "sendable rq"
  shows "read_step stold sv p (Read_bytes (request_bytes stold rq)) =
    read_step stold sv (fresh_with (left_by p)) (Read_bytes (request_bytes stold rq))"
proof -
  obtain m arg body where rq: "rq = (m, arg, body)" by (cases rq)
  have "derive_attributes (request_read p m arg body) = derive_attributes (request_read (fresh_with (left_by p)) m arg body)"
    using assms(1) fresh_awaits [of "left_by p"]
    by (intro parser.equality request.equality)
      (simp_all add: derive_attributes_def request_read_def line_read_def awaits_request_def left_by_def fresh_with_def
        Let_def split: option.split)
  then show ?thesis
    using plain_request_read [OF assms(1), of m arg body stold sv]
      plain_request_read [OF fresh_awaits, of m arg body stold sv] assms(2) by (simp add: rq)
qed

lemma connection_apart:
  assumes "server_behaves sv" "list_all sendable rqs" "awaits_request p"
  shows "do_tcp_service stold sv p (map (\<lambda>rq. Read_bytes (request_bytes stold rq)) rqs) = served_apart stold sv (left_by p) rqs"
  using assms(2,3)
proof (induction rqs arbitrary: p)
  case (Cons rq rqs)
  obtain m arg body where rq: "rq = (m, arg, body)" by (cases rq)
  have sent: "sendable (m, arg, body)" using Cons.prems(1) rq by simp
  let ?q = "derive_attributes (request_read p m arg body)"
  have read: "read_step stold sv p (Read_bytes (request_bytes stold rq)) = Inr ?q"
    using plain_request_read [OF Cons.prems(2) sent] rq by simp
  have "p_begin ?q = Some request_begin" "p_cookie ?q = Some request_cookie"
    using Cons.prems(2) by (simp_all add: derive_attributes_def request_read_def line_read_def awaits_request_def Let_def)
  then have "awaits_request p'" if "serve_request stold sv ?q = (Keep p', out)" for p' out
    by (rule served_awaits [OF assms(1) _ _ that])
  then show ?case
    using Cons.IH Cons.prems read read_apart [OF Cons.prems(2), of rq stold sv]
    by (auto split: prod.split served.split)
qed simp

section \<open>Properties\<close>

lemma connection_alone:
  assumes "server_behaves sv" "list_all (plain_request sv) rqs"
    and "list_all (\<lambda>rq. fst (do_tcp_service stold sv new_request_parser [Read_bytes (request_bytes stold rq)]) = None) rqs"
  shows "do_tcp_service stold sv new_request_parser (map (\<lambda>rq. Read_bytes (request_bytes stold rq)) rqs) =
    (None, concat (map (\<lambda>rq. snd (do_tcp_service stold sv new_request_parser [Read_bytes (request_bytes stold rq)])) rqs))"
proof -
  have "do_tcp_service stold sv p (map (\<lambda>rq. Read_bytes (request_bytes stold rq)) rqs) =
    (None, concat (map (\<lambda>rq. snd (do_tcp_service stold sv new_request_parser [Read_bytes (request_bytes stold rq)])) rqs))"
    if "awaits_request p" for p
    using that assms(2,3)
  proof (induction rqs arbitrary: p)
    case (Cons rq rqs)
    have "do_tcp_service stold sv new_request_parser [Read_bytes (request_bytes stold rq)] =
        (None, snd (do_tcp_service stold sv new_request_parser [Read_bytes (request_bytes stold rq)]))"
      using Cons.prems(3) by (simp add: prod_eq_iff)
    moreover have "plain_request sv rq" using Cons.prems(2) by simp
    ultimately obtain p' where "awaits_request p'"
      "do_tcp_service stold sv p (map (\<lambda>rq. Read_bytes (request_bytes stold rq)) (rq # rqs)) =
        (case do_tcp_service stold sv p' (map (\<lambda>rq. Read_bytes (request_bytes stold rq)) rqs) of
           (fin, rest) \<Rightarrow> (fin, snd (do_tcp_service stold sv new_request_parser [Read_bytes (request_bytes stold rq)]) @ rest))"
      using one_request [OF assms(1) Cons.prems(1)] unfolding list.map by blast
    then show ?case using Cons.IH [of p'] Cons.prems(2,3) by (simp del: do_tcp_service.simps)
  qed simp
  then show ?thesis by simp
qed

text \<open>C3.
  The requests on a connection, any that the library prints, one to a read: each is served as
  by a fresh parser that has of the earlier requests exactly two things, the arguments that the
  last chosen route bound and whether gzip was ever accepted, up to and including how the
  connection ends. And requests that choose a route and say nothing of encodings, which
  alone would be kept, are all answered as if they were alone, in their order.
\<close>

theorem connection_serves_all:
  assumes "server_behaves sv" "list_all sendable rqs"
  shows "do_tcp_service stold sv new_request_parser (map (\<lambda>rq. Read_bytes (request_bytes stold rq)) rqs) =
      served_apart stold sv ([], False) rqs \<and>
    (list_all (plain_request sv) rqs \<and>
     list_all (\<lambda>rq. fst (do_tcp_service stold sv new_request_parser [Read_bytes (request_bytes stold rq)]) = None) rqs \<longrightarrow>
       served_apart stold sv ([], False) rqs =
       (None, concat (map (\<lambda>rq. snd (do_tcp_service stold sv new_request_parser [Read_bytes (request_bytes stold rq)])) rqs)))"
  using connection_apart [OF assms new_awaits_request, of stold] connection_alone [OF assms(1)] by auto

text \<open>A server that answers \<^verbatim>\<open>ok\<close>, and three requests to it.\<close>

abbreviation no_stold :: stold_fn where
  "no_stold \<equiv> \<lambda>s. Inl Invalid_argument"

definition ok_server :: server where
  "ok_server = new_server\<lparr>sv_routes := [(''/a/b'', \<lparr>tk_method = all_methods,
     tk_aop = multi_ctrlr_aop (cx_write no_stold ''ok'') []\<rparr>)]\<rparr>"

definition ok_requests :: "(http_method \<times> request_arg \<times> string) list" where
  "ok_requests = [(POST, sample_arg, ''hello''), (GET, sample_arg, []), (PUT, sample_arg, ''hello'')]"

lemma ok_server_behaves: "server_behaves ok_server"
proof -
  have "behaves (first_handles [] ex)" for ex by (simp add: behaves_def)
  then show ?thesis by (simp add: server_behaves_def ok_server_def new_server_def multi_ctrlr_aop_def behaviour)
qed

lemma ok_selected:
  assumes "rq_path r = ''/a/b''"
  shows "select_route ok_server r = Inr (Some \<lparr>tk_method = all_methods, tk_aop = multi_ctrlr_aop (cx_write no_stold ''ok'') []\<rparr>,
    r\<lparr>rq_path_args := []\<rparr>)"
  using own_rule [of r] own_path by (simp add: assms select_route_def ok_server_def)

lemma ok_plain: "list_all (plain_request ok_server) ok_requests"
proof -
  have "ra_headers sample_arg = [(''Host'', ''h'')]" by (simp add: sample_arg_def)
  then show ?thesis
    using sample_arg_good ok_selected by (simp add: ok_requests_def plain_request_def sendable_def lower_names)
qed

lemma ok_written:
  assumes "map_find hs ''Transfer-Encoding'' = None"
  shows "\<exists>d r. co_write no_stold ''ok'' (new_response v11 hs) = Inr (d, r) \<and> h_state (rh_helper r) = Finish"
proof -
  have texts: "version_string v11 = Inr ''1.1''" "status_description 200 = Inr ''OK''" by code_simp+
  have "unset_header ''set-cookie'' new_helper = new_helper"
    by (simp add: unset_header_def unset_map_def new_helper_def default_headers_def not_less_equiv)
  then show ?thesis
    using assms default_headers_find
    by (simp add: co_write_def response_header_data_def new_response_def request_chunked_def texts header_data_def
        new_helper_def use_content_length_def body_data_def Let_def)
qed

lemma ok_served:
  assumes "rq \<in> set ok_requests"
  shows "fst (do_tcp_service no_stold ok_server new_request_parser [Read_bytes (request_bytes no_stold rq)]) = None"
proof -
  obtain m body where rq: "rq = (m, sample_arg, body)" "m \<in> {POST, GET, PUT}" using assms by (auto simp: ok_requests_def)
  have plain: "plain_request ok_server (m, sample_arg, body)" using ok_plain assms rq by (simp add: list_all_iff)
  let ?q = "derive_attributes (request_read new_request_parser m sample_arg body)"
  have host: "list_all (\<lambda>kv. str_to_lower (fst kv) = ''host'') (ra_headers sample_arg)"
    by (simp add: sample_arg_def lower_names)
  have headers: "map_find (p_headers ?q) key = None"
    if "str_to_lower key \<notin> {''host'', ''content-type'', ''content-length''}" for key
    using absent_header [of key "ra_headers sample_arg" "length body"] host that
    by (auto simp: derive_attributes_def request_read_def Let_def list_all_iff)
  have "rq_keep_alive (p_owner ?q)"
    using headers [of "''Connection''"]
    by (simp add: derive_attributes_def request_read_def line_read_def Let_def lower_names v11_def v10_def)
  moreover have q: "rq_path (p_owner ?q) = ''/a/b''" "rq_method (p_owner ?q) = m" "p_version ?q = v11"
    using sample_arg_good(2) by (simp_all add: derive_attributes_def request_read_def line_read_def Let_def)
  moreover have "all_methods AND method_value m \<noteq> 0" using rq(2) by (elim insertE emptyE; simp only:; code_simp)
  moreover obtain d r where "co_write no_stold ''ok'' (new_response v11 (p_headers ?q)) = Inr (d, r)"
      "h_state (rh_helper r) = Finish"
    using ok_written [OF headers [of "''Transfer-Encoding''"]] by (auto simp: lower_names)
  ultimately have "fst (serve_request no_stold ok_server ?q) \<in> range Keep"
    using ok_selected [OF q(1)]
    by (simp add: serve_request_def call_on_request_def new_context_def run_ctrlr_def multi_ctrlr_aop_def eff_bind_def
        eff_catch_def eff_return_def cx_write_def response_finished_def ok_server_def new_server_def Let_def)
  then show ?thesis using plain_request_read [OF new_awaits_request plain_sendable [OF plain], of no_stold] rq(1)
    by (auto split: prod.splits)
qed

theorem connection_serves_all_witness:
  "do_tcp_service no_stold ok_server new_request_parser (map (\<lambda>rq. Read_bytes (request_bytes no_stold rq)) ok_requests) =
    (None, concat (map (\<lambda>rq. snd (do_tcp_service no_stold ok_server new_request_parser [Read_bytes (request_bytes no_stold rq)]))
      ok_requests))"
proof -
  have "list_all sendable ok_requests" using ok_plain plain_sendable by (auto simp: list_all_iff)
  from connection_serves_all [OF ok_server_behaves this, of no_stold] ok_plain ok_served show ?thesis
    by (simp add: list_all_iff)
qed

end
