(* ===== verification/Spec2Isabelle.thy ===== *)
theory Spec2Isabelle
  imports Sha1 Http_Server Request_Body Http_Url Http_Session Lock_Free_Queue Spin_Locks Co_Locks
    Ini_Sync Args_Parser Uuid Value Modules Dyn_Library Socket_Helper Session_Pool Http_Response
    File_Token Request_Arg Server_Life Server_Session Executor Flags Co_Guards Wide_Strings
    Keep_Alive
begin

text \<open>
  A verification library for libgs (\<^verbatim>\<open>src/libgs\<close>), a C++ library of utilities and
  coroutine locks on which an HTTP client and server stand. The theories follow its parts.

  \<^bold>\<open>Conventions.\<close> A \<^verbatim>\<open>std::string\<close> is a list of bytes, \<^verbatim>\<open>char\<close> is signed, \<^verbatim>\<open>size_t\<close> has
  64 bits; templates over the character type are modelled in their \<^verbatim>\<open>char\<close> instances.
  What throws yields a value of \<open>'a res\<close>, that is, an exception or a result (\<open>Prelude\<close>, with
  the searching functions of strings). An object is a record, a member function a function
  that returns it updated. Loops are structural or have a measure: the head, chunk and
  splitting loops consume their buffer; splitting at an empty separator, which does not
  return in C++, is a partial function whose value is then \<^const>\<open>None\<close>. The conversion to
  floating point (\<^verbatim>\<open>stold\<close>) is a parameter of the functions that fall back on it, and so are
  handlers, callbacks and the clock where the library takes them from its user.

  \<^bold>\<open>Core (\<^verbatim>\<open>libgs/core\<close>).\<close>
  \<open>Cxx_Strings\<close> (case, trimming, replacing, file names: \<^verbatim>\<open>algorithm/detail/base.h\<close>),
  \<open>Numbers\<close> (\<^verbatim>\<open>ston\<close> and its kin: printing and reading are inverse within the range of the
  type), \<open>String_List\<close> (joining and splitting are inverse), \<open>Percent_Encoding\<close>
  (\<^verbatim>\<open>algorithm/misc.cpp\<close>: decoding undoes encoding, the decoder that works in place refines
  a decoder of lists), \<open>Wildcard\<close> (the table of \<^verbatim>\<open>wildcard_match\<close> decides a declarative
  relation, and its weight, a word of 32 bits, where the exact weight fits one), \<open>Sha1\<close> (\<^verbatim>\<open>algorithm/sha1.cpp\<close> is the compression of FIPS 180),
  \<open>Mime_Tables\<close> and \<open>Mime_Type\<close> (\<^verbatim>\<open>algorithm/mime_type.cpp\<close>), \<open>Std_Map\<close> (\<^verbatim>\<open>std::map\<close>
  behind the locale \<open>keyed_store\<close>), \<open>Ini_File\<close> (\<^verbatim>\<open>detail/ini.h\<close>: groups, keys and the two
  directions of the file, which are inverse on files in the plain alphabet), \<open>Ini_Sync\<close> (its
  timer and the writing of the file as a machine, whose invariant ties the timer to what is
  unwritten), \<open>Args_Parser\<close> (\<^verbatim>\<open>args_parser.cpp\<close>: what is rendered as a command line is read
  back), \<open>Byte_Order\<close> and \<open>Uuid\<close> (\<^verbatim>\<open>algorithm/detail/uuid.h\<close>: version and variant of random
  identifiers, their text), \<open>Value\<close> (\<^verbatim>\<open>detail/value.h\<close>: what is stored as a number is read
  back, and what a narrower type makes of it), \<open>Modules\<close> (\<^verbatim>\<open>modules.cpp\<close>: levels run in order,
  each after the one before, over functions and waits that end, throw or never return), \<open>App_Utils\<close> (\<^verbatim>\<open>app_utls.cpp\<close>, \<^verbatim>\<open>app_utls_unix.cpp\<close>: normal
  absolute paths, the environment as a map), \<open>Dyn_Library\<close> (\<^verbatim>\<open>library.cpp\<close>,
  \<^verbatim>\<open>library_unix.cpp\<close>: loads counted in 32 bits over a table of the loader, and the unloading
  that nothing calls), \<open>Flags\<close>
  (\<^verbatim>\<open>cxx/detail/flags.h\<close>: sets of flags as words), \<open>Wide_Strings\<close> (\<^verbatim>\<open>cxx/detail/string_tools.h\<close>:
  conversions to and from wide strings, what they lose, and what is hashed and encoded by
  them) and \<open>Executor\<close> (\<^verbatim>\<open>execution.cpp\<close>, \<^verbatim>\<open>detail/execution.h\<close>: the event loop with its exit
  code, and polling until a work is done, over contexts whose handlers are lists of actions;
  the polled work is a list of parts between which it waits, and the order of what runs is
  logged).

  \<^bold>\<open>Concurrency.\<close>
  \<open>Lock_Free_Queue\<close> (\<^verbatim>\<open>detail/lock_free_queue.h\<close>) has one step for each atomic access, so a
  schedule is a list of threads; with producers only, and with one consumer afterwards, no
  element is lost or reordered, and schedules of four and seven steps show an element taken
  twice and an access to a freed node. \<open>Spin_Locks\<close> (\<^verbatim>\<open>detail/spin_mutex.h\<close>,
  \<^verbatim>\<open>detail/shared_mutex.h\<close>) and \<open>Co_Locks\<close> (\<^verbatim>\<open>coro/detail\<close>: wake-ups, mutex, semaphore,
  shared mutex) have step relations; exclusion and the handing over of the lock are
  invariants of the reachable states. There the waiting queue is taken as atomic and the weak
  exchanges do not fail spuriously, and the theorems on the mutex are those of coroutines of
  one thread; a run ends where the timer of a wake-up uses one that is destroyed, and that it
  can is a theorem. \<open>Co_Guards\<close> holds these locks in a scope.

  \<^bold>\<open>HTTP (\<^verbatim>\<open>libgs/http\<close>).\<close>
  \<open>Http_Types\<close> (status, methods, versions), \<open>Http_Map\<close> (maps ordered without regard to case,
  behind a locale), \<open>Http_Parser\<close> (\<^verbatim>\<open>detail/parser_base.h\<close>: the incremental parser of heads,
  bodies by length and chunked bodies; parsing in fragments agrees with parsing at once for
  heads and bodies by length; the version of a new parser is uninitialised and left undefined),
  \<open>Http_Helper\<close> (\<^verbatim>\<open>detail/helper_base.h\<close>, \<^verbatim>\<open>response_helper.h\<close>,
  \<^verbatim>\<open>request_helper.h\<close>, \<^verbatim>\<open>cookie.h\<close>: what is printed and what the parser reads from it),
  \<open>Request_Parser\<close> (\<^verbatim>\<open>server/detail/request_parser.h\<close>: request line, cookies, matching of
  paths), \<open>Http_Exchange\<close> (a request printed by the client is the request the server reads),
  \<open>Http_Range\<close> (\<^verbatim>\<open>server/detail/response.h\<close>: ranges of files, whose announced length is
  the length sent; buffers of 0xFFFF bytes; where the source asserts or a part overruns its
  range there is no result), \<open>Http_Server\<close> (\<^verbatim>\<open>server/detail/server.h\<close>: routes,
  controllers, errors and the service of a connection over a list of reads; from the bytes a
  client prints to the controller that runs), \<open>Keep_Alive\<close> (requests on one connection are
  answered as if each came to a new parser, but for the path arguments and the mark of gzip that
  a reset leaves), \<open>Request_Body\<close> (\<^verbatim>\<open>server/detail/request.h\<close>:
  reading a body into buffers of fixed length and saving it, over the events of the socket),
  \<open>Http_Url\<close> (\<^verbatim>\<open>client/detail/url.h\<close>), \<open>Http_Session\<close> (\<^verbatim>\<open>session.h\<close>, \<^verbatim>\<open>session_set.h\<close>: the
  lives of sessions under a clock, with a coroutine or, where it began too early, without), \<open>Socket_Helper\<close> (\<^verbatim>\<open>socket_operation_helper.h\<close>: writing
  resumed until all is sent), \<open>Session_Pool\<close> (\<^verbatim>\<open>client/detail/session_pool.h\<close>: the
  implementation of the pool, by which no socket is in two hands), \<open>Http_Response\<close> (\<^verbatim>\<open>server/detail/response.h\<close>: the replies, chunks and
  redirections a controller writes refine a log of what the client sees), \<open>File_Token\<close>
  (\<^verbatim>\<open>cxx/detail/file_opt_token.h\<close>: from a name and ranges to the bytes on the wire, over a
  file system that is a parameter), \<open>Request_Arg\<close> (\<^verbatim>\<open>client/detail/request_arg.h\<close>: from the
  text of a URL to the controller), \<open>Server_Life\<close> (binding, starting, the accept loop and
  stopping, as a machine: connections are neither lost nor served twice; when a stop is
  missed, and when it ends the program), \<open>Server_Session\<close>
  (\<^verbatim>\<open>server/detail/context.h\<close>: from the cookie of a request to the session its handler gets,
  over the events of sessions, timers and other requests in between).

  \<^bold>\<open>Interfaces.\<close> The locales \<open>keyed_store\<close> (of \<open>Std_Map\<close>, interpreted for \<^verbatim>\<open>std::map\<close> and for
  the ini file) and \<open>ci_map\<close> (of \<open>Http_Map\<close>) state what the clients of a container rely on;
  \<open>multibyte\<close> (of \<open>Wide_Strings\<close>, interpreted for UTF-8) what the conversions rely on.

  \<^bold>\<open>Bounds and fuel.\<close> There is no fuel: schedules, reads and the answers of sockets, clocks
  and system calls are lists or functions that the theorems quantify over, and loops that
  need them end when they do.

  \<^bold>\<open>Not modelled.\<close> Sockets, acceptors and timers of asio and what only wraps them (\<^verbatim>\<open>dispatch\<close>
  and \<^verbatim>\<open>post\<close> of \<^verbatim>\<open>core/execution.h\<close>, \<^verbatim>\<open>coro/detail/utilities.h\<close>): their answers are parameters. The client's requests and replies (\<^verbatim>\<open>client/detail/request.h\<close>,
  \<^verbatim>\<open>reply.h\<close>, \<^verbatim>\<open>reply_parser.h\<close>) are stubs or do not compile when instantiated, and neither
  do typed cookie attributes, saving to file tokens, sending tokens of streams, the blocking
  functions that send ranges, the chunk end of responses, accepting with SSL and the
  synchronous functions of the session pool. Windows and macOS files; floating point; wide
  character instances other than the conversions; type traits, concepts and overload tokens, which have no run-time
  behaviour of their own; third-party code, examples and tests.
\<close>

end
